(* ===== verification/Prelude.thy ===== *)
theory Prelude
  imports Main "HOL-Library.Word"
begin

text \<open>
  Shared vocabulary of the development: the machine types of the C++ sources, the arithmetic of
  \<open>std::size_t\<close> with its wrap-around, exceptions as values, bounds-checked \<open>memcpy\<close>,
  \<open>std::to_string\<close>, and the generic lemmas and locale that the component theories use.

  A \<open>std::size_t\<close> is a \<^typ>\<open>nat\<close>; every addition and subtraction of the source that is not on a
  constant goes through \<open>sz_add\<close> and \<open>sz_sub\<close>, which wrap modulo \<open>2 ^ 64\<close>, and a remainder by
  zero or a copy out of bounds is the error \<open>Undefined\<close>. The component theories prove that these
  errors never occur.
\<close>

section \<open>Machine types\<close>

type_synonym byte = "8 word"
type_synonym u16 = "16 word"
type_synonym u32 = "32 word"
type_synonym u64 = "64 word"

text \<open>A \<open>double\<close> is its IEEE-754 binary64 bit pattern.\<close>

type_synonym double = "64 word"

named_theorems size_t_simps \<open>size_t arithmetic without wrap-around\<close>
named_theorems copy_simps \<open>successful memory copies\<close>

section \<open>Exceptions as values\<close>

text \<open>
  The exceptions the sources throw or may see thrown, with their message. \<open>Undefined\<close> is not an
  exception: it marks behaviour that the C++ standard leaves undefined, and no handler catches it.
\<close>

datatype cpp_error =
    overflow_error string
  | out_of_range string
  | length_error string
  | system_error int string
  | Undefined string

fun is_exception :: "cpp_error \<Rightarrow> bool" where
  "is_exception (Undefined _) = False"
| "is_exception _ = True"

text \<open>\<open>e.what()\<close>; a \<open>std::system_error\<close> carries its full message.\<close>

fun what :: "cpp_error \<Rightarrow> string" where
  "what (overflow_error m) = m"
| "what (out_of_range m) = m"
| "what (length_error m) = m"
| "what (system_error code m) = m"
| "what (Undefined m) = m"

type_synonym 'a res = "cpp_error + 'a"

fun bind_res :: "'e + 'a \<Rightarrow> ('a \<Rightarrow> 'e + 'b) \<Rightarrow> 'e + 'b" where
  "bind_res (Inl e) f = Inl e"
| "bind_res (Inr x) f = f x"

text \<open>A fallible operation applied to the elements of a list in turn; it stops at the first error.\<close>

fun fold_res :: "('s \<Rightarrow> 'x \<Rightarrow> 'e + 's) \<Rightarrow> 's \<Rightarrow> 'x list \<Rightarrow> 'e + 's" where
  "fold_res f s [] = Inr s"
| "fold_res f s (x # xs) = bind_res (f s x) (\<lambda>s'. fold_res f s' xs)"

section \<open>Sizes\<close>

definition size_t_limit :: nat where
  "size_t_limit = 2 ^ 64"

definition sz_add :: "nat \<Rightarrow> nat \<Rightarrow> nat" where
  "sz_add a b = (a + b) mod size_t_limit"

definition sz_sub :: "nat \<Rightarrow> nat \<Rightarrow> nat" where
  "sz_sub a b = (a + (size_t_limit - b mod size_t_limit)) mod size_t_limit"

definition sz_mod :: "nat \<Rightarrow> nat \<Rightarrow> nat res" where
  "sz_mod a b = (if b = 0 then Inl (Undefined ''remainder by zero'') else Inr (a mod b))"

text \<open>The largest size of a \<open>std::vector<std::byte>\<close> (\<open>PTRDIFF_MAX\<close>).\<close>

definition vector_max_size :: nat where
  "vector_max_size = 2 ^ 63 - 1"

section \<open>Memory\<close>

text \<open>
  \<open>memcpy dst d src s n\<close> copies \<open>n\<close> bytes from offset \<open>s\<close> of the array \<open>src\<close> to offset \<open>d\<close> of the
  array \<open>dst\<close>.
\<close>

definition memcpy :: "'a list \<Rightarrow> nat \<Rightarrow> 'a list \<Rightarrow> nat \<Rightarrow> nat \<Rightarrow> 'a list res" where
  "memcpy dst d src s n =
     (if d + n \<le> length dst \<and> s + n \<le> length src
      then Inr (take d dst @ take n (drop s src) @ drop (d + n) dst)
      else Inl (Undefined ''memcpy out of bounds''))"

text \<open>\<open>std::vector::resize\<close>: keeps the common prefix, value-initialises new elements.\<close>

definition vector_resize :: "'a::zero list \<Rightarrow> nat \<Rightarrow> 'a list" where
  "vector_resize xs n = take n xs @ replicate (n - length xs) 0"

section \<open>Decimal output\<close>

fun to_string :: "nat \<Rightarrow> string" where
  "to_string n =
     (if n < 10 then [char_of (48 + n)]
      else to_string (n div 10) @ [char_of (48 + n mod 10)])"

declare to_string.simps [simp del]

definition int_to_string :: "int \<Rightarrow> string" where
  "int_to_string i = (if i < 0 then ''-'' @ to_string (nat (- i)) else to_string (nat i))"

definition newline :: string where
  "newline = [char_of (10 :: nat)]"

text \<open>The em dash of the sources' messages, three bytes in UTF-8.\<close>

definition em_dash :: string where
  "em_dash = map char_of [0xE2, 0x80, 0x94 :: nat]"

section \<open>Generic lemmas\<close>

lemma bind_res_Inr_iff:
  "bind_res m f = Inr y \<longleftrightarrow> (\<exists>x. m = Inr x \<and> f x = Inr y)"
  by (cases m) auto

lemma bind_res_cong [fundef_cong]:
  "m = m' \<Longrightarrow> (\<And>x. m' = Inr x \<Longrightarrow> f x = f' x) \<Longrightarrow> bind_res m f = bind_res m' f'"
  by (cases m') auto

lemma sz_add_exact [size_t_simps]: "a + b < size_t_limit \<Longrightarrow> sz_add a b = a + b"
  by (simp add: sz_add_def)

lemma sz_sub_exact [size_t_simps]: "b \<le> a \<Longrightarrow> a < size_t_limit \<Longrightarrow> sz_sub a b = a - b"
proof -
  assume le: "b \<le> a" and lt: "a < size_t_limit"
  then have "a + (size_t_limit - b mod size_t_limit) = (a - b) + size_t_limit"
    by simp
  then have "sz_sub a b = ((a - b) + size_t_limit) mod size_t_limit"
    by (simp add: sz_sub_def)
  also have "\<dots> = a - b" using lt by simp
  finally show ?thesis .
qed

lemma sz_mod_pos [size_t_simps]: "0 < b \<Longrightarrow> sz_mod a b = Inr (a mod b)"
  by (simp add: sz_mod_def)

lemma size_t_limit_pos [simp]: "0 < size_t_limit"
  by (simp add: size_t_limit_def)

text \<open>A wrapped difference is always smaller than the minuend when something is taken away.\<close>

lemma sz_sub_less: "0 < n \<Longrightarrow> n \<le> c \<Longrightarrow> n < size_t_limit \<Longrightarrow> sz_sub c n < c"
proof (cases "c < size_t_limit")
  case True
  assume "0 < n" "n \<le> c"
  with True show ?thesis by (simp add: sz_sub_exact)
next
  case False
  have "sz_sub c n < size_t_limit" by (simp add: sz_sub_def)
  with False show ?thesis by simp
qed

lemma memcpy_ok [copy_simps]:
  "d + n \<le> length dst \<Longrightarrow> s + n \<le> length src \<Longrightarrow>
   memcpy dst d src s n = Inr (take d dst @ take n (drop s src) @ drop (d + n) dst)"
  by (simp add: memcpy_def)

lemma length_vector_resize [simp]: "length (vector_resize xs n) = n"
  by (simp add: vector_resize_def)

lemma to_string_nonempty [simp]: "to_string n \<noteq> []"
  by (subst to_string.simps) simp

section \<open>Functional refinement\<close>

text \<open>
  A component that executes operations one at a time: \<open>cstep\<close> is its model, \<open>astep\<close> its
  specification, \<open>abs\<close> reads the specification's state off the model's state and \<open>inv\<close> is the
  model's invariant. If one step simulates, a whole run gives the specification's outputs.
\<close>

fun run_steps :: "('s \<Rightarrow> 'op \<Rightarrow> 's \<times> 'out) \<Rightarrow> 's \<Rightarrow> 'op list \<Rightarrow> 's \<times> 'out list" where
  "run_steps step s [] = (s, [])"
| "run_steps step s (op # ops) =
     (let (s1, o1) = step s op; (s2, os) = run_steps step s1 ops in (s2, o1 # os))"

locale functional_refinement =
  fixes cstep :: "'s \<Rightarrow> 'op \<Rightarrow> 's \<times> 'out"
    and astep :: "'a \<Rightarrow> 'op \<Rightarrow> 'a \<times> 'out"
    and inv :: "'s \<Rightarrow> bool"
    and abs :: "'s \<Rightarrow> 'a"
    and ok :: "'op \<Rightarrow> bool"
  assumes step_inv: "inv s \<Longrightarrow> ok op \<Longrightarrow> inv (fst (cstep s op))"
    and step_abs: "inv s \<Longrightarrow> ok op \<Longrightarrow>
      astep (abs s) op = (abs (fst (cstep s op)), snd (cstep s op))"
begin

lemma run_inv: "inv s \<Longrightarrow> list_all ok ops \<Longrightarrow> inv (fst (run_steps cstep s ops))"
  by (induction ops arbitrary: s) (auto simp: split_def Let_def dest: step_inv)

lemma run_abs:
  "inv s \<Longrightarrow> list_all ok ops \<Longrightarrow>
   run_steps astep (abs s) ops =
     (abs (fst (run_steps cstep s ops)), snd (run_steps cstep s ops))"
proof (induction ops arbitrary: s)
  case Nil
  then show ?case by simp
next
  case (Cons op ops)
  from Cons.prems have "inv (fst (cstep s op))" by (auto dest: step_inv)
  from Cons.IH [OF this] Cons.prems show ?case
    by (simp add: step_abs split_def Let_def)
qed

end

section \<open>Simulation of step relations\<close>

text \<open>Every step of the detailed system is a finite run of the abstract one, possibly an empty one.\<close>

locale simulation =
  fixes cstep :: "'s \<Rightarrow> 's \<Rightarrow> bool"
    and astep :: "'a \<Rightarrow> 'a \<Rightarrow> bool"
    and abs :: "'s \<Rightarrow> 'a"
  assumes step_simulated: "cstep s s' \<Longrightarrow> astep\<^sup>*\<^sup>* (abs s) (abs s')"
begin

lemma run_simulated: "cstep\<^sup>*\<^sup>* s s' \<Longrightarrow> astep\<^sup>*\<^sup>* (abs s) (abs s')"
  by (induction rule: rtranclp_induct) (auto dest: step_simulated)

end

section \<open>Systems that come to rest\<close>

text \<open>
  A step relation along which something decreases. It has no infinite run, and a run that can be
  continued within \<open>P\<close> as long as \<open>Q\<close> does not hold reaches \<open>Q\<close>.
\<close>

locale decreasing_system =
  fixes step :: "'s \<Rightarrow> 's \<Rightarrow> bool"
    and less :: "('s \<times> 's) set"
  assumes wf_less: "wf less"
    and step_less: "step s s' \<Longrightarrow> (s', s) \<in> less"
begin

lemma no_infinite_run: "\<nexists>f. f 0 = s \<and> (\<forall>i :: nat. step (f i) (f (Suc i)))"
  using wf_less step_less unfolding wf_iff_no_infinite_down_chain by blast

lemma reaches:
  assumes "P s" and continue: "\<And>s. P s \<Longrightarrow> \<not> Q s \<Longrightarrow> \<exists>s'. step s s' \<and> P s'"
  shows "\<exists>s'. step\<^sup>*\<^sup>* s s' \<and> P s' \<and> Q s'"
  using assms(1)
proof (induction s rule: wf_induct [OF wf_less])
  case (1 s)
  show ?case
  proof (cases "Q s")
    case False
    then obtain s1 where "step s s1" "P s1" using continue 1(2) by blast
    then show ?thesis using 1(1) step_less by (meson converse_rtranclp_into_rtranclp)
  qed (use 1 in blast)
qed

end

end
