(* ===== verification/Ring_Buffer.thy ===== *)
theory Ring_Buffer
  imports Prelude
begin

text \<open>
  The class \<open>RingBuffer\<close> (\<open>include/ringBuffer.h\<close>, \<open>src/ringBuffer.cpp\<close>): a fixed-capacity circular
  byte buffer with separate \<open>peek\<close> and \<open>consume\<close>. The record has the fields of the class; each
  member function is one definition, with its guard, its two-part copy and its index arithmetic on
  \<open>std::size_t\<close>. The invariant \<open>rb_inv\<close> and the abstraction \<open>contents\<close> (the unread bytes, oldest
  first) give the contract of every operation; the locale \<open>byte_fifo\<close> states that contract, and
  the run of any sequence of operations is shown to give the results of a bounded list.
\<close>

section \<open>The class\<close>

record RingBuffer =
  m_buf :: "byte list"
  m_capacity :: nat
  m_head :: nat
  m_tail :: nat
  m_count :: nat

definition DEFAULT_CAPACITY :: nat where
  "DEFAULT_CAPACITY = 65536"

definition RingBuffer_ctor :: "nat \<Rightarrow> RingBuffer res" where
  "RingBuffer_ctor capacity =
     (if vector_max_size < capacity
      then Inl (length_error ''cannot create std::vector larger than max_size()'')
      else Inr \<lparr>m_buf = replicate capacity 0, m_capacity = capacity,
                m_head = 0, m_tail = 0, m_count = 0\<rparr>)"

definition rb_size :: "RingBuffer \<Rightarrow> nat" where
  "rb_size rb = m_count rb"

definition capacity :: "RingBuffer \<Rightarrow> nat" where
  "capacity rb = m_capacity rb"

definition free_space :: "RingBuffer \<Rightarrow> nat" where
  "free_space rb = sz_sub (m_capacity rb) (m_count rb)"

definition push :: "RingBuffer \<Rightarrow> byte list \<Rightarrow> RingBuffer res" where
  "push rb src =
     (if free_space rb < length src
      then Inl (overflow_error (''RingBuffer overflow: tried to push '' @ to_string (length src) @
             '' bytes, only '' @ to_string (free_space rb) @ '' free''))
      else let first_chunk = min (length src) (sz_sub (m_capacity rb) (m_head rb)) in
        bind_res (memcpy (m_buf rb) (m_head rb) src 0 first_chunk) (\<lambda>buf1.
        bind_res (if first_chunk < length src
                  then memcpy buf1 0 src first_chunk (sz_sub (length src) first_chunk)
                  else Inr buf1) (\<lambda>buf2.
        bind_res (sz_mod (sz_add (m_head rb) (length src)) (m_capacity rb)) (\<lambda>head'.
        Inr (rb\<lparr>m_buf := buf2, m_head := head',
                m_count := sz_add (m_count rb) (length src)\<rparr>)))))"

definition peek :: "RingBuffer \<Rightarrow> byte list \<Rightarrow> byte list res" where
  "peek rb dest =
     (let count = length dest in
      if m_count rb < count
      then Inl (out_of_range (''RingBuffer peek: requested '' @ to_string count @
             '' bytes, only '' @ to_string (m_count rb) @ '' available''))
      else let first_chunk = min count (sz_sub (m_capacity rb) (m_tail rb)) in
        bind_res (memcpy dest 0 (m_buf rb) (m_tail rb) first_chunk) (\<lambda>dest1.
        if first_chunk < count
        then memcpy dest1 first_chunk (m_buf rb) 0 (sz_sub count first_chunk)
        else Inr dest1))"

definition consume :: "RingBuffer \<Rightarrow> nat \<Rightarrow> RingBuffer res" where
  "consume rb count =
     (if m_count rb < count
      then Inl (out_of_range (''RingBuffer consume: tried to discard '' @ to_string count @
             '' bytes, only '' @ to_string (m_count rb) @ '' available''))
      else bind_res (sz_mod (sz_add (m_tail rb) count) (m_capacity rb)) (\<lambda>tail'.
        Inr (rb\<lparr>m_tail := tail', m_count := sz_sub (m_count rb) count\<rparr>)))"

definition clear :: "RingBuffer \<Rightarrow> RingBuffer" where
  "clear rb = rb\<lparr>m_head := 0, m_tail := 0, m_count := 0\<rparr>"

section \<open>Invariant and abstraction\<close>

definition rb_inv :: "RingBuffer \<Rightarrow> bool" where
  "rb_inv rb \<longleftrightarrow>
     length (m_buf rb) = m_capacity rb \<and> 0 < m_capacity rb \<and> m_capacity rb \<le> vector_max_size \<and>
     m_tail rb < m_capacity rb \<and> m_count rb \<le> m_capacity rb \<and>
     m_head rb = (m_tail rb + m_count rb) mod m_capacity rb"

definition contents :: "RingBuffer \<Rightarrow> byte list" where
  "contents rb = map (\<lambda>i. m_buf rb ! ((m_tail rb + i) mod m_capacity rb)) [0..<m_count rb]"

lemma length_contents [simp]: "length (contents rb) = m_count rb"
  by (simp add: contents_def)

lemma contents_nth: "i < m_count rb \<Longrightarrow> contents rb ! i = m_buf rb ! ((m_tail rb + i) mod m_capacity rb)"
  by (simp add: contents_def)

lemma rb_invD:
  assumes "rb_inv rb"
  shows "length (m_buf rb) = m_capacity rb" "0 < m_capacity rb" "m_tail rb < m_capacity rb"
    "m_head rb < m_capacity rb" "m_count rb \<le> m_capacity rb"
    "m_head rb = (m_tail rb + m_count rb) mod m_capacity rb"
    "m_capacity rb + m_capacity rb < size_t_limit"
  using assms by (auto simp: rb_inv_def vector_max_size_def size_t_limit_def)

lemma free_space_eq: "rb_inv rb \<Longrightarrow> free_space rb = m_capacity rb - m_count rb"
  using rb_invD [of rb] by (simp add: free_space_def sz_sub_exact)

section \<open>Circular index arithmetic\<close>

text \<open>Adding to an index below the capacity wraps at most once.\<close>

lemma mod_once:
  fixes a b cap :: nat
  assumes "a < cap" "b \<le> cap"
  shows "(a + b) mod cap = (if a + b < cap then a + b else a + b - cap)"
  using assms by (auto simp: mod_if)

text \<open>
  A write of \<open>src\<close> at slot \<open>h\<close> that goes on at slot 0 behind the end of the array, and a read of \<open>n\<close>
  bytes at slot \<open>t\<close>, both in at most two segments.
\<close>

definition circular_write :: "byte list \<Rightarrow> nat \<Rightarrow> byte list \<Rightarrow> byte list" where
  "circular_write buf h src =
     (let f = min (length src) (length buf - h) in
      drop f src @ drop (length src - f) (take h buf) @ take f src @ drop (h + f) buf)"

definition circular_read :: "byte list \<Rightarrow> nat \<Rightarrow> nat \<Rightarrow> byte list" where
  "circular_read buf t n =
     (let f = min n (length buf - t) in take f (drop t buf) @ take (n - f) buf)"

lemma length_circular_write:
  "h < length buf \<Longrightarrow> length src \<le> length buf \<Longrightarrow> length (circular_write buf h src) = length buf"
  by (auto simp: circular_write_def Let_def min_def)

text \<open>The slot of byte \<open>k\<close>, counted from the first slot written.\<close>

lemma circular_write_nth:
  assumes h: "h < length buf" and n: "length src \<le> length buf" and k: "k < length buf"
  shows "circular_write buf h src ! ((h + k) mod length buf) =
    (if k < length src then src ! k else buf ! ((h + k) mod length buf))"
proof (cases "h + k < length buf")
  case True
  then show ?thesis
    using n by (auto simp: circular_write_def Let_def min_def nth_append)
next
  case False
  then have m: "(h + k) mod length buf = h + k - length buf" using mod_once [of h "length buf" k] h k by simp
  show ?thesis
    using False h k n by (auto simp: m circular_write_def Let_def min_def nth_append)
qed

lemma length_circular_read: "t < length buf \<Longrightarrow> n \<le> length buf \<Longrightarrow> length (circular_read buf t n) = n"
  by (auto simp: circular_read_def Let_def min_def)

lemma circular_read_nth:
  assumes "t < length buf" and "n \<le> length buf" and "i < n"
  shows "circular_read buf t n ! i = buf ! ((t + i) mod length buf)"
  using assms by (auto simp: circular_read_def Let_def min_def nth_append mod_once add.commute [of i t])

section \<open>Contracts of the operations\<close>

lemma ctor_ok:
  assumes "0 < cap" "cap \<le> vector_max_size"
  shows "\<exists>rb. RingBuffer_ctor cap = Inr rb \<and> rb_inv rb \<and> contents rb = [] \<and> m_capacity rb = cap"
  using assms by (auto simp: RingBuffer_ctor_def rb_inv_def contents_def)

lemma push_overflow:
  "rb_inv rb \<Longrightarrow> m_capacity rb - m_count rb < length src \<Longrightarrow>
   push rb src = Inl (overflow_error (''RingBuffer overflow: tried to push '' @ to_string (length src) @
     '' bytes, only '' @ to_string (m_capacity rb - m_count rb) @ '' free''))"
  by (simp add: push_def free_space_eq)

text \<open>The two copies of \<open>push\<close> are a circular write.\<close>

lemma push_eq:
  assumes inv: "rb_inv rb" and room: "length src \<le> m_capacity rb - m_count rb"
  shows "push rb src = Inr (rb\<lparr>m_buf := circular_write (m_buf rb) (m_head rb) src,
    m_head := (m_head rb + length src) mod m_capacity rb, m_count := m_count rb + length src\<rparr>)"
proof -
  note D = rb_invD [OF inv]
  have n: "length src \<le> m_capacity rb" using room by simp
  have "sz_sub (m_capacity rb) (m_head rb) = m_capacity rb - m_head rb"
    "sz_add (m_head rb) (length src) = m_head rb + length src"
    "sz_add (m_count rb) (length src) = m_count rb + length src"
    "sz_sub (length src) (m_capacity rb - m_head rb) = length src - (m_capacity rb - m_head rb)
      \<or> length src \<le> m_capacity rb - m_head rb"
    using D(4,5,7) n by (auto simp: sz_sub_exact sz_add_exact)
  then show ?thesis
    using room inv n D(1,2,4)
    by (auto simp: push_def free_space_eq sz_mod_pos memcpy_ok circular_write_def Let_def min_def)
qed

lemma push_ok:
  assumes inv: "rb_inv rb" and room: "length src \<le> m_capacity rb - m_count rb"
  shows "\<exists>rb'. push rb src = Inr rb' \<and> rb_inv rb' \<and> contents rb' = contents rb @ src \<and>
           m_capacity rb' = m_capacity rb"
proof -
  note D = rb_invD [OF inv]
  let ?cap = "m_capacity rb" and ?h = "m_head rb" and ?t = "m_tail rb" and ?c = "m_count rb"
  define rb' where "rb' = rb\<lparr>m_buf := circular_write (m_buf rb) ?h src, m_head := (?h + length src) mod ?cap,
                             m_count := ?c + length src\<rparr>"
  note W = circular_write_nth [of ?h "m_buf rb" src, unfolded D(1), OF D(4)]
  have n: "length src \<le> ?cap" using room by simp
  have inv': "rb_inv rb'"
    using inv D room n by (simp add: rb_inv_def rb'_def length_circular_write mod_simps add.assoc)
  have "contents rb' ! i = (contents rb @ src) ! i" if i: "i < ?c + length src" for i
  proof (cases "i < ?c")
    case True
    let ?k = "?cap - ?c + i"
    have "(?h + ?k) mod ?cap = (?t + ?c + ?k) mod ?cap" by (simp add: D(6) mod_simps)
    also have "?t + ?c + ?k = (?t + i) + ?cap" using D(5) by simp
    finally have "(?h + ?k) mod ?cap = (?t + i) mod ?cap" by simp
    moreover have "?k < ?cap" "\<not> ?k < length src" using True room D(5) by auto
    ultimately have "m_buf rb' ! ((?t + i) mod ?cap) = m_buf rb ! ((?t + i) mod ?cap)"
      using W [OF n, of ?k] by (simp add: rb'_def del: add_diff_assoc)
    with True show ?thesis by (simp add: contents_nth nth_append rb'_def)
  next
    case False
    then obtain k where k: "i = ?c + k" "k < length src" using i by (metis add_less_cancel_left le_iff_add not_less)
    then have "(?t + i) mod ?cap = (?h + k) mod ?cap" by (simp add: D(6) mod_simps add.assoc)
    with W [OF n, of k] k n show ?thesis by (simp add: contents_nth nth_append rb'_def)
  qed
  then have "contents rb' = contents rb @ src" by (intro nth_equalityI) (simp_all add: rb'_def)
  with push_eq [OF assms] inv' show ?thesis by (simp add: rb'_def)
qed

lemma peek_underflow:
  "m_count rb < length dest \<Longrightarrow>
   peek rb dest = Inl (out_of_range (''RingBuffer peek: requested '' @ to_string (length dest) @
     '' bytes, only '' @ to_string (m_count rb) @ '' available''))"
  by (simp add: peek_def)

lemma peek_eq:
  assumes inv: "rb_inv rb" and n: "length dest \<le> m_count rb"
  shows "peek rb dest = Inr (circular_read (m_buf rb) (m_tail rb) (length dest))"
proof -
  note D = rb_invD [OF inv]
  have "sz_sub (m_capacity rb) (m_tail rb) = m_capacity rb - m_tail rb"
    "sz_sub (length dest) (m_capacity rb - m_tail rb) = length dest - (m_capacity rb - m_tail rb)
      \<or> length dest \<le> m_capacity rb - m_tail rb"
    using D n by (auto simp: sz_sub_exact)
  then show ?thesis
    using n D(1,3,5) by (auto simp: peek_def memcpy_ok circular_read_def Let_def min_def)
qed

lemma peek_ok:
  assumes inv: "rb_inv rb" and n: "length dest \<le> m_count rb"
  shows "peek rb dest = Inr (take (length dest) (contents rb))"
proof -
  note D = rb_invD [OF inv]
  have "circular_read (m_buf rb) (m_tail rb) (length dest) = take (length dest) (contents rb)"
    using D(1,3,5) n by (intro nth_equalityI) (simp_all add: length_circular_read circular_read_nth contents_nth)
  then show ?thesis by (simp add: peek_eq [OF assms])
qed

lemma consume_underflow:
  "m_count rb < n \<Longrightarrow>
   consume rb n = Inl (out_of_range (''RingBuffer consume: tried to discard '' @ to_string n @
     '' bytes, only '' @ to_string (m_count rb) @ '' available''))"
  by (simp add: consume_def)

lemma consume_ok:
  assumes inv: "rb_inv rb" and n: "n \<le> m_count rb"
  shows "\<exists>rb'. consume rb n = Inr rb' \<and> rb_inv rb' \<and> contents rb' = drop n (contents rb) \<and>
           m_capacity rb' = m_capacity rb"
proof -
  note D = rb_invD [OF inv]
  define rb' where "rb' = rb\<lparr>m_tail := (m_tail rb + n) mod m_capacity rb,
                             m_count := m_count rb - n\<rparr>"
  have "consume rb n = Inr rb'"
    using n D by (simp add: consume_def rb'_def sz_mod_pos sz_add_exact sz_sub_exact)
  moreover have "((m_tail rb + n) mod m_capacity rb + (m_count rb - n)) mod m_capacity rb = m_head rb"
    using n by (simp only: mod_add_left_eq) (simp add: D(6))
  then have "rb_inv rb'"
    using inv n D by (simp add: rb_inv_def rb'_def)
  moreover have "contents rb' = drop n (contents rb)"
    by (rule nth_equalityI) (auto simp: rb'_def contents_nth mod_simps ac_simps)
  ultimately show ?thesis by (simp add: rb'_def)
qed

lemma clear_ok:
  "rb_inv rb \<Longrightarrow> rb_inv (clear rb) \<and> contents (clear rb) = [] \<and>
   m_capacity (clear rb) = m_capacity rb"
  by (auto simp: clear_def rb_inv_def contents_def)

section \<open>The interface the parser relies on\<close>

text \<open>
  What a client of the buffer uses: a byte FIFO of fixed capacity in which reading (\<open>pk\<close>) and
  discarding (\<open>cns\<close>) are separate. The lemmas below are the client's view: bytes that arrive in
  pieces are read back as one stream.
\<close>

locale byte_fifo =
  fixes sz :: "'b \<Rightarrow> nat"
    and cap :: "'b \<Rightarrow> nat"
    and psh :: "'b \<Rightarrow> byte list \<Rightarrow> 'b res"
    and pk :: "'b \<Rightarrow> byte list \<Rightarrow> byte list res"
    and cns :: "'b \<Rightarrow> nat \<Rightarrow> 'b res"
    and good :: "'b \<Rightarrow> bool"
    and bytes :: "'b \<Rightarrow> byte list"
  assumes size_bytes: "good b \<Longrightarrow> sz b = length (bytes b)"
    and within_cap: "good b \<Longrightarrow> length (bytes b) \<le> cap b"
    and push_fits: "good b \<Longrightarrow> length (bytes b) + length xs \<le> cap b \<Longrightarrow>
      \<exists>b'. psh b xs = Inr b' \<and> good b' \<and> bytes b' = bytes b @ xs \<and> cap b' = cap b"
    and peek_fits: "good b \<Longrightarrow> length d \<le> length (bytes b) \<Longrightarrow> pk b d = Inr (take (length d) (bytes b))"
    and consume_fits: "good b \<Longrightarrow> n \<le> length (bytes b) \<Longrightarrow>
      \<exists>b'. cns b n = Inr b' \<and> good b' \<and> bytes b' = drop n (bytes b) \<and> cap b' = cap b"
begin

lemma push_all:
  "good b \<Longrightarrow> length (bytes b) + length (concat xss) \<le> cap b \<Longrightarrow>
   \<exists>b'. fold_res psh b xss = Inr b' \<and> good b' \<and> bytes b' = bytes b @ concat xss \<and> cap b' = cap b"
proof (induction xss arbitrary: b)
  case Nil
  then show ?case by simp
next
  case (Cons xs xss)
  from Cons.prems push_fits [of b xs] obtain b1 where
    b1: "psh b xs = Inr b1" "good b1" "bytes b1 = bytes b @ xs" "cap b1 = cap b" by auto
  from Cons.IH [of b1] Cons.prems b1 show ?case by auto
qed

lemma stream_read_back:
  assumes "good b" "bytes b = []" "length (concat xss) \<le> cap b" "length d = length (concat xss)"
  shows "bind_res (fold_res psh b xss) (\<lambda>b'. pk b' d) = Inr (concat xss)"
proof -
  from push_all [of b xss] assms obtain b' where
    "fold_res psh b xss = Inr b'" "good b'" "bytes b' = concat xss" by auto
  with assms(4) show ?thesis by (simp add: peek_fits)
qed

end

interpretation rb: byte_fifo rb_size capacity push peek consume rb_inv contents
proof unfold_locales
  fix b :: RingBuffer and xs d :: "byte list" and n :: nat
  assume inv: "rb_inv b"
  show "rb_size b = length (contents b)" by (simp add: rb_size_def)
  show "length (contents b) \<le> capacity b" using rb_invD(5) [OF inv] by (simp add: capacity_def)
  show "\<exists>b'. push b xs = Inr b' \<and> rb_inv b' \<and> contents b' = contents b @ xs \<and> capacity b' = capacity b"
    if "length (contents b) + length xs \<le> capacity b"
    using push_ok [OF inv, of xs] that by (auto simp: capacity_def)
  show "peek b d = Inr (take (length d) (contents b))" if "length d \<le> length (contents b)"
    using peek_ok [OF inv] that by simp
  show "\<exists>b'. consume b n = Inr b' \<and> rb_inv b' \<and> contents b' = drop n (contents b) \<and> capacity b' = capacity b"
    if "n \<le> length (contents b)"
    using consume_ok [OF inv] that by (auto simp: capacity_def)
qed

section \<open>Refinement to a bounded list\<close>

text \<open>
  The abstract specification of the class: a capacity and the list of unread bytes. Every public
  operation is a step; an operation that throws leaves the state unchanged.
\<close>

datatype rb_op =
    Op_push "byte list"
  | Op_peek "byte list"
  | Op_consume nat
  | Op_clear
  | Op_size
  | Op_capacity
  | Op_free_space

datatype rb_out = Done | Threw cpp_error | Bytes "byte list" | Size nat

fun rb_step :: "RingBuffer \<Rightarrow> rb_op \<Rightarrow> RingBuffer \<times> rb_out" where
  "rb_step rb (Op_push xs) = (case push rb xs of Inl e \<Rightarrow> (rb, Threw e) | Inr rb' \<Rightarrow> (rb', Done))"
| "rb_step rb (Op_peek d) = (case peek rb d of Inl e \<Rightarrow> (rb, Threw e) | Inr bs \<Rightarrow> (rb, Bytes bs))"
| "rb_step rb (Op_consume n) = (case consume rb n of Inl e \<Rightarrow> (rb, Threw e) | Inr rb' \<Rightarrow> (rb', Done))"
| "rb_step rb Op_clear = (clear rb, Done)"
| "rb_step rb Op_size = (rb, Size (rb_size rb))"
| "rb_step rb Op_capacity = (rb, Size (capacity rb))"
| "rb_step rb Op_free_space = (rb, Size (free_space rb))"

fun list_step :: "nat \<times> byte list \<Rightarrow> rb_op \<Rightarrow> (nat \<times> byte list) \<times> rb_out" where
  "list_step (cap, q) (Op_push xs) =
     (if cap - length q < length xs
      then ((cap, q), Threw (overflow_error (''RingBuffer overflow: tried to push '' @
             to_string (length xs) @ '' bytes, only '' @ to_string (cap - length q) @ '' free'')))
      else ((cap, q @ xs), Done))"
| "list_step (cap, q) (Op_peek d) =
     (if length q < length d
      then ((cap, q), Threw (out_of_range (''RingBuffer peek: requested '' @
             to_string (length d) @ '' bytes, only '' @ to_string (length q) @ '' available'')))
      else ((cap, q), Bytes (take (length d) q)))"
| "list_step (cap, q) (Op_consume n) =
     (if length q < n
      then ((cap, q), Threw (out_of_range (''RingBuffer consume: tried to discard '' @
             to_string n @ '' bytes, only '' @ to_string (length q) @ '' available'')))
      else ((cap, drop n q), Done))"
| "list_step (cap, q) Op_clear = ((cap, []), Done)"
| "list_step (cap, q) Op_size = ((cap, q), Size (length q))"
| "list_step (cap, q) Op_capacity = ((cap, q), Size cap)"
| "list_step (cap, q) Op_free_space = ((cap, q), Size (cap - length q))"

definition rb_abs :: "RingBuffer \<Rightarrow> nat \<times> byte list" where
  "rb_abs rb = (m_capacity rb, contents rb)"

lemma rb_step_simulates:
  assumes inv: "rb_inv rb"
  shows "rb_inv (fst (rb_step rb op)) \<and>
         list_step (rb_abs rb) op = (rb_abs (fst (rb_step rb op)), snd (rb_step rb op))"
proof (cases op)
  case (Op_push xs)
  show ?thesis
  proof (cases "m_capacity rb - m_count rb < length xs")
    case True
    with inv Op_push show ?thesis by (simp add: rb_abs_def push_overflow)
  next
    case False
    with push_ok [OF inv, of xs] Op_push show ?thesis by (auto simp: rb_abs_def)
  qed
next
  case (Op_peek d)
  with inv show ?thesis
    by (cases "m_count rb < length d") (auto simp: rb_abs_def peek_underflow peek_ok)
next
  case (Op_consume n)
  show ?thesis
  proof (cases "m_count rb < n")
    case True
    with inv Op_consume show ?thesis by (simp add: rb_abs_def consume_underflow)
  next
    case False
    with consume_ok [OF inv, of n] Op_consume show ?thesis by (auto simp: rb_abs_def)
  qed
next
  case Op_clear
  with clear_ok [OF inv] show ?thesis by (simp add: rb_abs_def)
qed (use inv in \<open>auto simp: rb_abs_def rb_size_def capacity_def free_space_eq\<close>)

interpretation rb_ref: functional_refinement rb_step list_step rb_inv rb_abs "\<lambda>_. True"
  by unfold_locales (auto dest: rb_step_simulates)

section \<open>Properties\<close>

text \<open>
  C19: a ring buffer of any capacity from 1 to the largest vector, driven through any sequence of its
  public operations, returns the same bytes, sizes and exceptions (messages included) as a bounded
  list of bytes, and ends in a state that represents that list. In particular no operation reads
  or writes outside the backing array and no index computation wraps.
\<close>

theorem ring_buffer_refines_list:
  assumes "0 < cap" and "cap \<le> vector_max_size"
  shows "\<exists>rb. RingBuffer_ctor cap = Inr rb \<and>
    snd (run_steps rb_step rb ops) = snd (run_steps list_step (cap, []) ops) \<and>
    rb_inv (fst (run_steps rb_step rb ops)) \<and>
    rb_abs (fst (run_steps rb_step rb ops)) = fst (run_steps list_step (cap, []) ops)"
proof -
  from ctor_ok [OF assms] obtain rb where rb: "RingBuffer_ctor cap = Inr rb" "rb_inv rb"
    "rb_abs rb = (cap, [])" by (auto simp: rb_abs_def)
  have ok: "list_all (\<lambda>_. True) ops" by (simp add: list_all_iff)
  from rb_ref.run_abs [OF rb(2) ok] rb_ref.run_inv [OF rb(2) ok] rb show ?thesis by auto
qed

theorem ring_buffer_refines_list_witness:
  "\<exists>rb. RingBuffer_ctor 3 = Inr rb \<and>
    snd (run_steps rb_step rb [Op_push [1, 2], Op_consume 1, Op_push [3, 4], Op_peek [0, 0, 0], Op_free_space]) =
    [Done, Done, Done, Bytes [2, 3, 4], Size 0]"
proof -
  have "(0 :: nat) < 3" "3 \<le> vector_max_size" by (simp_all add: vector_max_size_def)
  from ring_buffer_refines_list [OF this,
      of "[Op_push [1, 2], Op_consume 1, Op_push [3, 4], Op_peek [0, 0, 0], Op_free_space]"]
  show ?thesis by auto
qed

end
