(* ===== verification/Byte_Order.thy ===== *)
theory Byte_Order
  imports Prelude
begin

text \<open>
  Object representations and byte order: what \<open>std::memcpy\<close> into a scalar does on either kind of
  host, and \<open>from_big_endian\<close> of \<open>src/streamingParser.cpp\<close>, which reverses the object
  representation on a little-endian host and is the identity on a big-endian one. The main lemma
  says that copying a field and converting it reads the big-endian number on both kinds of host.
\<close>

datatype endian = little | big

text \<open>
  The object representation of a word and the word of an object representation. The library's
  \<^const>\<open>word_rcat\<close> puts the first element of a list at the most significant place.
\<close>

definition store_le :: "'a::len word \<Rightarrow> byte list" where
  "store_le w = map (\<lambda>i. ucast (drop_bit (8 * i) w)) [0..<LENGTH('a) div 8]"

fun object_bytes :: "endian \<Rightarrow> 'a::len word \<Rightarrow> byte list" where
  "object_bytes little w = store_le w"
| "object_bytes big w = rev (store_le w)"

fun load :: "endian \<Rightarrow> byte list \<Rightarrow> 'a::len word" where
  "load little bs = word_rcat (rev bs)"
| "load big bs = word_rcat bs"

definition from_big_endian :: "endian \<Rightarrow> 'a::len word \<Rightarrow> 'a word" where
  "from_big_endian native v =
     (if native = little \<and> 1 < LENGTH('a) div 8
      then load native (rev (object_bytes native v))
      else v)"

text \<open>The specification: a big-endian number, and its encoding.\<close>

definition be_decode :: "byte list \<Rightarrow> 'a::len word" where
  "be_decode bs = word_rcat bs"

definition be_encode :: "'a::len word \<Rightarrow> byte list" where
  "be_encode w = rev (store_le w)"

lemma length_store_le [simp]: "length (store_le (w :: 'a::len word)) = LENGTH('a) div 8"
  by (simp add: store_le_def)

lemma length_be_encode [simp]: "length (be_encode (w :: 'a::len word)) = LENGTH('a) div 8"
  by (simp add: be_encode_def)

lemma store_le_nth_bit:
  assumes "i < LENGTH('a) div 8"
  shows "bit (store_le (w :: 'a::len word) ! i) j \<longleftrightarrow> j < 8 \<and> bit w (8 * i + j)"
  using assms by (auto simp: store_le_def bit_simps)

lemma bit_word_rcat_iff:
  "bit (word_rcat ws :: 'a::len word) n \<longleftrightarrow>
     n < LENGTH('a) \<and> n div 8 < length ws \<and> bit (rev (ws :: byte list) ! (n div 8)) (n mod 8)"
  using bit_horner_sum_uint_exp_iff [of "rev ws" n]
  by (simp add: word_rcat_def bit_word_of_int_iff)

lemma rcat_store_le:
  assumes "8 dvd LENGTH('a)"
  shows "word_rcat (rev (store_le (w :: 'a::len word))) = w"
proof (rule bit_word_eqI)
  fix n assume n: "n < LENGTH('a)"
  then have "n div 8 < LENGTH('a) div 8" using assms by (auto elim!: dvdE)
  with n show "bit (word_rcat (rev (store_le w)) :: 'a word) n = bit w n"
    by (simp add: bit_word_rcat_iff store_le_nth_bit)
qed

lemma store_le_rcat:
  assumes "8 * length bs = LENGTH('a)"
  shows "store_le (word_rcat (rev bs) :: 'a::len word) = bs"
proof (rule nth_equalityI)
  show "length (store_le (word_rcat (rev bs) :: 'a word)) = length bs"
    using assms [symmetric] by simp
  fix i assume "i < length (store_le (word_rcat (rev bs) :: 'a word))"
  then have i: "i < length bs" "i < LENGTH('a) div 8" using assms [symmetric] by simp_all
  show "store_le (word_rcat (rev bs) :: 'a word) ! i = bs ! i"
  proof (rule bit_word_eqI)
    fix j assume "j < LENGTH(8)"
    then have j: "j < 8" by simp
    have "8 * i + j < LENGTH('a)" using i(1) j assms [symmetric] by simp
    with i j show "bit (store_le (word_rcat (rev bs) :: 'a word) ! i) j = bit (bs ! i) j"
      by (simp add: store_le_nth_bit bit_word_rcat_iff)
  qed
qed

lemma be_decode_encode:
  "8 dvd LENGTH('a) \<Longrightarrow> be_decode (be_encode (w :: 'a::len word)) = w"
  by (simp add: be_decode_def be_encode_def rcat_store_le)

lemma be_encode_decode:
  "8 * length bs = LENGTH('a) \<Longrightarrow> be_encode (be_decode bs :: 'a::len word) = bs"
  using store_le_rcat [of "rev bs", where 'a = 'a] by (simp add: be_decode_def be_encode_def)

lemma from_big_endian_load:
  assumes "8 * length bs = LENGTH('a)"
  shows "from_big_endian native (load native bs :: 'a::len word) = be_decode bs"
proof (cases native)
  case big
  then show ?thesis by (simp add: from_big_endian_def be_decode_def)
next
  case little
  show ?thesis
  proof (cases "1 < LENGTH('a) div 8")
    case True
    with little assms show ?thesis
      by (simp add: from_big_endian_def be_decode_def store_le_rcat)
  next
    case False
    then have "length bs \<le> 1" using assms [symmetric] by simp
    then have "rev bs = bs" by (cases bs) auto
    with little False show ?thesis by (simp add: from_big_endian_def be_decode_def)
  qed
qed

end
