(* ===== verification/Crc16.thy ===== *)
theory Crc16
  imports Prelude
begin

unbundle bit_operations_syntax

text \<open>
  \<open>StreamingParser::compute_crc16\<close> (\<open>src/streamingParser.cpp\<close>) and the load test's \<open>crc16_modbus\<close>
  (\<open>tests/drone_load_test.py\<close>): CRC-16/MODBUS, least significant bit first. The first is on
  \<open>uint16_t\<close>, the second on Python's unbounded integers; both are shown to compute the catalogue
  algorithm (polynomial \<open>0x8005\<close>, reflected input and output, initial value \<open>0xFFFF\<close>). The error
  detection of the code follows from two invariants of the shift register: a step is injective,
  and it keeps the parity of the register.
\<close>

section \<open>The program\<close>

definition crc_bit :: "u16 \<Rightarrow> u16" where
  "crc_bit crc = (if crc AND 1 \<noteq> 0 then drop_bit 1 crc XOR 0xA001 else drop_bit 1 crc)"

fun crc_bits :: "nat \<Rightarrow> u16 \<Rightarrow> u16" where
  "crc_bits 0 crc = crc"
| "crc_bits (Suc j) crc = crc_bits j (crc_bit crc)"

fun crc_bytes :: "byte list \<Rightarrow> u16 \<Rightarrow> u16" where
  "crc_bytes [] crc = crc"
| "crc_bytes (b # bs) crc = crc_bytes bs (crc_bits 8 (crc XOR ucast b))"

definition compute_crc16 :: "byte list \<Rightarrow> nat \<Rightarrow> u16 res" where
  "compute_crc16 src len =
     (if len \<le> length src then Inr (crc_bytes (take len src) 0xFFFF)
      else Inl (Undefined ''compute_crc16 reads past the end''))"

text \<open>The load test's function, on unbounded integers.\<close>

definition py_crc_bit :: "int \<Rightarrow> int" where
  "py_crc_bit crc = (if crc AND 1 \<noteq> 0 then drop_bit 1 crc XOR 0xA001 else drop_bit 1 crc)"

fun py_crc_bits :: "nat \<Rightarrow> int \<Rightarrow> int" where
  "py_crc_bits 0 crc = crc"
| "py_crc_bits (Suc j) crc = py_crc_bits j (py_crc_bit crc)"

fun py_crc_loop :: "byte list \<Rightarrow> int \<Rightarrow> int" where
  "py_crc_loop [] crc = crc"
| "py_crc_loop (b # bs) crc = py_crc_loop bs (py_crc_bits 8 (crc XOR uint b))"

definition crc16_modbus :: "byte list \<Rightarrow> int" where
  "crc16_modbus bs = py_crc_loop bs 0xFFFF AND 0xFFFF"

section \<open>The catalogue algorithm\<close>

text \<open>
  CRC-16/MODBUS as the catalogues state it: width 16, polynomial \<open>0x8005\<close>, initial value \<open>0xFFFF\<close>,
  input bytes and result reflected, processed most significant bit first.
\<close>

definition msb_step :: "u16 \<Rightarrow> u16" where
  "msb_step r = (if bit r 15 then push_bit 1 r XOR 0x8005 else push_bit 1 r)"

definition msb_byte :: "u16 \<Rightarrow> byte \<Rightarrow> u16" where
  "msb_byte r b = (msb_step ^^ 8) (r XOR push_bit 8 (ucast (word_reverse b)))"

definition crc16_catalogue :: "byte list \<Rightarrow> u16" where
  "crc16_catalogue bs = word_reverse (foldl msb_byte 0xFFFF bs)"

section \<open>Lemmas on the shift register\<close>

lemma and_1_bit: "w AND 1 \<noteq> 0 \<longleftrightarrow> bit (w :: u16) 0"
  by (simp add: and_one_eq bit_0 odd_iff_mod_2_eq_one)

lemma crc_bit_alt: "crc_bit w = (if bit w 0 then drop_bit 1 w XOR 0xA001 else drop_bit 1 w)"
  by (simp add: crc_bit_def and_1_bit)

lemma bit_word_reverse: "bit (word_reverse (w :: 'a::len word)) n \<longleftrightarrow> n < LENGTH('a) \<and> bit w (LENGTH('a) - Suc n)"
  by (simp add: bit_word_reverse_iff)

lemma word_reverse_xor: "word_reverse (x XOR y) = word_reverse x XOR word_reverse (y :: 'a::len word)"
  by (rule bit_word_eqI) (auto simp: bit_word_reverse bit_simps)

lemma word_reverse_drop_bit: "word_reverse (drop_bit k x) = push_bit k (word_reverse (x :: u16))"
proof (rule bit_word_eqI)
  fix n assume n: "n < LENGTH(16)"
  show "bit (word_reverse (drop_bit k x)) n = bit (push_bit k (word_reverse x)) n"
  proof (cases "k \<le> n")
    case True
    with n have "k + (15 - n) = 15 - (n - k)" by simp
    with n True show ?thesis by (auto simp: bit_word_reverse bit_simps)
  next
    case False
    with n have "\<not> bit x (k + (15 - n))" by (auto dest: bit_imp_le_length)
    with n False show ?thesis by (auto simp: bit_word_reverse bit_simps)
  qed
qed

lemma word_reverse_poly: "word_reverse (0xA001 :: u16) = 0x8005"
  by code_simp

lemma word_reverse_init: "word_reverse (0xFFFF :: u16) = 0xFFFF"
  by code_simp

lemma word_reverse_ucast: "word_reverse (ucast (b :: byte) :: u16) = push_bit 8 (ucast (word_reverse b))"
proof (rule bit_word_eqI)
  fix n assume n: "n < LENGTH(16)"
  show "bit (word_reverse (ucast b :: u16)) n = bit (push_bit 8 (ucast (word_reverse b)) :: u16) n"
  proof (cases "n < 8")
    case True
    then have "\<not> bit b (15 - n)" by (auto dest: bit_imp_le_length)
    with n True show ?thesis by (auto simp: bit_word_reverse bit_simps)
  next
    case False
    then have "7 - (n - 8) = 15 - n" by simp
    with n False show ?thesis by (auto simp: bit_word_reverse bit_simps)
  qed
qed

lemma word_reverse_crc_bit: "word_reverse (crc_bit w) = msb_step (word_reverse w)"
  by (simp add: crc_bit_alt msb_step_def word_reverse_xor word_reverse_drop_bit word_reverse_poly
      bit_word_reverse)

lemma word_reverse_crc_bits: "word_reverse (crc_bits n w) = (msb_step ^^ n) (word_reverse w)"
  by (induction n arbitrary: w) (simp_all add: word_reverse_crc_bit funpow_swap1)

lemma word_reverse_crc_bytes: "word_reverse (crc_bytes bs w) = foldl msb_byte (word_reverse w) bs"
  by (induction bs arbitrary: w)
    (simp_all add: word_reverse_crc_bits msb_byte_def word_reverse_xor word_reverse_ucast
      del: crc_bits.simps)

lemma word_reverse_twice [simp]: "word_reverse (word_reverse (w :: 'a::len word)) = w"
  by (rule bit_word_eqI) (auto simp: bit_word_reverse)

lemma crc_bytes_catalogue: "crc_bytes bs 0xFFFF = crc16_catalogue bs"
  using word_reverse_crc_bytes [of bs "0xFFFF"]
  by (metis crc16_catalogue_def word_reverse_init word_reverse_twice)

section \<open>A step is injective and linear\<close>

lemma crc_bit_top: "bit (crc_bit w) 15 = bit w 0"
proof -
  have "\<not> bit w 16" by (auto dest: bit_imp_le_length)
  then show ?thesis by (auto simp: crc_bit_alt bit_simps)
qed

lemma crc_bit_inj: "crc_bit x = crc_bit y \<Longrightarrow> x = y"
proof -
  assume eq: "crc_bit x = crc_bit y"
  then have b0: "bit x 0 = bit y 0" by (metis crc_bit_top)
  have "drop_bit 1 x = drop_bit 1 y"
  proof (cases "bit x 0")
    case True
    with eq b0 have "(drop_bit 1 x XOR 0xA001) XOR 0xA001 = (drop_bit 1 y XOR 0xA001) XOR 0xA001"
      by (simp add: crc_bit_alt)
    then show ?thesis by (simp only: xor.assoc xor_self_eq xor.right_neutral)
  next
    case False
    with eq b0 show ?thesis by (simp add: crc_bit_alt)
  qed
  then have "bit x (1 + n) = bit y (1 + n)" for n by (metis bit_drop_bit_eq comp_apply)
  with b0 have "bit x n = bit y n" for n by (cases n) auto
  then show "x = y" by (simp add: bit_eq_iff)
qed

lemma crc_bits_inj: "crc_bits n x = crc_bits n y \<Longrightarrow> x = y"
  by (induction n arbitrary: x y) (auto dest: crc_bit_inj)

lemma xor_cancel: "x XOR z = y XOR z \<longleftrightarrow> x = (y :: 'a::len word)"
  by (metis xor.assoc xor.right_neutral xor_self_eq)

lemma xor_cancel_left: "z XOR x = z XOR y \<longleftrightarrow> x = (y :: 'a::len word)"
  by (metis xor.assoc xor.left_neutral xor_self_eq)

lemma xor_swap: "x XOR u = y XOR v \<Longrightarrow> x XOR y = u XOR (v :: 'a::len word)"
  by (auto simp: bit_eq_iff bit_simps)

lemma crc_bytes_inj: "crc_bytes bs x = crc_bytes bs y \<Longrightarrow> x = y"
proof (induction bs arbitrary: x y)
  case Nil
  then show ?case by simp
next
  case (Cons b bs)
  then have "crc_bits 8 (x XOR ucast b) = crc_bits 8 (y XOR ucast b)" by simp
  then have "x XOR ucast b = y XOR ucast b" by (rule crc_bits_inj)
  then show ?case by (simp add: xor_cancel)
qed

lemma crc_bytes_append: "crc_bytes (xs @ ys) c = crc_bytes ys (crc_bytes xs c)"
  by (induction xs arbitrary: c) simp_all

lemma crc_bit_xor: "crc_bit (x XOR y) = crc_bit x XOR crc_bit y"
  by (simp add: crc_bit_alt bit_simps drop_bit_xor ac_simps)

lemma crc_bits_xor: "crc_bits n (x XOR y) = crc_bits n x XOR crc_bits n y"
  by (induction n arbitrary: x y) (simp_all add: crc_bit_xor)

lemma ucast_byte_inj: "(ucast (a :: byte) :: u16) = ucast b \<Longrightarrow> a = b"
proof (rule bit_word_eqI)
  fix n assume eq: "(ucast a :: u16) = ucast b" and n: "n < LENGTH(8)"
  then have "bit (ucast a :: u16) n = bit (ucast b :: u16) n" by simp
  with n show "bit a n = bit b n" by (simp add: bit_simps)
qed

text \<open>A byte in the upper half of the register is shifted down without meeting the polynomial.\<close>

lemma crc_bits_low_zero:
  "(\<And>i. i < n \<Longrightarrow> \<not> bit w i) \<Longrightarrow> crc_bits n w = drop_bit n w"
proof (induction n arbitrary: w)
  case 0
  then show ?case by simp
next
  case (Suc n)
  have "crc_bit w = drop_bit 1 w" using Suc.prems [of 0] by (simp add: crc_bit_alt)
  moreover have "crc_bits n (drop_bit 1 w) = drop_bit n (drop_bit 1 w)"
    by (rule Suc.IH) (use Suc.prems in \<open>auto simp: bit_simps\<close>)
  ultimately show ?case by (simp add: drop_bit_drop_bit)
qed

lemma crc_bits_push: "crc_bits 8 (push_bit 8 (ucast (e :: byte))) = ucast e"
proof -
  have "crc_bits 8 (push_bit 8 (ucast e)) = drop_bit 8 (push_bit 8 (ucast e) :: u16)"
    by (rule crc_bits_low_zero) (auto simp: bit_simps)
  also have "\<dots> = ucast e"
    by (rule bit_word_eqI) (auto simp: bit_simps dest: bit_imp_le_length)
  finally show ?thesis .
qed

text \<open>Two consecutive bytes enter the register injectively.\<close>

lemma crc_two_bytes_inj:
  assumes eq: "crc_bits 8 (crc_bits 8 (c XOR ucast (a :: byte)) XOR ucast b) =
               crc_bits 8 (crc_bits 8 (c XOR ucast (a' :: byte)) XOR ucast (b' :: byte))"
  shows "a = a' \<and> b = b'"
proof -
  let ?d = "ucast a XOR ucast a' :: u16" and ?e = "b XOR b'"
  from eq have "crc_bits 8 (c XOR ucast a) XOR ucast b = crc_bits 8 (c XOR ucast a') XOR ucast b'"
    by (rule crc_bits_inj)
  then have "crc_bits 8 c XOR (crc_bits 8 (ucast a) XOR ucast b) =
      crc_bits 8 c XOR (crc_bits 8 (ucast a') XOR (ucast b' :: u16))"
    by (simp only: crc_bits_xor xor.assoc)
  then have "crc_bits 8 (ucast a) XOR ucast b = crc_bits 8 (ucast a') XOR (ucast b' :: u16)"
    by (simp only: xor_cancel_left)
  then have "crc_bits 8 ?d = ucast b XOR ucast b'"
    unfolding crc_bits_xor by (rule xor_swap)
  then have d: "crc_bits 8 ?d = ucast ?e"
    by (simp add: unsigned_xor_eq)
  have "crc_bits 8 (?d XOR push_bit 8 (ucast ?e)) = 0"
    by (simp only: crc_bits_xor [of 8 ?d] d crc_bits_push xor_self_eq)
  moreover have "crc_bits 8 0 = 0" by (simp add: crc_bits_low_zero)
  ultimately have z: "?d XOR push_bit 8 (ucast ?e) = 0" by (metis crc_bits_inj)
  have "bit a n = bit a' n" if "n < 8" for n
  proof -
    have "\<not> bit (?d XOR push_bit 8 (ucast ?e)) n" by (simp only: z) simp
    with that show ?thesis by (simp add: bit_simps)
  qed
  then have "a = a'" by (intro bit_word_eqI) simp
  with d have "(ucast ?e :: u16) = ucast (0 :: byte)" by (simp add: crc_bits_low_zero)
  then have "?e = 0" by (rule ucast_byte_inj)
  then have "b = b'" by (metis xor.right_neutral xor_self_eq xor_cancel)
  with \<open>a = a'\<close> show ?thesis by simp
qed

section \<open>A step keeps the parity of the register\<close>

definition popcount :: "'a::len word \<Rightarrow> nat" where
  "popcount w = length (filter (bit w) [0..<LENGTH('a)])"

definition bit_errors :: "byte list \<Rightarrow> byte list \<Rightarrow> nat" where
  "bit_errors xs ys = sum_list (map2 (\<lambda>x y. popcount (x XOR y)) xs ys)"

lemma odd_filter_xor:
  "odd (length (filter (\<lambda>n. P n \<noteq> Q n) ns)) \<longleftrightarrow>
   odd (length (filter P ns)) \<noteq> odd (length (filter Q ns))"
  by (induction ns) auto

lemma odd_popcount_xor:
  "odd (popcount (x XOR y)) \<longleftrightarrow> odd (popcount x) \<noteq> odd (popcount (y :: 'a::len word))"
proof -
  have "filter (bit (x XOR y)) [0..<LENGTH('a)] = filter (\<lambda>n. bit x n \<noteq> bit y n) [0..<LENGTH('a)]"
    by (rule filter_cong) (auto simp: bit_simps)
  then show ?thesis unfolding popcount_def by (simp only: odd_filter_xor)
qed

lemma even_popcount_xor:
  "even (popcount (x XOR y)) \<longleftrightarrow> even (popcount x) = even (popcount (y :: 'a::len word))"
  using odd_popcount_xor [of x y] by auto

lemma popcount_drop_bit_1: "popcount (w :: u16) = of_bool (bit w 0) + popcount (drop_bit 1 w)"
proof -
  have no16: "\<not> bit w 16" by (auto dest: bit_imp_le_length)
  have head: "[0..<LENGTH(16)] = 0 # map Suc [0..<15]"
    by (simp add: map_Suc_upt upt_conv_Cons)
  have last: "[0..<LENGTH(16)] = [0..<15] @ [15]"
    using upt_Suc_append [of 0 15] by simp
  have "popcount (drop_bit 1 w) = length (filter (\<lambda>n. bit w (Suc n)) [0..<15])"
    unfolding popcount_def last using no16 by (simp add: bit_drop_bit_eq comp_def)
  moreover have "popcount w = of_bool (bit w 0) + length (filter (\<lambda>n. bit w (Suc n)) [0..<15])"
    unfolding popcount_def head by (simp add: filter_map comp_def)
  ultimately show ?thesis by simp
qed

lemma even_popcount_crc_bit: "even (popcount (crc_bit w)) = even (popcount w)"
proof -
  have "odd (popcount (0xA001 :: u16))" by code_simp
  then show ?thesis
    by (cases "bit w 0")
      (simp_all add: crc_bit_alt even_popcount_xor popcount_drop_bit_1 [of w])
qed

lemma even_popcount_crc_bits: "even (popcount (crc_bits n w)) = even (popcount w)"
  by (induction n arbitrary: w) (simp_all add: even_popcount_crc_bit)

lemma popcount_ucast: "popcount (ucast (b :: byte) :: u16) = popcount b"
proof -
  have "[0..<LENGTH(16)] = [0..<8] @ [8..<16]" using upt_add_eq_append [of 0 8 8] by simp
  moreover have "filter (bit (ucast b :: u16)) [0..<8] = filter (bit b) [0..<8]"
    by (rule filter_cong) (auto simp: bit_simps)
  moreover have "filter (bit (ucast b :: u16)) [8..<16] = []"
    by (auto simp: filter_empty_conv bit_simps dest: bit_imp_le_length)
  ultimately show ?thesis by (simp add: popcount_def)
qed

lemma even_popcount_crc_bytes:
  "length xs = length ys \<Longrightarrow>
   even (popcount (crc_bytes xs c)) = even (popcount (crc_bytes ys c')) \<longleftrightarrow>
   even (popcount c) = (even (popcount c') = even (bit_errors xs ys))"
proof (induction xs ys arbitrary: c c' rule: list_induct2)
  case Nil
  then show ?case by (simp add: bit_errors_def)
next
  case (Cons x xs y ys)
  have "even (bit_errors (x # xs) (y # ys)) \<longleftrightarrow>
      (even (popcount x) = even (popcount y)) = even (bit_errors xs ys)"
    by (simp add: bit_errors_def even_popcount_xor)
  with Cons.IH show ?case
    by (auto simp: even_popcount_crc_bits even_popcount_xor popcount_ucast simp del: crc_bits.simps)
qed

section \<open>Lemmas on the load test's integers\<close>

lemma uint_crc_bit: "uint (crc_bit w) = py_crc_bit (uint w)"
proof -
  have "uint w AND 1 \<noteq> 0 \<longleftrightarrow> bit w 0"
    using bit_uint_iff [of w 0] by (simp add: and_one_eq bit_0 odd_iff_mod_2_eq_one)
  moreover have "uint (drop_bit 1 w) = drop_bit 1 (uint w)"
    by (rule bit_eqI) (auto simp: bit_simps dest: bit_imp_le_length)
  moreover have "uint (0xA001 :: u16) = 0xA001" by simp
  ultimately show ?thesis
    by (cases "bit w 0") (simp_all only: crc_bit_alt py_crc_bit_def unsigned_xor_eq if_True if_False)
qed

lemma uint_crc_bits: "uint (crc_bits n w) = py_crc_bits n (uint w)"
  by (induction n arbitrary: w) (simp_all add: uint_crc_bit)

lemma uint_crc_bytes: "uint (crc_bytes bs w) = py_crc_loop bs (uint w)"
proof (induction bs arbitrary: w)
  case Nil
  then show ?case by simp
next
  case (Cons b bs)
  have "uint (ucast b :: u16) = uint b" 
    by (rule bit_eqI) (auto simp: bit_simps dest: bit_imp_le_length)
  then show ?case
    by (simp add: Cons uint_crc_bits unsigned_xor_eq del: crc_bits.simps py_crc_bits.simps)
qed

lemma crc16_modbus_crc_bytes: "crc16_modbus bs = uint (crc_bytes bs 0xFFFF)"
proof -
  have "uint (crc_bytes bs 0xFFFF) = py_crc_loop bs 0xFFFF"
    by (simp add: uint_crc_bytes)
  moreover have "uint w AND mask 16 = uint w" for w :: u16
    by (rule bit_eqI) (auto simp: bit_simps dest: bit_imp_le_length)
  then have "uint w AND 0xFFFF = uint w" for w :: u16
    by (simp add: mask_eq_exp_minus_1)
  ultimately show ?thesis by (metis crc16_modbus_def)
qed

section \<open>Properties\<close>

lemma compute_crc16_all: "compute_crc16 bs (length bs) = Inr (crc_bytes bs 0xFFFF)"
  by (simp add: compute_crc16_def)

lemma compute_crc16_prefix:
  "n \<le> length bs \<Longrightarrow> compute_crc16 bs n = Inr (crc_bytes (take n bs) 0xFFFF)"
  by (simp add: compute_crc16_def)

text \<open>The catalogue's check value, the checksum of the digits 1 to 9.\<close>

lemma crc_bits_8:
  "crc_bits 8 c = crc_bit (crc_bit (crc_bit (crc_bit (crc_bit (crc_bit (crc_bit (crc_bit c)))))))"
  by (simp add: eval_nat_numeral)

lemma crc16_check_value:
  "crc16_catalogue [0x31, 0x32, 0x33, 0x34, 0x35, 0x36, 0x37, 0x38, 0x39] = 0x4B37"
  by (simp add: crc_bits_8 crc_bit_def flip: crc_bytes_catalogue)

text \<open>
  C22: over any message, whatever follows it in memory, \<open>compute_crc16\<close> returns the catalogue's
  CRC-16/MODBUS of the message, and the load test's \<open>crc16_modbus\<close> computes the same number on
  unbounded integers.
\<close>

theorem crc16_implements_modbus:
  "compute_crc16 (bs @ behind) (length bs) = Inr (crc16_catalogue bs) \<and>
   crc16_modbus bs = uint (crc16_catalogue bs)"
  by (simp add: compute_crc16_prefix crc_bytes_catalogue crc16_modbus_crc_bytes)

end
