(* ===== verification/Telemetry_Packet.thy ===== *)
theory Telemetry_Packet
  imports Byte_Order Crc16
begin

text \<open>
  \<open>include/telemetry.h\<close>: the packet constants, the structures \<open>Telemetry\<close> and \<open>DataChunk\<close>; the
  decoder \<open>StreamingParser::deserialize_payload\<close> of \<open>src/streamingParser.cpp\<close>; and the client's
  encoder \<open>serialize_payload\<close> / \<open>build_packet\<close> of \<open>tests/drone_load_test.py\<close>. A \<open>double\<close> field is
  its 64-bit pattern: both sides move it as eight bytes and never compute with it.
\<close>

section \<open>Constants and structures\<close>

definition PACKET_HEADER :: u16 where
  "PACKET_HEADER = 0xAA55"

definition HEADER_SIZE :: nat where
  "HEADER_SIZE = 2"

definition LENGTH_SIZE :: nat where
  "LENGTH_SIZE = 2"

definition CRC_SIZE :: nat where
  "CRC_SIZE = 2"

definition MAX_PAYLOAD_SIZE :: u16 where
  "MAX_PAYLOAD_SIZE = 256"

lemmas packet_consts = PACKET_HEADER_def HEADER_SIZE_def LENGTH_SIZE_def CRC_SIZE_def
  MAX_PAYLOAD_SIZE_def

record Telemetry =
  drone_id :: string
  latitude :: double
  longitude :: double
  altitude :: double
  speed :: double
  timestamp :: u64

record DataChunk =
  client_id :: int
  chunk_data :: "byte list"

text \<open>\<open>reinterpret_cast<const char*>\<close>: a byte and a \<open>char\<close> are the same eight bits.\<close>

definition char_of_byte :: "byte \<Rightarrow> char" where
  "char_of_byte b = char_of (unat b)"

definition byte_of_char :: "char \<Rightarrow> byte" where
  "byte_of_char c = of_nat (of_char c)"

section \<open>The decoder\<close>

text \<open>Reading \<open>n\<close> bytes at \<open>src + offset\<close>, undefined outside the array.\<close>

definition read_mem :: "byte list \<Rightarrow> nat \<Rightarrow> nat \<Rightarrow> byte list res" where
  "read_mem src offset n =
     (if offset + n \<le> length src then Inr (take n (drop offset src))
      else Inl (Undefined ''read out of bounds''))"

text \<open>
  The lambda \<open>read_field\<close> on a field of \<open>'a word\<close>: \<open>None\<close> for \<open>false\<close>, otherwise the field and the
  advanced offset. \<open>or_nullopt\<close> is the \<open>return std::nullopt\<close> after a read that failed.
\<close>

definition read_field :: "endian \<Rightarrow> byte list \<Rightarrow> nat \<Rightarrow> nat \<Rightarrow> ('a::len word \<times> nat) option res" where
  "read_field native src len offset =
     (let size = LENGTH('a) div 8 in
      if len < sz_add offset size then Inr None
      else bind_res (read_mem src offset size) (\<lambda>raw.
        Inr (Some (from_big_endian native (load native raw), sz_add offset size))))"

fun or_nullopt :: "'a option res \<Rightarrow> ('a \<Rightarrow> 'b option res) \<Rightarrow> 'b option res" where
  "or_nullopt (Inl e) f = Inl e"
| "or_nullopt (Inr None) f = Inr None"
| "or_nullopt (Inr (Some x)) f = f x"

definition deserialize_payload :: "endian \<Rightarrow> byte list \<Rightarrow> nat \<Rightarrow> Telemetry option res" where
  "deserialize_payload native src len =
     or_nullopt (read_field native src len 0) (\<lambda>(id_len :: u16, offset).
     if len < sz_add offset (unat id_len) then Inr None
     else bind_res (read_mem src offset (unat id_len)) (\<lambda>ident.
     let offset = sz_add offset (unat id_len) in
     or_nullopt (read_field native src len offset) (\<lambda>(lat, offset).
     or_nullopt (read_field native src len offset) (\<lambda>(lon, offset).
     or_nullopt (read_field native src len offset) (\<lambda>(alt, offset).
     or_nullopt (read_field native src len offset) (\<lambda>(spd, offset).
     or_nullopt (read_field native src len offset) (\<lambda>(ts, offset).
     Inr (Some \<lparr>drone_id = map char_of_byte ident, latitude = lat, longitude = lon, altitude = alt,
                speed = spd, timestamp = ts\<rparr>))))))))"

section \<open>The client's encoder\<close>

text \<open>
  \<open>struct.pack\<close> of the load test: an identifier longer than a \<open>uint16\<close> can count and a payload
  longer than that raise \<open>struct.error\<close>, here \<open>None\<close>. An \<open>ascii\<close> encoding refuses characters
  above 127.
\<close>

definition serialize_payload :: "Telemetry \<Rightarrow> byte list option" where
  "serialize_payload t =
     (if list_all (\<lambda>c. of_char c < (128 :: nat)) (drone_id t) \<and> length (drone_id t) < 2 ^ 16
      then Some (be_encode (of_nat (length (drone_id t)) :: u16) @ map byte_of_char (drone_id t) @
             be_encode (latitude t) @ be_encode (longitude t) @ be_encode (altitude t) @
             be_encode (speed t) @ be_encode (timestamp t))
      else None)"

definition build_packet :: "Telemetry \<Rightarrow> bool \<Rightarrow> byte list option" where
  "build_packet t corrupt_crc =
     (case serialize_payload t of
        None \<Rightarrow> None
      | Some payload \<Rightarrow>
          if length payload < 2 ^ 16
          then let header_bytes = be_encode PACKET_HEADER;
                   length_bytes = be_encode (of_nat (length payload) :: u16);
                   raw = header_bytes @ length_bytes @ payload;
                   crc = crc16_modbus raw;
                   crc = (if corrupt_crc then xor crc 0xBEEF else crc)
               in Some (raw @ be_encode (word_of_int crc :: u16))
          else None)"

section \<open>Reference decoder\<close>

text \<open>The payload layout of the wire protocol, read off the bytes by position.\<close>

definition decode_payload :: "byte list \<Rightarrow> Telemetry option" where
  "decode_payload p =
     (let n = unat (be_decode (take 2 p) :: u16);
          field = (\<lambda>k. be_decode (take 8 (drop (2 + n + 8 * k) p))) in
      if length p < 2 \<or> length p < 2 + n + 40 then None
      else Some \<lparr>drone_id = map char_of_byte (take n (drop 2 p)),
                 latitude = field 0, longitude = field 1, altitude = field 2, speed = field 3,
                 timestamp = field 4\<rparr>)"

lemma char_of_byte_of_char [simp]: "char_of_byte (byte_of_char c) = c"
proof -
  have "of_char c < (2 ^ 8 :: nat)" using of_char_eq_iff [of c] by (cases c) (auto simp: of_char_def)
  then have "unat (of_nat (of_char c) :: byte) = (of_char c :: nat)"
    by (simp add: unat_of_nat take_bit_nat_eq_self)
  then show ?thesis by (simp add: char_of_byte_def byte_of_char_def)
qed

lemma read_field_short:
  "len < offset + LENGTH('a) div 8 \<Longrightarrow> offset + LENGTH('a) div 8 < size_t_limit \<Longrightarrow>
   (read_field native src len offset :: ('a::len word \<times> nat) option res) = Inr None"
  by (simp add: read_field_def sz_add_exact)

lemma read_field_ok:
  assumes "offset + LENGTH('a) div 8 \<le> len" "len \<le> length src" "len < size_t_limit"
    "8 dvd LENGTH('a)"
  shows "(read_field native src len offset :: ('a::len word \<times> nat) option res) =
    Inr (Some (be_decode (take (LENGTH('a) div 8) (drop offset src)), offset + LENGTH('a) div 8))"
proof -
  let ?bs = "take (LENGTH('a) div 8) (drop offset src)"
  have "8 * length ?bs = LENGTH('a)" using assms by auto
  from from_big_endian_load [OF this, of native] assms show ?thesis
    by (simp add: read_field_def read_mem_def sz_add_exact Let_def)
qed

lemma read_field_u64:
  assumes "offset \<le> len" "len \<le> length src" "len + 8 < size_t_limit"
  shows "(read_field native src len offset :: (u64 \<times> nat) option res) =
    Inr (if offset + 8 \<le> len then Some (be_decode (take 8 (drop offset src)), offset + 8) else None)"
  using assms read_field_ok [of offset len src native, where 'a = 64]
    read_field_short [of len offset native src, where 'a = 64] by simp

lemma take_drop_take: "k + m \<le> n \<Longrightarrow> take m (drop k (take n xs)) = take m (drop k xs)"
  by (simp add: drop_take min_absorb1 le_diff_conv2)

lemma deserialize_payload_decode:
  assumes src: "len \<le> length src" and len: "len \<le> vector_max_size"
  shows "deserialize_payload native src len = Inr (decode_payload (take len src))"
proof (cases "len < 2")
  case True
  then show ?thesis using src
    by (simp add: deserialize_payload_def decode_payload_def read_field_short size_t_limit_def)
next
  case False
  let ?id = "be_decode (take 2 src) :: u16" and ?p = "take len src"
  have lim: "len + 8 < size_t_limit" "2 + unat ?id < size_t_limit"
    using len unsigned_less [of ?id, where 'a = nat] by (simp_all add: size_t_limit_def vector_max_size_def)
  have rd: "(read_field native src len 0 :: (u16 \<times> nat) option res) = Inr (Some (?id, 2))"
    using read_field_ok [of 0 len src native, where 'a = 16] False src lim by simp
  have m: "min 2 len = 2" "min len 2 = 2" using False by simp_all
  show ?thesis
  proof (cases "len < 2 + unat ?id")
    case True
    then show ?thesis using src lim
      by (simp add: deserialize_payload_def rd sz_add_exact decode_payload_def m Let_def)
  next
    case False
    then have off: "2 + unat ?id \<le> len" by simp
    have ident: "read_mem src 2 (unat ?id) = Inr (take (unat ?id) (drop 2 ?p))"
      using off src by (simp add: read_mem_def take_drop_take)
    have fld: "take 8 (drop (2 + unat ?id + 8 * k) ?p) = take 8 (drop (2 + unat ?id + 8 * k) src)"
      if "2 + unat ?id + 8 * k + 8 \<le> len" for k
      using that by (rule take_drop_take)
    show ?thesis
      using off src lim fld [of 0] fld [of 1] fld [of 2] fld [of 3] fld [of 4]
      by (simp add: deserialize_payload_def rd sz_add_exact ident read_field_u64 Let_def
        decode_payload_def m)
  qed
qed

section \<open>Round trip\<close>

lemma length_serialize_payload:
  "serialize_payload t = Some p \<Longrightarrow> length p = length (drone_id t) + 42"
  by (auto simp: serialize_payload_def split: if_splits)

lemma decode_serialize:
  assumes "serialize_payload t = Some p"
  shows "decode_payload p = Some t"
proof -
  let ?n = "length (drone_id t)"
  let ?idb = "map byte_of_char (drone_id t)"
  let ?tail = "be_encode (latitude t) @ be_encode (longitude t) @ be_encode (altitude t) @
             be_encode (speed t) @ be_encode (timestamp t)"
  have p: "p = be_encode (of_nat ?n :: u16) @ ?idb @ ?tail" and n: "?n < 2 ^ 16"
    using assms by (auto simp: serialize_payload_def split: if_splits)
  have len: "length p = 42 + ?n" using length_serialize_payload [OF assms] by simp
  have "be_decode (take 2 p) = (of_nat ?n :: u16)"
    using p by (simp add: be_decode_encode)
  then have id: "unat (be_decode (take 2 p) :: u16) = ?n"
    using n by (simp add: unat_of_nat take_bit_nat_eq_self)
  have d: "drop (2 + ?n) p = ?tail" using p by simp
  have fld: "drop (2 + ?n + k) p = drop k ?tail" for k
    unfolding d [symmetric] by (simp add: add.commute)
  have "take ?n (drop 2 p) = ?idb" using p by simp
  then have ids: "map char_of_byte (take ?n (drop 2 p)) = drone_id t" by (simp add: comp_def)
  have f: "be_decode (take 8 (drop (2 + ?n + 8 * 0) p)) = latitude t"
    "be_decode (take 8 (drop (2 + ?n + 8 * 1) p)) = longitude t"
    "be_decode (take 8 (drop (2 + ?n + 8 * 2) p)) = altitude t"
    "be_decode (take 8 (drop (2 + ?n + 8 * 3) p)) = speed t"
    "be_decode (take 8 (drop (2 + ?n + 8 * 4) p)) = timestamp t"
    unfolding fld by (simp_all add: be_decode_encode)
  show ?thesis unfolding decode_payload_def Let_def id f ids using len by simp
qed

text \<open>
  The payload that the load test serialises is deserialised to the same record, whatever bytes
  follow it in memory.
\<close>

lemma deserialize_serialize:
  assumes "serialize_payload t = Some p"
  shows "deserialize_payload native (p @ behind) (length p) = Inr (Some t)"
proof -
  have "length (drone_id t) < 2 ^ 16" using assms by (simp add: serialize_payload_def split: if_splits)
  then have "length p \<le> vector_max_size"
    using length_serialize_payload [OF assms] by (simp add: vector_max_size_def)
  then show ?thesis using assms by (simp add: deserialize_payload_decode decode_serialize)
qed

section \<open>Properties\<close>

text \<open>
  C20: whatever bytes and whatever declared lengths a payload of \<open>len\<close> bytes holds,
  \<open>deserialize_payload\<close> never reads outside the array; it returns a record exactly when the
  payload has room for the length prefix, the declared identifier and the five eight-byte fields,
  and then the fields at their positions. Bytes after the last field are ignored.
\<close>

theorem deserialize_payload_safe:
  assumes "len \<le> length src" and "len \<le> vector_max_size"
  shows "deserialize_payload native src len = Inr (decode_payload (take len src)) \<and>
    (decode_payload (take len src) = None \<longleftrightarrow>
       len < 2 \<or> len < 42 + unat (be_decode (take 2 (take len src)) :: u16))"
  using assms by (auto simp: deserialize_payload_decode decode_payload_def Let_def)

theorem deserialize_payload_safe_witness:
  "deserialize_payload little [0, 3, 0x41] 3 = Inr None"
proof -
  have "decode_payload (take 3 [0, 3, 0x41]) = None" by (simp add: decode_payload_def Let_def)
  then show ?thesis
    using deserialize_payload_safe [of 3 "[0, 3, 0x41]" little] by (simp add: vector_max_size_def)
qed

end
