(* ===== verification/Streaming_Parser.thy ===== *)
theory Streaming_Parser
  imports Ring_Buffer Telemetry_Packet
begin

text \<open>
  The class \<open>StreamingParser\<close> (\<open>include/streamingParser.h\<close>, \<open>src/streamingParser.cpp\<close>): per-client
  state, the three-state machine \<open>process_client\<close> with its deferred consume, and the thread
  function \<open>run\<close>. A push to one of the two output queues is an \<open>effect\<close>, in program order. An
  exception inside \<open>process_client\<close> keeps what was already counted, logged and pushed, as in the
  code. \<open>run\<close> takes, for every turn of its loop, what \<open>stop_requested()\<close> and \<open>pop\<close> returned.
\<close>

section \<open>State\<close>

datatype State = WAIT_HEADER | WAIT_LENGTH | WAIT_PAYLOAD_AND_CRC

record ClientState =
  state :: State
  ring_buffer :: RingBuffer
  scratch_buf :: "byte list"
  payload_length :: u16

record StreamingParser =
  m_clients :: "int \<rightharpoonup> ClientState"
  m_crc_failures :: u64

datatype effect = Parsed Telemetry | Log string

text \<open>What \<open>process_client\<close> writes: the client by reference, the failure counter, the queues.\<close>

record parse_state =
  ps_client :: ClientState
  ps_failures :: u64
  ps_out :: "effect list"

definition default_ClientState :: "ClientState res" where
  "default_ClientState =
     bind_res (RingBuffer_ctor DEFAULT_CAPACITY) (\<lambda>rb.
     Inr \<lparr>state = WAIT_HEADER, ring_buffer = rb, scratch_buf = [], payload_length = 0\<rparr>)"

definition initial_parser :: StreamingParser where
  "initial_parser = \<lparr>m_clients = Map.empty, m_crc_failures = 0\<rparr>"

definition crc_failure_count :: "StreamingParser \<Rightarrow> u64" where
  "crc_failure_count p = m_crc_failures p"

section \<open>One turn of the state machine\<close>

datatype control = Return | Continue | Throw cpp_error

definition wait_header :: "endian \<Rightarrow> parse_state \<Rightarrow> control \<times> parse_state" where
  "wait_header native s =
     (let cs = ps_client s in
      if rb_size (ring_buffer cs) < HEADER_SIZE then (Return, s)
      else case peek (ring_buffer cs) (replicate HEADER_SIZE 0) of
        Inl e \<Rightarrow> (Throw e, s)
      | Inr header_buf \<Rightarrow>
          let header = from_big_endian native (load native header_buf) in
          if header \<noteq> PACKET_HEADER then
            (case consume (ring_buffer cs) 1 of
               Inl e \<Rightarrow> (Throw e, s)
             | Inr rb \<Rightarrow> (Continue, s\<lparr>ps_client := cs\<lparr>ring_buffer := rb\<rparr>\<rparr>))
          else (Continue, s\<lparr>ps_client := cs\<lparr>state := WAIT_LENGTH\<rparr>\<rparr>))"

definition wait_length :: "endian \<Rightarrow> parse_state \<Rightarrow> control \<times> parse_state" where
  "wait_length native s =
     (let cs = ps_client s in
      if rb_size (ring_buffer cs) < HEADER_SIZE + LENGTH_SIZE then (Return, s)
      else case peek (ring_buffer cs) (replicate (HEADER_SIZE + LENGTH_SIZE) 0) of
        Inl e \<Rightarrow> (Throw e, s)
      | Inr header_length_buf \<Rightarrow>
          let len = from_big_endian native
                      (load native (take LENGTH_SIZE (drop HEADER_SIZE header_length_buf)));
              cs = cs\<lparr>payload_length := len\<rparr> in
          if len = 0 \<or> MAX_PAYLOAD_SIZE < len then
            (case consume (ring_buffer cs) 1 of
               Inl e \<Rightarrow> (Throw e, s\<lparr>ps_client := cs\<rparr>)
             | Inr rb \<Rightarrow>
                 (Continue, s\<lparr>ps_client := cs\<lparr>ring_buffer := rb, state := WAIT_HEADER\<rparr>\<rparr>))
          else (Continue, s\<lparr>ps_client := cs\<lparr>state := WAIT_PAYLOAD_AND_CRC\<rparr>\<rparr>))"

text \<open>The two ends of the third state: the checksum failed, or the packet is accepted.\<close>

definition crc_mismatch :: "parse_state \<Rightarrow> control \<times> parse_state" where
  "crc_mismatch s =
     (let s = s\<lparr>ps_failures := ps_failures s + 1,
                ps_out := ps_out s @ [Log (''[StreamingParser] CRC mismatch '' @ em_dash @
                            '' resyncing'' @ newline)]\<rparr>;
          cs = ps_client s in
      case consume (ring_buffer cs) 1 of
        Inl e \<Rightarrow> (Throw e, s)
      | Inr rb \<Rightarrow> (Continue, s\<lparr>ps_client := cs\<lparr>ring_buffer := rb, state := WAIT_HEADER\<rparr>\<rparr>))"

definition accept_packet :: "endian \<Rightarrow> nat \<Rightarrow> parse_state \<Rightarrow> control \<times> parse_state" where
  "accept_packet native total_len s =
     (let cs = ps_client s in
      case consume (ring_buffer cs) total_len of
        Inl e \<Rightarrow> (Throw e, s)
      | Inr rb \<Rightarrow>
          let cs = cs\<lparr>ring_buffer := rb\<rparr>; s = s\<lparr>ps_client := cs\<rparr> in
          (case deserialize_payload native (drop (HEADER_SIZE + LENGTH_SIZE) (scratch_buf cs))
                  (unat (payload_length cs)) of
             Inl e \<Rightarrow> (Throw e, s)
           | Inr (Some telemetry) \<Rightarrow>
               (Continue, s\<lparr>ps_client := cs\<lparr>state := WAIT_HEADER\<rparr>,
                            ps_out := ps_out s @ [Parsed telemetry]\<rparr>)
           | Inr None \<Rightarrow>
               (Continue, s\<lparr>ps_client := cs\<lparr>state := WAIT_HEADER\<rparr>,
                            ps_failures := ps_failures s + 1,
                            ps_out := ps_out s @ [Log (''[StreamingParser] Malformed payload '' @
                                        em_dash @ '' skipping'' @ newline)]\<rparr>)))"

definition wait_payload_and_crc :: "endian \<Rightarrow> parse_state \<Rightarrow> control \<times> parse_state" where
  "wait_payload_and_crc native s =
     (let cs = ps_client s;
          total_len = sz_add (sz_add (HEADER_SIZE + LENGTH_SIZE) (unat (payload_length cs))) CRC_SIZE in
      if rb_size (ring_buffer cs) < total_len then (Return, s)
      else let cs = cs\<lparr>scratch_buf := vector_resize (scratch_buf cs) total_len\<rparr> in
        case peek (ring_buffer cs) (scratch_buf cs) of
          Inl e \<Rightarrow> (Throw e, s\<lparr>ps_client := cs\<rparr>)
        | Inr scratch \<Rightarrow>
            let cs = cs\<lparr>scratch_buf := scratch\<rparr>;
                s = s\<lparr>ps_client := cs\<rparr>;
                crc_data_len = sz_add (HEADER_SIZE + LENGTH_SIZE) (unat (payload_length cs)) in
            (case compute_crc16 scratch crc_data_len of
               Inl e \<Rightarrow> (Throw e, s)
             | Inr computed_crc \<Rightarrow>
                 (case read_mem scratch crc_data_len CRC_SIZE of
                    Inl e \<Rightarrow> (Throw e, s)
                  | Inr raw \<Rightarrow>
                      if from_big_endian native (load native raw) \<noteq> computed_crc
                      then crc_mismatch s
                      else accept_packet native total_len s)))"

definition process_iter :: "endian \<Rightarrow> parse_state \<Rightarrow> control \<times> parse_state" where
  "process_iter native s =
     (case state (ps_client s) of
        WAIT_HEADER \<Rightarrow> wait_header native s
      | WAIT_LENGTH \<Rightarrow> wait_length native s
      | WAIT_PAYLOAD_AND_CRC \<Rightarrow> wait_payload_and_crc native s)"

section \<open>The loop\<close>

text \<open>
  Every turn that continues discards bytes or moves to a later state, so the loop ends on every
  input, whatever the buffer holds.
\<close>

fun state_rank :: "State \<Rightarrow> nat" where
  "state_rank WAIT_HEADER = 2"
| "state_rank WAIT_LENGTH = 1"
| "state_rank WAIT_PAYLOAD_AND_CRC = 0"

definition parse_measure :: "parse_state \<Rightarrow> nat" where
  "parse_measure s =
     3 * m_count (ring_buffer (ps_client s)) + state_rank (state (ps_client s))"

lemma consume_shrinks:
  "consume rb n = Inr rb' \<Longrightarrow> 0 < n \<Longrightarrow> n < size_t_limit \<Longrightarrow> m_count rb' < m_count rb"
  by (auto simp: consume_def bind_res_Inr_iff sz_sub_less split: if_splits)

lemma one_less_size_t_limit [simp]: "Suc 0 < size_t_limit"
  by (simp add: size_t_limit_def)

lemma total_len_exact:
  "sz_add (unat (l :: u16) + 4) CRC_SIZE = unat l + 6"
  "sz_add (HEADER_SIZE + LENGTH_SIZE) (unat l) = unat l + 4"
  "unat l + 6 < size_t_limit"
  using unsigned_less [of l, where 'a = nat]
  by (simp_all add: packet_consts sz_add_exact size_t_limit_def)

lemma wait_header_decreases:
  "wait_header native s = (Continue, s') \<Longrightarrow> state (ps_client s) = WAIT_HEADER \<Longrightarrow>
   parse_measure s' < parse_measure s"
  by (auto simp: wait_header_def Let_def parse_measure_def dest: consume_shrinks
      split: if_splits sum.splits)

lemma wait_length_decreases:
  "wait_length native s = (Continue, s') \<Longrightarrow> state (ps_client s) = WAIT_LENGTH \<Longrightarrow>
   parse_measure s' < parse_measure s"
  by (auto simp: wait_length_def Let_def parse_measure_def dest: consume_shrinks
      split: if_splits sum.splits)

lemma crc_mismatch_decreases:
  "crc_mismatch s = (Continue, s') \<Longrightarrow> state (ps_client s) = WAIT_PAYLOAD_AND_CRC \<Longrightarrow>
   parse_measure s' < parse_measure s"
  by (auto simp: crc_mismatch_def Let_def parse_measure_def dest: consume_shrinks
      split: sum.splits)

lemma accept_packet_decreases:
  "accept_packet native (unat (l :: u16) + 6) s = (Continue, s') \<Longrightarrow>
   state (ps_client s) = WAIT_PAYLOAD_AND_CRC \<Longrightarrow> parse_measure s' < parse_measure s"
  using total_len_exact(3) [of l]
  by (auto simp: accept_packet_def Let_def parse_measure_def dest: consume_shrinks
      split: sum.splits option.splits)

lemma wait_payload_decreases:
  assumes "wait_payload_and_crc native s = (Continue, s')"
    and "state (ps_client s) = WAIT_PAYLOAD_AND_CRC"
  shows "parse_measure s' < parse_measure s"
proof -
  let ?l = "payload_length (ps_client s)"
    and ?s = "\<lambda>scratch. s\<lparr>ps_client := (ps_client s)\<lparr>scratch_buf := scratch\<rparr>\<rparr>"
  obtain scratch where *: "crc_mismatch (?s scratch) = (Continue, s') \<or>
      accept_packet native (unat ?l + 6) (?s scratch) = (Continue, s')"
    using assms(1)
    by (auto simp: wait_payload_and_crc_def Let_def total_len_exact split: if_splits sum.splits)
  have "parse_measure s' < parse_measure (?s scratch)"
    using * assms(2) crc_mismatch_decreases [of "?s scratch"] accept_packet_decreases [of native ?l "?s scratch"]
    by auto
  then show ?thesis by (simp add: parse_measure_def)
qed

lemma process_iter_decreases:
  "process_iter native s = (Continue, s') \<Longrightarrow> parse_measure s' < parse_measure s"
  by (auto simp: process_iter_def split: State.splits
      intro: wait_header_decreases wait_length_decreases wait_payload_decreases)

function process_client :: "endian \<Rightarrow> parse_state \<Rightarrow> cpp_error option \<times> parse_state" where
  "process_client native s =
     (case process_iter native s of
        (Return, s') \<Rightarrow> (None, s')
      | (Throw e, s') \<Rightarrow> (Some e, s')
      | (Continue, s') \<Rightarrow> process_client native s')"
  by pat_completeness auto
termination
  by (relation "measure (\<lambda>(native, s). parse_measure s)") (simp_all add: process_iter_decreases)

declare process_client.simps [simp del]

section \<open>The thread function\<close>

definition erase_client :: "StreamingParser \<Rightarrow> int \<Rightarrow> StreamingParser" where
  "erase_client p fd = p\<lparr>m_clients := (m_clients p)(fd := None)\<rparr>"

definition store_client :: "StreamingParser \<Rightarrow> int \<Rightarrow> ClientState \<Rightarrow> StreamingParser" where
  "store_client p fd cs = p\<lparr>m_clients := (m_clients p)(fd \<mapsto> cs)\<rparr>"

text \<open>\<open>m_clients[chunk.client_id]\<close> default-constructs a missing client.\<close>

definition client_or_default :: "StreamingParser \<Rightarrow> int \<Rightarrow> ClientState res" where
  "client_or_default p fd =
     (case m_clients p fd of Some cs \<Rightarrow> Inr cs | None \<Rightarrow> default_ClientState)"

text \<open>
  The body of the loop of \<open>run\<close> for one chunk. The first component is an error that no handler of
  \<open>run\<close> catches.
\<close>

definition handle_chunk ::
  "endian \<Rightarrow> StreamingParser \<Rightarrow> DataChunk \<Rightarrow> cpp_error option \<times> StreamingParser \<times> effect list" where
  "handle_chunk native p chunk =
     (let fd = client_id chunk in
      if chunk_data chunk = [] then
        (None, erase_client p fd,
         [Log (''[StreamingParser] Cleaned up state for client fd='' @ int_to_string fd @ newline)])
      else case client_or_default p fd of
        Inl e \<Rightarrow> (Some e, p, [])
      | Inr cs \<Rightarrow>
         (case push (ring_buffer cs) (chunk_data chunk) of
            Inl (overflow_error w) \<Rightarrow>
              (None, erase_client p fd,
               [Log (''[StreamingParser] '' @ w @ '' '' @ em_dash @ '' dropping client fd='' @
                     int_to_string fd @ newline)])
          | Inl e \<Rightarrow> (Some e, store_client p fd cs, [])
          | Inr rb \<Rightarrow>
             (case process_client native \<lparr>ps_client = cs\<lparr>ring_buffer := rb\<rparr>,
                     ps_failures = m_crc_failures p, ps_out = []\<rparr> of
                (None, s) \<Rightarrow>
                  (None, (store_client p fd (ps_client s))\<lparr>m_crc_failures := ps_failures s\<rparr>, ps_out s)
              | (Some e, s) \<Rightarrow>
                  if is_exception e
                  then (None, (erase_client p fd)\<lparr>m_crc_failures := ps_failures s\<rparr>,
                        ps_out s @ [Log (''[StreamingParser] Unexpected error for client fd='' @
                          int_to_string fd @ '': '' @ what e @ '' '' @ em_dash @
                          '' dropping client'' @ newline)])
                  else (Some e, (store_client p fd (ps_client s))\<lparr>m_crc_failures := ps_failures s\<rparr>,
                        ps_out s))))"

datatype run_end = Running | Finished | Terminated cpp_error

fun run_loop :: "endian \<Rightarrow> StreamingParser \<Rightarrow> (bool \<times> DataChunk option) list \<Rightarrow>
    run_end \<times> StreamingParser \<times> effect list" where
  "run_loop native p [] = (Running, p, [])"
| "run_loop native p ((stop_requested, maybe_chunk) # turns) =
     (if stop_requested then (Finished, p, [])
      else case maybe_chunk of
        None \<Rightarrow> (Finished, p, [])
      | Some chunk \<Rightarrow>
         (case handle_chunk native p chunk of
            (Some e, p', out) \<Rightarrow> (Terminated e, p', out)
          | (None, p', out) \<Rightarrow>
              let (r, p'', out') = run_loop native p' turns in (r, p'', out @ out')))"

definition run :: "endian \<Rightarrow> StreamingParser \<Rightarrow> (bool \<times> DataChunk option) list \<Rightarrow>
    run_end \<times> StreamingParser \<times> effect list" where
  "run native p turns =
     (let (r, p', out) = run_loop native p turns in
      (r, p', Log (''[StreamingParser] Running'' @ newline) # out @
         (if r = Finished
          then [Log (''[StreamingParser] Shutting down (CRC failures: '' @
                     to_string (unat (m_crc_failures p')) @ '')'' @ newline)]
          else [])))"

end
