(* ===== verification/Stream_Spec.thy ===== *)
theory Stream_Spec
  imports Telemetry_Packet
begin

unbundle bit_operations_syntax

text \<open>
  The wire protocol as a specification on byte lists, independent of buffers, states and chunks:
  what the first bytes of a stream decide (\<open>frame_step\<close>), the scan of a whole stream (\<open>scan\<close>), and
  the facts about scanning that the parser's properties rest on. The section names of the README
  (\<open>Wire Protocol\<close>, \<open>Resynchronization on CRC Failure\<close>) describe the same rules in prose.
\<close>

datatype frame = Packet Telemetry | Malformed | Crc_bad

text \<open>
  \<open>None\<close>: more bytes are needed. \<open>Some (k, es)\<close>: drop \<open>k\<close> bytes and report \<open>es\<close>.
\<close>

definition frame_header :: "byte list \<Rightarrow> bool" where
  "frame_header bs \<longleftrightarrow> (be_decode (take 2 bs) :: u16) = PACKET_HEADER"

definition frame_length :: "byte list \<Rightarrow> u16" where
  "frame_length bs = be_decode (take 2 (drop 2 bs))"

definition frame_crc_ok :: "byte list \<Rightarrow> bool" where
  "frame_crc_ok bs \<longleftrightarrow>
     (let n = unat (frame_length bs) in
      be_decode (take 2 (drop (n + 4) bs)) = crc16_catalogue (take (n + 4) bs))"

definition frame_content :: "byte list \<Rightarrow> frame" where
  "frame_content bs =
     (case decode_payload (take (unat (frame_length bs)) (drop 4 bs)) of
        Some t \<Rightarrow> Packet t
      | None \<Rightarrow> Malformed)"

definition frame_step :: "byte list \<Rightarrow> (nat \<times> frame list) option" where
  "frame_step bs =
     (if length bs < 2 then None
      else if \<not> frame_header bs then Some (1, [])
      else if length bs < 4 then None
      else if frame_length bs = 0 \<or> MAX_PAYLOAD_SIZE < frame_length bs then Some (1, [])
      else if length bs < unat (frame_length bs) + 6 then None
      else if \<not> frame_crc_ok bs then Some (1, [Crc_bad])
      else Some (unat (frame_length bs) + 6, [frame_content bs]))"

lemma frame_step_bounds:
  "frame_step bs = Some (k, es) \<Longrightarrow> 0 < k \<and> k \<le> length bs \<and> length es \<le> 1"
  by (auto simp: frame_step_def split: if_splits)

function scan :: "byte list \<Rightarrow> frame list \<times> byte list" where
  "scan bs =
     (case frame_step bs of
        None \<Rightarrow> ([], bs)
      | Some (k, es) \<Rightarrow> let (fs, rest) = scan (drop k bs) in (es @ fs, rest))"
  by pat_completeness auto
termination
  by (relation "measure length") (auto dest!: frame_step_bounds)

declare scan.simps [simp del]

section \<open>Unfolding the scan\<close>

lemma scan_None: "frame_step bs = None \<Longrightarrow> scan bs = ([], bs)"
  by (simp add: scan.simps)

lemma scan_Some:
  "frame_step bs = Some (k, es) \<Longrightarrow> scan bs = (es @ fst (scan (drop k bs)), snd (scan (drop k bs)))"
  by (subst scan.simps) (simp add: split_def Let_def)

lemma scan_Nil [simp]: "scan [] = ([], [])"
  by (simp add: scan_None frame_step_def)

lemma scan_induct [case_names Done Step]:
  assumes "\<And>bs. frame_step bs = None \<Longrightarrow> P bs"
    and "\<And>bs k es. frame_step bs = Some (k, es) \<Longrightarrow> P (drop k bs) \<Longrightarrow> P bs"
  shows "P bs"
proof (induction bs rule: scan.induct)
  case (1 bs)
  then show ?case
  proof (cases "frame_step bs")
    case None
    then show ?thesis by (rule assms(1))
  next
    case (Some d)
    then obtain k es where "frame_step bs = Some (k, es)" by (cases d) auto
    with 1 assms(2) show ?thesis by blast
  qed
qed

section \<open>A decision does not depend on bytes that arrive later\<close>

lemma unat_max_payload: "\<not> MAX_PAYLOAD_SIZE < l \<Longrightarrow> unat l \<le> 256"
  by (simp add: packet_consts word_less_nat_alt)

lemma frame_header_append: "2 \<le> length bs \<Longrightarrow> frame_header (bs @ xs) = frame_header bs"
  by (simp add: frame_header_def)

lemma frame_length_append: "4 \<le> length bs \<Longrightarrow> frame_length (bs @ xs) = frame_length bs"
  by (simp add: frame_length_def)

lemma frame_crc_ok_append:
  "unat (frame_length bs) + 6 \<le> length bs \<Longrightarrow> frame_crc_ok (bs @ xs) = frame_crc_ok bs"
  by (simp add: frame_crc_ok_def frame_length_append Let_def)

lemma frame_content_append:
  "unat (frame_length bs) + 6 \<le> length bs \<Longrightarrow> frame_content (bs @ xs) = frame_content bs"
  by (simp add: frame_content_def frame_length_append)

lemma frame_step_append:
  "frame_step bs = Some d \<Longrightarrow> frame_step (bs @ xs) = Some d"
  by (auto simp: frame_step_def frame_header_append frame_length_append frame_crc_ok_append
      frame_content_append split: if_splits)

lemma scan_append:
  "scan (a @ b) = (fst (scan a) @ fst (scan (snd (scan a) @ b)), snd (scan (snd (scan a) @ b)))"
proof (induction a rule: scan_induct)
  case (Done a)
  then show ?case by (simp add: scan_None)
next
  case (Step a k es)
  from Step(1) have "frame_step (a @ b) = Some (k, es)" by (rule frame_step_append)
  moreover have "drop k (a @ b) = drop k a @ b" using frame_step_bounds [OF Step(1)] by simp
  ultimately show ?case using Step by (simp add: scan_Some)
qed

section \<open>What a scan leaves behind\<close>

lemma frame_step_rest: "frame_step (snd (scan bs)) = None"
  by (induction bs rule: scan_induct) (simp_all add: scan_None scan_Some)

lemma frame_step_None_short: "frame_step bs = None \<Longrightarrow> length bs \<le> 261"
  by (auto simp: frame_step_def dest: unat_max_payload split: if_splits)

section \<open>Well-formed frames\<close>

definition valid_frame :: "byte list \<Rightarrow> bool" where
  "valid_frame f \<longleftrightarrow>
     frame_header f \<and> frame_length f \<noteq> 0 \<and> \<not> MAX_PAYLOAD_SIZE < frame_length f \<and>
     length f = unat (frame_length f) + 6 \<and> frame_crc_ok f"

definition frame_bytes :: "byte list \<Rightarrow> byte list" where
  "frame_bytes p =
     (let raw = be_encode PACKET_HEADER @ be_encode (of_nat (length p) :: u16) @ p
      in raw @ be_encode (crc16_catalogue raw))"

lemma frame_step_valid:
  assumes "valid_frame f"
  shows "frame_step (f @ xs) = Some (length f, [frame_content f])"
proof -
  have "frame_step f = Some (length f, [frame_content f])"
    using assms by (simp add: valid_frame_def frame_step_def)
  then show ?thesis by (rule frame_step_append)
qed

lemma scan_valid_frame:
  "valid_frame f \<Longrightarrow> scan (f @ xs) = (frame_content f # fst (scan xs), snd (scan xs))"
  by (simp add: scan_Some [OF frame_step_valid])

lemma frame_bytes_parts:
  assumes "length p < 2 ^ 16"
  shows "take 2 (frame_bytes p) = be_encode PACKET_HEADER"
    "frame_length (frame_bytes p) = of_nat (length p)"
    "unat (frame_length (frame_bytes p)) = length p"
    "length (frame_bytes p) = length p + 6"
    "take (length p) (drop 4 (frame_bytes p)) = p"
    "frame_crc_ok (frame_bytes p)"
proof -
  let ?raw = "be_encode PACKET_HEADER @ be_encode (of_nat (length p) :: u16) @ p"
  have fb: "frame_bytes p = ?raw @ be_encode (crc16_catalogue ?raw)"
    by (simp add: frame_bytes_def Let_def)
  show "take 2 (frame_bytes p) = be_encode PACKET_HEADER" by (simp add: fb)
  show fl: "frame_length (frame_bytes p) = of_nat (length p)"
    by (simp add: frame_length_def fb be_decode_encode)
  show n: "unat (frame_length (frame_bytes p)) = length p"
    using assms by (simp add: fl unat_of_nat take_bit_nat_eq_self)
  show "length (frame_bytes p) = length p + 6" by (simp add: fb)
  show "take (length p) (drop 4 (frame_bytes p)) = p" by (simp add: fb)
  show "frame_crc_ok (frame_bytes p)"
    unfolding frame_crc_ok_def n Let_def by (simp add: fb be_decode_encode)
qed

lemma valid_frame_bytes:
  assumes "p \<noteq> []" "length p \<le> 256"
  shows "valid_frame (frame_bytes p)"
proof -
  have lt: "length p < 2 ^ 16" using assms by simp
  note P = frame_bytes_parts [OF lt]
  have n: "unat (frame_length (frame_bytes p)) = length p" by (rule P(3))
  have "frame_header (frame_bytes p)" by (simp add: frame_header_def P(1) be_decode_encode)
  moreover have "frame_length (frame_bytes p) \<noteq> 0" using n assms(1) by auto
  moreover have "\<not> MAX_PAYLOAD_SIZE < frame_length (frame_bytes p)"
    using n assms(2) by (simp add: packet_consts word_less_nat_alt)
  ultimately show ?thesis using P by (simp add: valid_frame_def)
qed

section \<open>Which stretches of a stream are accepted\<close>

text \<open>Start and length of the frames that a scan takes out of a stream that begins at \<open>off\<close>.\<close>

function accepted :: "nat \<Rightarrow> byte list \<Rightarrow> (nat \<times> nat) list" where
  "accepted off bs =
     (case frame_step bs of
        None \<Rightarrow> []
      | Some (k, es) \<Rightarrow> (if 1 < k then [(off, k)] else []) @ accepted (off + k) (drop k bs))"
  by pat_completeness auto
termination
  by (relation "measure (\<lambda>(off, bs). length bs)") (auto dest!: frame_step_bounds)

declare accepted.simps [simp del]

lemma accepted_None: "frame_step bs = None \<Longrightarrow> accepted off bs = []"
  by (simp add: accepted.simps)

lemma accepted_Some:
  "frame_step bs = Some (k, es) \<Longrightarrow>
   accepted off bs = (if 1 < k then [(off, k)] else []) @ accepted (off + k) (drop k bs)"
  by (subst accepted.simps) simp

lemma frame_prefix_parts:
  assumes "unat (frame_length bs) + 6 \<le> length bs"
  defines "f \<equiv> take (unat (frame_length bs) + 6) bs"
  shows "frame_header f = frame_header bs" "frame_length f = frame_length bs"
    "frame_crc_ok f = frame_crc_ok bs" "frame_content f = frame_content bs"
    "length f = unat (frame_length bs) + 6"
proof -
  let ?r = "drop (unat (frame_length bs) + 6) bs"
  have bs: "f @ ?r = bs" by (simp add: f_def)
  show len: "length f = unat (frame_length bs) + 6" using assms by simp
  show "frame_header f = frame_header bs" using len frame_header_append [of f ?r] bs by simp
  show fl: "frame_length f = frame_length bs" using len frame_length_append [of f ?r] bs by simp
  show "frame_crc_ok f = frame_crc_ok bs" using len fl frame_crc_ok_append [of f ?r] bs by simp
  show "frame_content f = frame_content bs" using len fl frame_content_append [of f ?r] bs by simp
qed

lemma frame_step_accept:
  assumes "frame_step bs = Some (k, es)" "1 < k"
  shows "valid_frame (take k bs)" "es = [frame_content (take k bs)]"
proof -
  from assms have k: "k = unat (frame_length bs) + 6" "k \<le> length bs" "es = [frame_content bs]"
    and ok: "frame_header bs" "frame_length bs \<noteq> 0" "\<not> MAX_PAYLOAD_SIZE < frame_length bs" "frame_crc_ok bs"
    by (auto simp: frame_step_def split: if_splits)
  with frame_prefix_parts [of bs] show "valid_frame (take k bs)" "es = [frame_content (take k bs)]"
    by (simp_all add: valid_frame_def)
qed

lemma frame_step_reject:
  "frame_step bs = Some (k, es) \<Longrightarrow> \<not> 1 < k \<Longrightarrow> k = 1 \<and> (es = [] \<or> es = [Crc_bad])"
  by (auto simp: frame_step_def split: if_splits)

lemma frame_content_not_bad [simp]: "frame_content f \<noteq> Crc_bad"
  by (simp add: frame_content_def split: option.splits)

lemma accepted_bounds:
  "(j, l) \<in> set (accepted off bs) \<Longrightarrow> off \<le> j \<and> j + l \<le> off + length bs"
proof (induction bs arbitrary: off rule: scan_induct)
  case (Done bs)
  then show ?case by (simp add: accepted_None)
next
  case (Step bs k es)
  note b = frame_step_bounds [OF Step(1)]
  from Step.prems have "(j, l) = (off, k) \<or> (j, l) \<in> set (accepted (off + k) (drop k bs))"
    by (auto simp: accepted_Some [OF Step(1)] split: if_splits)
  then show ?case using Step.IH [of "off + k"] b by auto
qed

lemma accepted_disjoint: "sorted_wrt (\<lambda>(j, l) (j', l'). j + l \<le> j') (accepted off bs)"
proof (induction bs arbitrary: off rule: scan_induct)
  case (Done bs)
  then show ?case by (simp add: accepted_None)
next
  case (Step bs k es)
  then show ?case by (auto simp: accepted_Some [OF Step(1)] dest: accepted_bounds)
qed

lemma accepted_valid:
  "(j, l) \<in> set (accepted (length pre) bs) \<Longrightarrow> valid_frame (take l (drop j (pre @ bs)))"
proof (induction bs arbitrary: pre rule: scan_induct)
  case (Done bs)
  then show ?case by (simp add: accepted_None)
next
  case (Step bs k es)
  note b = frame_step_bounds [OF Step(1)]
  have k: "length (pre @ take k bs) = length pre + k" using b by simp
  from Step.prems consider "1 < k" "(j, l) = (length pre, k)"
    | "(j, l) \<in> set (accepted (length pre + k) (drop k bs))"
    by (auto simp: accepted_Some [OF Step(1)] split: if_splits)
  then show ?case
  proof cases
    case 1
    with frame_step_accept(1) [OF Step(1)] show ?thesis by simp
  next
    case 2
    with Step.IH [of "pre @ take k bs"] k show ?thesis by simp
  qed
qed

lemma accepted_content:
  "map (\<lambda>(j, l). frame_content (take l (drop j (pre @ bs)))) (accepted (length pre) bs) =
   filter (\<lambda>f. f \<noteq> Crc_bad) (fst (scan bs))"
proof (induction bs arbitrary: pre rule: scan_induct)
  case (Done bs)
  then show ?case by (simp add: accepted_None scan_None)
next
  case (Step bs k es)
  note b = frame_step_bounds [OF Step(1)]
  have IH: "map (\<lambda>(j, l). frame_content (take l (drop j (pre @ bs)))) (accepted (length pre + k) (drop k bs)) =
      filter (\<lambda>f. f \<noteq> Crc_bad) (fst (scan (drop k bs)))"
    using Step.IH [of "pre @ take k bs"] b by (simp del: split_paired_All)
  show ?case
  proof (cases "1 < k")
    case True
    with frame_step_accept(2) [OF Step(1)] IH show ?thesis
      by (simp add: accepted_Some [OF Step(1)] scan_Some [OF Step(1)])
  next
    case False
    with frame_step_reject [OF Step(1)] IH show ?thesis
      by (auto simp: accepted_Some [OF Step(1)] scan_Some [OF Step(1)])
  qed
qed

lemma accepted_covers:
  assumes "length pre \<le> i" "i + length (snd (scan bs)) < length (pre @ bs)"
    and "valid_frame f" "take (length f) (drop i (pre @ bs)) = f"
  shows "\<exists>j l. (j, l) \<in> set (accepted (length pre) bs) \<and> j \<le> i \<and> i < j + l"
  using assms(1,2,4)
proof (induction bs arbitrary: pre rule: scan_induct)
  case (Done bs)
  then show ?case by (simp add: scan_None)
next
  case (Step bs k es)
  note b = frame_step_bounds [OF Step(1)]
  have len: "length (pre @ take k bs) = length pre + k" using b by simp
  have rest: "snd (scan bs) = snd (scan (drop k bs))" by (simp add: scan_Some [OF Step(1)])
  show ?case
  proof (cases "length pre + k \<le> i")
    case True
    with Step.IH [of "pre @ take k bs"] Step.prems len rest show ?thesis
      by (auto simp: accepted_Some [OF Step(1)])
  next
    case False
    show ?thesis
    proof (cases "1 < k")
      case True
      then have "(length pre, k) \<in> set (accepted (length pre) bs)"
        by (simp add: accepted_Some [OF Step(1)])
      with False Step.prems(1) show ?thesis by (metis not_le)
    next
      case small: False
      with frame_step_reject [OF Step(1)] False Step.prems(1) have "i = length pre" "k = 1" by auto
      with Step.prems(3) have "take (length f) bs = f" by simp
      then have "bs = f @ drop (length f) bs" by (metis append_take_drop_id)
      with frame_step_valid [OF assms(3)] have "frame_step bs = Some (length f, [frame_content f])"
        by metis
      with Step(1) \<open>k = 1\<close> assms(3) show ?thesis by (simp add: valid_frame_def)
    qed
  qed
qed

section \<open>Noise before a frame\<close>

lemma scan_skip_noise:
  "(\<And>i. i < length g \<Longrightarrow> \<not> frame_header (drop i (g @ bs))) \<Longrightarrow> 2 \<le> length bs \<Longrightarrow>
   scan (g @ bs) = scan bs"
proof (induction g)
  case Nil
  then show ?case by simp
next
  case (Cons x g)
  have "\<not> frame_header (x # g @ bs)" using Cons.prems(1) [of 0] by simp
  then have "frame_step (x # g @ bs) = Some (1, [])" using Cons.prems(2)
    by (auto simp: frame_step_def)
  then have "scan (x # g @ bs) = scan (g @ bs)" by (simp add: scan_Some)
  moreover have "scan (g @ bs) = scan bs"
    using Cons.prems(1) [of "Suc i" for i] Cons.prems(2) by (intro Cons.IH) auto
  ultimately show ?case by simp
qed

lemma frame_header_iff:
  "2 \<le> length bs \<Longrightarrow> frame_header bs \<longleftrightarrow> bs ! 0 = 0xAA \<and> bs ! 1 = 0x55"
proof -
  assume "2 \<le> length bs"
  then obtain a b r where bs: "bs = a # b # r"
    by (metis One_nat_def Suc_le_length_iff numeral_2_eq_2)
  have e: "be_encode PACKET_HEADER = [0xAA, 0x55]" by code_simp
  have "frame_header bs \<longleftrightarrow> [a, b] = be_encode PACKET_HEADER"
    using be_encode_decode [of "[a, b]", where 'a = 16] be_decode_encode [of PACKET_HEADER]
    by (auto simp: frame_header_def bs)
  then show ?thesis by (simp add: e bs)
qed

section \<open>Frames on the wire\<close>

text \<open>A frame whose payload is \<open>p\<close> and whose checksum field holds \<open>c\<close>.\<close>

definition frame_with_crc :: "byte list \<Rightarrow> u16 \<Rightarrow> byte list" where
  "frame_with_crc p c =
     be_encode PACKET_HEADER @ be_encode (of_nat (length p) :: u16) @ p @ be_encode c"

definition frame_crc :: "byte list \<Rightarrow> u16" where
  "frame_crc p =
     crc16_catalogue (be_encode PACKET_HEADER @ be_encode (of_nat (length p) :: u16) @ p)"

lemma frame_bytes_eq: "frame_bytes p = frame_with_crc p (frame_crc p)"
  by (simp add: frame_bytes_def frame_with_crc_def frame_crc_def Let_def)

lemma frame_step_wrong_crc:
  assumes "p \<noteq> []" "length p \<le> 256" "c \<noteq> frame_crc p"
  shows "frame_step (frame_with_crc p c @ xs) = Some (1, [Crc_bad])"
proof -
  let ?f = "frame_with_crc p c"
  have lt: "length p < 2 ^ 16" using assms by simp
  have fl: "frame_length ?f = of_nat (length p)"
    by (simp add: frame_length_def frame_with_crc_def be_decode_encode)
  then have n: "unat (frame_length ?f) = length p"
    using lt by (simp add: unat_of_nat take_bit_nat_eq_self)
  have len: "length ?f = length p + 6" by (simp add: frame_with_crc_def)
  have hd: "frame_header ?f" by (simp add: frame_header_def frame_with_crc_def be_decode_encode)
  have nz: "frame_length ?f \<noteq> 0" using n assms(1) by auto
  have mx: "\<not> MAX_PAYLOAD_SIZE < frame_length ?f"
    using n assms(2) by (simp add: packet_consts word_less_nat_alt)
  have "\<not> frame_crc_ok ?f"
    unfolding frame_crc_ok_def n Let_def using assms(3)
    by (simp add: frame_with_crc_def be_decode_encode frame_crc_def)
  with hd nz mx len n have "frame_step ?f = Some (1, [Crc_bad])" by (simp add: frame_step_def)
  then show ?thesis by (rule frame_step_append)
qed

lemma build_packet_frame:
  assumes "build_packet t corrupt = Some bs"
  obtains p where "serialize_payload t = Some p"
    "bs = frame_with_crc p (if corrupt then frame_crc p XOR 0xBEEF else frame_crc p)"
proof -
  from assms obtain p where p: "serialize_payload t = Some p" "length p < 2 ^ 16"
    by (auto simp: build_packet_def split: option.splits if_splits)
  let ?raw = "be_encode PACKET_HEADER @ be_encode (of_nat (length p) :: u16) @ p"
  have w: "crc16_modbus ?raw = uint (frame_crc p)"
    by (simp only: crc16_modbus_crc_bytes crc_bytes_catalogue frame_crc_def)
  have x: "word_of_int (uint (frame_crc p) XOR 0xBEEF) = frame_crc p XOR 0xBEEF"
  proof -
    have "uint (frame_crc p) XOR 0xBEEF = uint (frame_crc p XOR (0xBEEF :: u16))"
      by (simp add: unsigned_xor_eq)
    then show ?thesis by (simp only: word_of_int_uint)
  qed
  from assms p have "bs = frame_with_crc p (if corrupt then frame_crc p XOR 0xBEEF else frame_crc p)"
    by (simp add: build_packet_def Let_def w x frame_with_crc_def split: if_splits)
  with p(1) show thesis by (rule that)
qed

text \<open>Packets the server can carry: the payload fits into \<open>MAX_PAYLOAD_SIZE\<close>.\<close>

definition sendable :: "Telemetry \<Rightarrow> bool" where
  "sendable t \<longleftrightarrow>
     list_all (\<lambda>c. of_char c < (128 :: nat)) (drone_id t) \<and> length (drone_id t) \<le> 214"

lemma sendable_serialize:
  assumes "sendable t"
  shows "\<exists>p. serialize_payload t = Some p \<and> p \<noteq> [] \<and> length p \<le> 256"
proof -
  have "length (drone_id t) < 2 ^ 16" using assms by (simp add: sendable_def)
  with assms obtain p where p: "serialize_payload t = Some p"
    by (auto simp: sendable_def serialize_payload_def)
  from length_serialize_payload [OF p] have "length p \<le> 256" "p \<noteq> []"
    using assms by (auto simp: sendable_def)
  with p show ?thesis by simp
qed

lemma sendable_build_packet: "sendable t \<Longrightarrow> \<exists>bs. build_packet t corrupt = Some bs"
  using sendable_serialize [of t] by (auto simp: build_packet_def Let_def)

lemma length_build_packet:
  assumes "sendable t"
  shows "length (the (build_packet t corrupt)) = length (drone_id t) + 48"
proof -
  obtain bs where bs: "build_packet t corrupt = Some bs" using sendable_build_packet [OF assms] by blast
  then obtain p c where "serialize_payload t = Some p" "bs = frame_with_crc p c"
    by (auto elim: build_packet_frame)
  with bs length_serialize_payload [of t p] show ?thesis by (simp add: frame_with_crc_def)
qed

lemma scan_build_packet:
  assumes "sendable t" "build_packet t False = Some bs"
  shows "scan (bs @ xs) = (Packet t # fst (scan xs), snd (scan xs))"
proof -
  obtain p where p: "serialize_payload t = Some p" "bs = frame_bytes p"
    using build_packet_frame [OF assms(2)] by (auto simp: frame_bytes_eq)
  with sendable_serialize [OF assms(1)] have sz: "p \<noteq> []" "length p \<le> 256" by auto
  have "frame_content (frame_bytes p) = Packet t"
    using frame_bytes_parts(3,5) [of p] sz(2) decode_serialize [OF p(1)]
    by (simp add: frame_content_def)
  with scan_valid_frame [OF valid_frame_bytes [OF sz], of xs] p(2) show ?thesis by simp
qed

lemma scan_packets:
  "list_all sendable ts \<Longrightarrow> scan (concat (map (\<lambda>t. the (build_packet t False)) ts) @ xs) =
   (map Packet ts @ fst (scan xs), snd (scan xs))"
proof (induction ts)
  case Nil
  then show ?case by simp
next
  case (Cons t ts)
  then have t: "sendable t" by simp
  with sendable_build_packet [OF t, of False] scan_build_packet [OF t] Cons show ?case by auto
qed

lemma xor_beef: "c XOR 0xBEEF \<noteq> (c :: u16)"
proof
  assume "c XOR 0xBEEF = c"
  then have "c XOR 0xBEEF = c XOR 0" by simp
  then show False by (simp only: xor_cancel_left) simp
qed

lemma corrupt_packet_step:
  assumes "sendable t" "build_packet t True = Some bs"
  shows "frame_step (bs @ xs) = Some (1, [Crc_bad])"
proof -
  obtain p where p: "serialize_payload t = Some p" "bs = frame_with_crc p (frame_crc p XOR 0xBEEF)"
    using build_packet_frame [OF assms(2)] by auto
  with sendable_serialize [OF assms(1)] frame_step_wrong_crc [of p] xor_beef show ?thesis by auto
qed

lemma valid_build_packet:
  assumes "sendable t"
  shows "valid_frame (the (build_packet t False))"
proof -
  obtain bs where bs: "build_packet t False = Some bs" using sendable_build_packet [OF assms] by blast
  then obtain p where p: "serialize_payload t = Some p" "bs = frame_bytes p"
    by (auto simp: frame_bytes_eq elim: build_packet_frame)
  with sendable_serialize [OF assms] valid_frame_bytes [of p] bs show ?thesis by auto
qed

section \<open>Marker-free stretches\<close>

text \<open>No header starts within \<open>g\<close> when \<open>bs\<close> follows it.\<close>

definition marker_free :: "byte list \<Rightarrow> byte list \<Rightarrow> bool" where
  "marker_free g bs \<longleftrightarrow> list_all (\<lambda>i. \<not> frame_header (drop i (g @ bs))) [0..<length g]"

lemma scan_marker_free: "marker_free g bs \<Longrightarrow> 2 \<le> length bs \<Longrightarrow> scan (g @ bs) = scan bs"
  by (rule scan_skip_noise) (auto simp: marker_free_def list_all_iff)

lemma scan_marker_free_end: "marker_free g [] \<Longrightarrow> fst (scan g) = []"
proof (induction g)
  case (Cons x g)
  have free: "\<not> frame_header (drop i (x # g))" if "i < Suc (length g)" for i
    using Cons.prems that unfolding marker_free_def list_all_iff by (metis append_Nil2 atLeastLessThan_iff atLeast_upt
      length_Cons lessThan_iff)
  have "fst (scan g) = []"
    using free [of "Suc i" for i] by (intro Cons.IH) (simp add: marker_free_def list_all_iff)
  moreover have "\<not> frame_header (x # g)" using free [of 0] by simp
  then have "frame_step (x # g) = None \<or> frame_step (x # g) = Some (1, [])" by (auto simp: frame_step_def)
  ultimately show ?case by (auto simp: scan_None scan_Some)
qed simp

lemma scan_marker_free_fst:
  assumes "marker_free g bs" and "bs = [] \<or> 2 \<le> length bs"
  shows "fst (scan (g @ bs)) = fst (scan bs)"
  using assms scan_marker_free [of g bs] scan_marker_free_end [of g] by auto

lemma marker_free_no_AA:
  assumes "0xAA \<notin> set g" "2 \<le> length bs"
  shows "marker_free g bs"
  unfolding marker_free_def list_all_iff
proof (intro ballI notI)
  fix i assume i: "i \<in> set [0..<length g]" and h: "frame_header (drop i (g @ bs))"
  with assms(2) have "2 \<le> length (drop i (g @ bs))" by auto
  with h have "drop i (g @ bs) ! 0 = 0xAA" using frame_header_iff by blast
  then have "g ! i = 0xAA" using i by (simp add: nth_append)
  with i assms(1) show False by (auto simp: in_set_conv_nth)
qed

section \<open>Damage that the checksum detects\<close>

lemma bit_errors_same_prefix: "bit_errors (h @ p) (h @ p') = bit_errors p p'"
proof -
  have "popcount (0 :: byte) = 0" by (simp add: popcount_def)
  then show ?thesis by (induction h) (simp_all add: bit_errors_def)
qed

lemma frame_crc_odd_errors:
  assumes "length p' = length p" "odd (bit_errors p p')"
  shows "frame_crc p \<noteq> frame_crc p'"
proof
  let ?h = "be_encode PACKET_HEADER @ be_encode (of_nat (length p) :: u16)"
  assume "frame_crc p = frame_crc p'"
  then have "crc_bytes (?h @ p) 0xFFFF = crc_bytes (?h @ p') 0xFFFF"
    using assms(1) by (simp add: frame_crc_def flip: crc_bytes_catalogue)
  moreover have "length (?h @ p) = length (?h @ p')" using assms(1) by simp
  ultimately have "even (bit_errors (?h @ p) (?h @ p'))"
    using even_popcount_crc_bytes [of "?h @ p" "?h @ p'" "0xFFFF" "0xFFFF"]
    by (metis (full_types))
  then show False using assms(2) bit_errors_same_prefix [of ?h p p'] by metis
qed

lemma frame_crc_burst:
  assumes "(x, y) \<noteq> (x', y')"
  shows "frame_crc (a @ [x, y] @ b) \<noteq> frame_crc (a @ [x', y'] @ b)"
proof
  let ?h = "be_encode PACKET_HEADER @ be_encode (of_nat (length (a @ [x, y] @ b)) :: u16)"
  assume "frame_crc (a @ [x, y] @ b) = frame_crc (a @ [x', y'] @ b)"
  then have "crc_bytes b (crc_bytes [x, y] (crc_bytes (?h @ a) 0xFFFF)) =
      crc_bytes b (crc_bytes [x', y'] (crc_bytes (?h @ a) 0xFFFF))"
    by (simp add: frame_crc_def crc_bytes_append flip: crc_bytes_catalogue)
  then have "crc_bytes [x, y] (crc_bytes (?h @ a) 0xFFFF) = crc_bytes [x', y'] (crc_bytes (?h @ a) 0xFFFF)"
    by (rule crc_bytes_inj)
  then have "x = x' \<and> y = y'" by (intro crc_two_bytes_inj) (simp only: crc_bytes.simps)
  with assms show False by simp
qed

text \<open>Two payloads of the same length that differ in an odd number of bits, or only within two adjacent bytes.\<close>

definition detectable_damage :: "byte list \<Rightarrow> byte list \<Rightarrow> bool" where
  "detectable_damage p p' \<longleftrightarrow>
     length p' = length p \<and>
     (odd (bit_errors p p') \<or>
      (\<exists>a x y x' y' b. p = a @ [x, y] @ b \<and> p' = a @ [x', y'] @ b \<and> (x, y) \<noteq> (x', y')))"

lemma detectable_damage_crc: "detectable_damage p p' \<Longrightarrow> frame_crc p \<noteq> frame_crc p'"
  unfolding detectable_damage_def
  using frame_crc_odd_errors frame_crc_burst by metis

end
