(* ===== verification/Parser_Refinement.thy ===== *)
theory Parser_Refinement
  imports Streaming_Parser Stream_Spec
begin

text \<open>
  The state machine of \<open>StreamingParser\<close> implements the scan of \<open>Stream_Spec\<close>: for a client whose
  state agrees with its buffer, \<open>process_client\<close> returns normally, leaves in the buffer what the
  scan leaves, and pushes one effect per frame in stream order. From this follow the absence of
  exceptions and overflows in \<open>run\<close> and the independence of a client's packets from the way the
  network cut its stream into chunks and from the other clients.
\<close>

section \<open>Invariant of a client\<close>

fun state_agrees :: "State \<Rightarrow> u16 \<Rightarrow> byte list \<Rightarrow> bool" where
  "state_agrees WAIT_HEADER l bs = True"
| "state_agrees WAIT_LENGTH l bs = (2 \<le> length bs \<and> frame_header bs)"
| "state_agrees WAIT_PAYLOAD_AND_CRC l bs =
     (4 \<le> length bs \<and> frame_header bs \<and> l = frame_length bs \<and>
      l \<noteq> 0 \<and> \<not> MAX_PAYLOAD_SIZE < l)"

definition client_bytes :: "ClientState \<Rightarrow> byte list" where
  "client_bytes cs = contents (ring_buffer cs)"

definition client_inv :: "ClientState \<Rightarrow> bool" where
  "client_inv cs \<longleftrightarrow>
     rb_inv (ring_buffer cs) \<and> m_capacity (ring_buffer cs) = DEFAULT_CAPACITY \<and>
     state_agrees (state cs) (payload_length cs) (client_bytes cs)"

text \<open>Bytes that arrive later keep the agreement.\<close>

lemma state_agrees_append: "state_agrees st l bs \<Longrightarrow> state_agrees st l (bs @ xs)"
  by (cases st) (auto simp: frame_header_append frame_length_append)

section \<open>Effects of a frame\<close>

fun frame_effect :: "frame \<Rightarrow> effect" where
  "frame_effect (Packet t) = Parsed t"
| "frame_effect Malformed =
     Log (''[StreamingParser] Malformed payload '' @ em_dash @ '' skipping'' @ newline)"
| "frame_effect Crc_bad =
     Log (''[StreamingParser] CRC mismatch '' @ em_dash @ '' resyncing'' @ newline)"

fun is_packet :: "frame \<Rightarrow> bool" where
  "is_packet (Packet _) = True"
| "is_packet _ = False"

definition n_failures :: "frame list \<Rightarrow> u64" where
  "n_failures fs = of_nat (length (filter (\<lambda>f. \<not> is_packet f) fs))"

text \<open>What the loop will have produced when it returns, read off the current state.\<close>

definition outcome :: "parse_state \<Rightarrow> byte list \<times> effect list \<times> u64" where
  "outcome s =
     (let (fs, rest) = scan (client_bytes (ps_client s)) in
      (rest, ps_out s @ map frame_effect fs, ps_failures s + n_failures fs))"

lemma n_failures_simps [simp]:
  "n_failures [] = 0" "n_failures (Crc_bad # fs) = 1 + n_failures fs"
  "n_failures (Malformed # fs) = 1 + n_failures fs" "n_failures (Packet t # fs) = n_failures fs"
  by (simp_all add: n_failures_def)

lemma outcome_Done:
  "frame_step (client_bytes (ps_client s)) = None \<Longrightarrow>
   outcome s = (client_bytes (ps_client s), ps_out s, ps_failures s)"
  by (simp add: outcome_def scan_None)

lemma outcome_Step:
  assumes "frame_step (client_bytes (ps_client s)) = Some (k, es)"
    and "client_bytes (ps_client s') = drop k (client_bytes (ps_client s))"
    and "ps_out s' = ps_out s @ map frame_effect es"
    and "ps_failures s' = ps_failures s + n_failures es"
  shows "outcome s' = outcome s"
  using assms by (simp add: outcome_def scan_Some split_def Let_def n_failures_def add.assoc)

text \<open>What one turn may do.\<close>

definition good_turn :: "parse_state \<Rightarrow> control \<times> parse_state \<Rightarrow> bool" where
  "good_turn s r \<longleftrightarrow>
     (case r of
        (Return, s') \<Rightarrow> s' = s \<and> frame_step (client_bytes (ps_client s)) = None
      | (Continue, s') \<Rightarrow> client_inv (ps_client s') \<and> outcome s' = outcome s
      | (Throw e, s') \<Rightarrow> False)"

lemma client_invD:
  assumes "client_inv cs"
  shows "rb_inv (ring_buffer cs)" "rb_size (ring_buffer cs) = length (client_bytes cs)"
    "state_agrees (state cs) (payload_length cs) (client_bytes cs)"
    "m_capacity (ring_buffer cs) = DEFAULT_CAPACITY"
  using assms by (auto simp: client_inv_def client_bytes_def rb_size_def)

lemma client_peek:
  "client_inv cs \<Longrightarrow> length d \<le> length (client_bytes cs) \<Longrightarrow>
   peek (ring_buffer cs) d = Inr (take (length d) (client_bytes cs))"
  using rb.peek_fits [of "ring_buffer cs" d] by (simp add: client_inv_def client_bytes_def)

lemma client_consume:
  assumes "client_inv cs" "n \<le> length (client_bytes cs)"
  obtains rb where "consume (ring_buffer cs) n = Inr rb" "rb_inv rb"
    "contents rb = drop n (client_bytes cs)" "m_capacity rb = DEFAULT_CAPACITY"
  using rb.consume_fits [of "ring_buffer cs" n] assms that
  by (auto simp: client_inv_def client_bytes_def capacity_def)

text \<open>
  The two ways to go on: the buffer stays and the state advances, or the bytes of a step of the scan
  are consumed and their effects recorded.
\<close>

lemma good_turn_advance:
  assumes "client_inv (ps_client s)" and "ring_buffer (ps_client s') = ring_buffer (ps_client s)"
    and "state_agrees (state (ps_client s')) (payload_length (ps_client s')) (client_bytes (ps_client s))"
    and "ps_out s' = ps_out s" and "ps_failures s' = ps_failures s"
  shows "good_turn s (Continue, s')"
  using assms by (simp add: good_turn_def client_inv_def client_bytes_def outcome_def)

lemma good_turn_consume:
  fixes s :: parse_state
  assumes inv: "client_inv (ps_client s)" and fs: "frame_step (client_bytes (ps_client s)) = Some (k, es)"
  shows "\<exists>rb. consume (ring_buffer (ps_client s)) k = Inr rb \<and>
    (\<forall>s' :: parse_state. ring_buffer (ps_client s') = rb \<longrightarrow> state (ps_client s') = WAIT_HEADER \<longrightarrow>
       ps_out s' = ps_out s @ map frame_effect es \<longrightarrow> ps_failures s' = ps_failures s + n_failures es \<longrightarrow>
       good_turn s (Continue, s'))"
proof -
  have "k \<le> length (client_bytes (ps_client s))" using frame_step_bounds [OF fs] by simp
  then obtain rb where rb: "consume (ring_buffer (ps_client s)) k = Inr rb" "rb_inv rb"
      "contents rb = drop k (client_bytes (ps_client s))" "m_capacity rb = DEFAULT_CAPACITY"
    by (rule client_consume [OF inv])
  then show ?thesis
    by (auto simp: good_turn_def client_inv_def client_bytes_def intro!: outcome_Step [OF fs])
qed

section \<open>The three states\<close>

lemma be_decode_peeked:
  "length bs = 2 \<Longrightarrow> from_big_endian native (load native bs) = (be_decode bs :: u16)"
  by (simp add: from_big_endian_load)

lemma wait_header_turn:
  assumes inv: "client_inv (ps_client s)" and st: "state (ps_client s) = WAIT_HEADER"
  shows "good_turn s (wait_header native s)"
proof -
  let ?cs = "ps_client s" let ?bs = "client_bytes ?cs"
  note size = client_invD(2) [OF inv]
  consider "length ?bs < 2" | "2 \<le> length ?bs" "frame_header ?bs" | "2 \<le> length ?bs" "\<not> frame_header ?bs"
    by linarith
  then show ?thesis
  proof cases
    case 1
    then show ?thesis by (simp add: good_turn_def wait_header_def size HEADER_SIZE_def frame_step_def)
  next
    case 2
    then show ?thesis
      using client_peek [OF inv, of "replicate HEADER_SIZE 0"]
      by (simp add: wait_header_def size HEADER_SIZE_def be_decode_peeked frame_header_def Let_def
          good_turn_advance [OF inv])
  next
    case 3
    then have "frame_step ?bs = Some (1, [])" by (simp add: frame_step_def)
    then show ?thesis
      using 3 st client_peek [OF inv, of "replicate HEADER_SIZE 0"] good_turn_consume [OF inv, of 1 "[]"]
      by (auto simp: wait_header_def size HEADER_SIZE_def be_decode_peeked frame_header_def Let_def)
  qed
qed

lemma wait_length_turn:
  assumes inv: "client_inv (ps_client s)" and st: "state (ps_client s) = WAIT_LENGTH"
  shows "good_turn s (wait_length native s)"
proof -
  let ?cs = "ps_client s" let ?bs = "client_bytes ?cs" let ?l = "frame_length ?bs"
  have hdr: "2 \<le> length ?bs" "frame_header ?bs" using client_invD(3) [OF inv] st by simp_all
  show ?thesis
  proof (cases "length ?bs < 4")
    case True
    then show ?thesis
      using hdr by (simp add: good_turn_def wait_length_def client_invD(2) [OF inv] packet_consts frame_step_def)
  next
    case False
    let ?s' = "\<lambda>rb st. s\<lparr>ps_client := ?cs\<lparr>payload_length := ?l, ring_buffer := rb, state := st\<rparr>\<rparr>"
    have turn: "wait_length native s =
        (if ?l = 0 \<or> MAX_PAYLOAD_SIZE < ?l then
           (case consume (ring_buffer ?cs) 1 of Inr rb \<Rightarrow> (Continue, ?s' rb WAIT_HEADER)
            | Inl e \<Rightarrow> (Throw e, s\<lparr>ps_client := ?cs\<lparr>payload_length := ?l\<rparr>\<rparr>))
         else (Continue, ?s' (ring_buffer ?cs) WAIT_PAYLOAD_AND_CRC))"
      using client_peek [OF inv, of "replicate (HEADER_SIZE + LENGTH_SIZE) 0"] False
      by (simp add: wait_length_def client_invD(2) [OF inv] packet_consts be_decode_peeked
          frame_length_def drop_take Let_def split: sum.splits)
    show ?thesis
    proof (cases "?l = 0 \<or> MAX_PAYLOAD_SIZE < ?l")
      case True
      then have "frame_step ?bs = Some (1, [])" using False hdr by (simp add: frame_step_def)
      then show ?thesis using True turn good_turn_consume [OF inv, of 1 "[]"] by auto
    next
      case ok: False
      then show ?thesis using False hdr turn by (simp add: good_turn_advance [OF inv])
    qed
  qed
qed

lemma crc_mismatch_turn:
  assumes inv: "client_inv (ps_client s)"
    and fs: "frame_step (client_bytes (ps_client s)) = Some (1, [Crc_bad])"
  shows "good_turn s (crc_mismatch s)"
  using good_turn_consume [OF assms] by (auto simp: crc_mismatch_def Let_def)

lemma accept_packet_turn:
  fixes s :: parse_state
  defines "bs \<equiv> client_bytes (ps_client s)"
  defines "n \<equiv> unat (frame_length bs)"
  assumes inv: "client_inv (ps_client s)"
    and fs: "frame_step bs = Some (n + 6, [frame_content bs])"
    and len: "payload_length (ps_client s) = frame_length bs"
    and scratch: "scratch_buf (ps_client s) = take (n + 6) bs"
  shows "good_turn s (accept_packet native (n + 6) s)"
proof -
  let ?cs = "ps_client s"
  have long: "n + 6 \<le> length bs" using frame_step_bounds [OF fs] by simp
  have "n \<le> vector_max_size" using unsigned_less [of "frame_length bs", where 'a = nat]
    by (simp add: n_def vector_max_size_def)
  then have "deserialize_payload native (drop 4 (take (n + 6) bs)) n =
      Inr (decode_payload (take n (drop 4 bs)))"
    using long by (simp add: deserialize_payload_decode drop_take)
  then show ?thesis
    using good_turn_consume [OF inv fs [unfolded bs_def]] len scratch
    by (auto simp: accept_packet_def Let_def packet_consts frame_content_def n_def bs_def split: option.splits)
qed

text \<open>With a whole frame in the buffer, the third state compares the checksums and goes on accordingly.\<close>

lemma wait_payload_whole_frame:
  fixes s :: parse_state
  defines "bs \<equiv> client_bytes (ps_client s)"
  defines "n \<equiv> unat (frame_length bs)"
  defines "s1 \<equiv> s\<lparr>ps_client := (ps_client s)\<lparr>scratch_buf := take (n + 6) bs\<rparr>\<rparr>"
  assumes inv: "client_inv (ps_client s)" and len: "payload_length (ps_client s) = frame_length bs"
    and whole: "n + 6 \<le> length bs"
  shows "wait_payload_and_crc native s =
    (if frame_crc_ok bs then accept_packet native (n + 6) s1 else crc_mismatch s1)"
proof -
  have pk: "peek (ring_buffer (ps_client s)) (vector_resize (scratch_buf (ps_client s)) (n + 6)) =
      Inr (take (n + 6) bs)"
    using client_peek [OF inv, of "vector_resize (scratch_buf (ps_client s)) (n + 6)"] whole by (simp add: bs_def)
  have crc: "compute_crc16 (take (n + 6) bs) (n + 4) = Inr (crc16_catalogue (take (n + 4) bs))"
    using whole by (simp add: compute_crc16_prefix crc_bytes_catalogue min_absorb1)
  have raw: "read_mem (take (n + 6) bs) (n + 4) CRC_SIZE = Inr (take 2 (drop (n + 4) bs))"
    using whole by (simp add: read_mem_def packet_consts drop_take)
  have ok: "from_big_endian native (load native (take 2 (drop (n + 4) bs))) =
      crc16_catalogue (take (n + 4) bs) \<longleftrightarrow> frame_crc_ok bs"
    using whole by (simp add: be_decode_peeked frame_crc_ok_def Let_def n_def)
  show ?thesis
    using whole ok client_invD(2) [OF inv, folded bs_def] pk crc raw
    by (simp add: wait_payload_and_crc_def Let_def len total_len_exact n_def [symmetric] s1_def)
qed

lemma wait_payload_turn:
  assumes inv: "client_inv (ps_client s)" and st: "state (ps_client s) = WAIT_PAYLOAD_AND_CRC"
  shows "good_turn s (wait_payload_and_crc native s)"
proof -
  let ?cs = "ps_client s" let ?bs = "client_bytes ?cs" let ?n = "unat (frame_length ?bs)"
  have ag: "4 \<le> length ?bs" "frame_header ?bs" "payload_length ?cs = frame_length ?bs"
    "frame_length ?bs \<noteq> 0" "\<not> MAX_PAYLOAD_SIZE < frame_length ?bs"
    using client_invD(3) [OF inv] st by auto
  show ?thesis
  proof (cases "length ?bs < ?n + 6")
    case True
    with ag show ?thesis
      by (simp add: good_turn_def wait_payload_and_crc_def Let_def total_len_exact client_invD(2) [OF inv]
          frame_step_def)
  next
    case False
    define s1 where "s1 = s\<lparr>ps_client := ?cs\<lparr>scratch_buf := take (?n + 6) ?bs\<rparr>\<rparr>"
    have same: "client_bytes (ps_client s1) = ?bs" by (simp add: s1_def client_bytes_def)
    then have inv1: "client_inv (ps_client s1)" and out1: "outcome s1 = outcome s"
      using inv by (simp_all add: client_inv_def outcome_def s1_def)
    have turn: "wait_payload_and_crc native s =
        (if frame_crc_ok ?bs then accept_packet native (?n + 6) s1 else crc_mismatch s1)"
      unfolding s1_def by (rule wait_payload_whole_frame [OF inv ag(3)]) (use False in simp)
    have "frame_step ?bs = (if frame_crc_ok ?bs then Some (?n + 6, [frame_content ?bs]) else Some (1, [Crc_bad]))"
      using ag False by (simp add: frame_step_def)
    then have "good_turn s1 (wait_payload_and_crc native s)"
      using accept_packet_turn [OF inv1, unfolded same, of native] crc_mismatch_turn [OF inv1, unfolded same] ag(3)
      by (auto simp: turn s1_def split: if_splits)
    moreover have "fst (wait_payload_and_crc native s) \<noteq> Return"
      by (auto simp: turn accept_packet_def crc_mismatch_def Let_def split: sum.splits option.splits)
    ultimately show ?thesis using out1 by (auto simp: good_turn_def split: prod.splits control.splits)
  qed
qed

lemma process_iter_turn: "client_inv (ps_client s) \<Longrightarrow> good_turn s (process_iter native s)"
  by (auto simp: process_iter_def wait_header_turn wait_length_turn wait_payload_turn
      split: State.splits)

section \<open>The whole loop\<close>

lemma process_client_scan:
  assumes "client_inv (ps_client s)"
  shows "\<exists>s'. process_client native s = (None, s') \<and> client_inv (ps_client s') \<and>
           outcome s = (client_bytes (ps_client s'), ps_out s', ps_failures s')"
  using assms
proof (induction native s rule: process_client.induct)
  case (1 native s)
  have turn: "good_turn s (process_iter native s)" by (rule process_iter_turn [OF "1.prems"])
  show ?case
  proof (cases "process_iter native s")
    case (Pair c s')
    with turn show ?thesis
    proof (cases c)
      case Return
      with turn Pair have "s' = s" "outcome s = (client_bytes (ps_client s), ps_out s, ps_failures s)"
        by (simp_all add: good_turn_def outcome_Done)
      with "1.prems" Pair Return show ?thesis by (simp add: process_client.simps [of native s])
    next
      case Continue
      with turn Pair have "client_inv (ps_client s')" "outcome s' = outcome s"
        by (simp_all add: good_turn_def)
      with "1.IH" [OF Pair [symmetric] Continue] Pair Continue show ?thesis
        by (simp add: process_client.simps [of native s])
    next
      case (Throw e)
      with turn Pair show ?thesis by (simp add: good_turn_def)
    qed
  qed
qed

section \<open>The parser as a server of byte streams\<close>

text \<open>
  The specification of the parser thread: for every connected client the undecided tail of its
  stream, and the failure counter. A chunk extends the tail; what the scan decides is pushed out.
\<close>

type_synonym streams = "(int \<rightharpoonup> byte list) \<times> u64"

fun stream_step :: "streams \<Rightarrow> DataChunk \<Rightarrow> streams \<times> (cpp_error option \<times> effect list)" where
  "stream_step (tails, failures) chunk =
     (let fd = client_id chunk in
      if chunk_data chunk = [] then
        ((tails(fd := None), failures),
         (None, [Log (''[StreamingParser] Cleaned up state for client fd='' @
                   int_to_string fd @ newline)]))
      else let (fs, rest) = scan ((case tails fd of None \<Rightarrow> [] | Some t \<Rightarrow> t) @ chunk_data chunk) in
        ((tails(fd \<mapsto> rest), failures + n_failures fs), (None, map frame_effect fs)))"

definition parser_step ::
  "endian \<Rightarrow> StreamingParser \<Rightarrow> DataChunk \<Rightarrow> StreamingParser \<times> (cpp_error option \<times> effect list)" where
  "parser_step native p chunk = (case handle_chunk native p chunk of (e, p', out) \<Rightarrow> (p', (e, out)))"

definition parser_inv :: "StreamingParser \<Rightarrow> bool" where
  "parser_inv p \<longleftrightarrow>
     (\<forall>fd cs. m_clients p fd = Some cs \<longrightarrow> client_inv cs \<and> frame_step (client_bytes cs) = None)"

definition parser_abs :: "StreamingParser \<Rightarrow> streams" where
  "parser_abs p = ((\<lambda>fd. map_option client_bytes (m_clients p fd)), m_crc_failures p)"

text \<open>The listener never sends more than its receive buffer; any chunk up to 65275 bytes would do.\<close>

definition chunk_fits :: "DataChunk \<Rightarrow> bool" where
  "chunk_fits chunk \<longleftrightarrow> length (chunk_data chunk) + 261 \<le> DEFAULT_CAPACITY"

lemma default_ClientState_ok:
  "\<exists>cs. default_ClientState = Inr cs \<and> client_inv cs \<and> client_bytes cs = []"
proof -
  obtain rb where "RingBuffer_ctor DEFAULT_CAPACITY = Inr rb" "rb_inv rb" "contents rb = []"
    "m_capacity rb = DEFAULT_CAPACITY"
    using ctor_ok [of DEFAULT_CAPACITY] by (auto simp: DEFAULT_CAPACITY_def vector_max_size_def)
  then show ?thesis by (auto simp: default_ClientState_def client_inv_def client_bytes_def)
qed

lemma client_or_default_ok:
  assumes "parser_inv p"
  obtains cs where "client_or_default p fd = Inr cs" "client_inv cs"
    "length (client_bytes cs) \<le> 261"
    "client_bytes cs = (case fst (parser_abs p) fd of None \<Rightarrow> [] | Some t \<Rightarrow> t)"
proof (cases "m_clients p fd")
  case None
  obtain cs where "default_ClientState = Inr cs" "client_inv cs" "client_bytes cs = []"
    using default_ClientState_ok by blast
  with None show ?thesis
    by (intro that) (simp_all add: client_or_default_def parser_abs_def)
next
  case (Some cs)
  with assms have "client_inv cs" "frame_step (client_bytes cs) = None"
    by (auto simp: parser_inv_def)
  with Some frame_step_None_short [of "client_bytes cs"] show ?thesis
    by (intro that) (simp_all add: client_or_default_def parser_abs_def)
qed

lemma client_push:
  assumes inv: "client_inv cs" and fits: "length (client_bytes cs) + length xs \<le> DEFAULT_CAPACITY"
  obtains rb where "push (ring_buffer cs) xs = Inr rb" "client_inv (cs\<lparr>ring_buffer := rb\<rparr>)"
    "client_bytes (cs\<lparr>ring_buffer := rb\<rparr>) = client_bytes cs @ xs"
proof -
  from rb.push_fits [of "ring_buffer cs" xs] inv fits obtain rb where rb:
    "push (ring_buffer cs) xs = Inr rb" "rb_inv rb" "contents rb = client_bytes cs @ xs"
    "m_capacity rb = DEFAULT_CAPACITY"
    by (auto simp: client_inv_def client_bytes_def capacity_def)
  moreover from rb inv have "client_inv (cs\<lparr>ring_buffer := rb\<rparr>)"
    by (auto simp: client_inv_def client_bytes_def intro: state_agrees_append)
  ultimately show thesis by (intro that) (simp_all add: client_bytes_def)
qed

lemma handle_chunk_data:
  assumes inv: "parser_inv p" and fits: "chunk_fits chunk" and ne: "chunk_data chunk \<noteq> []"
  obtains s :: parse_state where
    "handle_chunk native p chunk =
       (None, (store_client p (client_id chunk) (ps_client s))\<lparr>m_crc_failures := ps_failures s\<rparr>, ps_out s)"
    "client_inv (ps_client s)"
    "stream_step (parser_abs p) chunk =
       (((fst (parser_abs p))(client_id chunk \<mapsto> client_bytes (ps_client s)), ps_failures s),
        (None, ps_out s))"
    "frame_step (client_bytes (ps_client s)) = None"
proof -
  obtain cs where cs: "client_or_default p (client_id chunk) = Inr cs" "client_inv cs"
    "length (client_bytes cs) \<le> 261"
    "client_bytes cs = (case fst (parser_abs p) (client_id chunk) of None \<Rightarrow> [] | Some t \<Rightarrow> t)"
    by (rule client_or_default_ok [OF inv])
  have "length (client_bytes cs) + length (chunk_data chunk) \<le> DEFAULT_CAPACITY"
    using fits cs(3) by (simp add: chunk_fits_def)
  then obtain rb where rb: "push (ring_buffer cs) (chunk_data chunk) = Inr rb"
    "client_inv (cs\<lparr>ring_buffer := rb\<rparr>)"
    "client_bytes (cs\<lparr>ring_buffer := rb\<rparr>) = client_bytes cs @ chunk_data chunk"
    by (rule client_push [OF cs(2)])
  let ?s0 = "\<lparr>ps_client = cs\<lparr>ring_buffer := rb\<rparr>, ps_failures = m_crc_failures p, ps_out = []\<rparr>"
  obtain s where s: "process_client native ?s0 = (None, s)" "client_inv (ps_client s)"
    "outcome ?s0 = (client_bytes (ps_client s), ps_out s, ps_failures s)"
    using process_client_scan [of ?s0 native] rb(2) by auto
  have out: "client_bytes (ps_client s) = snd (scan (client_bytes cs @ chunk_data chunk))"
    "ps_out s = map frame_effect (fst (scan (client_bytes cs @ chunk_data chunk)))"
    "ps_failures s = m_crc_failures p + n_failures (fst (scan (client_bytes cs @ chunk_data chunk)))"
    using s(3) by (simp_all add: outcome_def rb(3) split_def Let_def)
  show thesis
  proof (rule that [of s])
    show "client_inv (ps_client s)" by (rule s(2))
    show "handle_chunk native p chunk =
       (None, (store_client p (client_id chunk) (ps_client s))\<lparr>m_crc_failures := ps_failures s\<rparr>, ps_out s)"
      using ne cs(1) rb(1) s(1) by (simp add: handle_chunk_def Let_def)
    show "stream_step (parser_abs p) chunk =
       (((fst (parser_abs p))(client_id chunk \<mapsto> client_bytes (ps_client s)), ps_failures s),
        (None, ps_out s))"
      using ne by (simp add: parser_abs_def split_def Let_def out cs(4))
    show "frame_step (client_bytes (ps_client s)) = None" by (simp add: out(1) frame_step_rest)
  qed
qed

lemma parser_step_simulates:
  assumes inv: "parser_inv p" and fits: "chunk_fits chunk"
  shows "parser_inv (fst (parser_step native p chunk)) \<and>
         stream_step (parser_abs p) chunk =
           (parser_abs (fst (parser_step native p chunk)), snd (parser_step native p chunk))"
proof (cases "chunk_data chunk = []")
  case True
  then have h: "handle_chunk native p chunk = (None, erase_client p (client_id chunk),
      [Log (''[StreamingParser] Cleaned up state for client fd='' @
         int_to_string (client_id chunk) @ newline)])"
    by (simp add: handle_chunk_def Let_def)
  have "parser_inv (erase_client p (client_id chunk))"
    using inv by (auto simp: parser_inv_def erase_client_def)
  with True h show ?thesis
    by (auto simp: parser_step_def parser_abs_def erase_client_def Let_def fun_eq_iff)
next
  case False
  show ?thesis
  proof (rule handle_chunk_data [OF inv fits False, of native])
    fix s
    assume h: "handle_chunk native p chunk =
       (None, (store_client p (client_id chunk) (ps_client s))\<lparr>m_crc_failures := ps_failures s\<rparr>, ps_out s)"
      "client_inv (ps_client s)"
      "stream_step (parser_abs p) chunk =
       (((fst (parser_abs p))(client_id chunk \<mapsto> client_bytes (ps_client s)), ps_failures s),
        (None, ps_out s))"
      "frame_step (client_bytes (ps_client s)) = None"
    then show ?thesis using inv
      by (auto simp: parser_step_def parser_inv_def parser_abs_def store_client_def fun_eq_iff)
  qed
qed

interpretation srv: functional_refinement "parser_step native" stream_step parser_inv parser_abs chunk_fits
  for native
  by unfold_locales (use parser_step_simulates in blast)+

end
