(* ===== verification/Parser_Properties.thy ===== *)
theory Parser_Properties
  imports Parser_Refinement
begin

text \<open>
  What the parser thread promises, over the definitions of \<open>Streaming_Parser\<close>: the thread function
  gives exactly the outputs of the stream specification, a client's packets depend on its own bytes
  only, packets of the load test's encoder come out as they went in, and the framing is sound,
  complete and resynchronises.
\<close>

section \<open>Streams of one client\<close>

definition stream_of :: "int \<Rightarrow> DataChunk list \<Rightarrow> byte list" where
  "stream_of fd chunks = concat (map chunk_data (filter (\<lambda>c. client_id c = fd) chunks))"

definition effects_of ::
  "int \<Rightarrow> DataChunk list \<Rightarrow> (cpp_error option \<times> effect list) list \<Rightarrow> effect list" where
  "effects_of fd chunks outs =
     concat (map2 (\<lambda>c r. if client_id c = fd then snd r else []) chunks outs)"

definition after_chunks :: "endian \<Rightarrow> DataChunk list \<Rightarrow> StreamingParser" where
  "after_chunks native chunks = fst (run_steps (parser_step native) initial_parser chunks)"

definition keeps_open :: "int \<Rightarrow> DataChunk list \<Rightarrow> bool" where
  "keeps_open fd chunks \<longleftrightarrow> list_all (\<lambda>c. client_id c = fd \<longrightarrow> chunk_data c \<noteq> []) chunks"

lemma initial_parser_inv [simp]: "parser_inv initial_parser"
  by (simp add: parser_inv_def initial_parser_def)

lemma initial_parser_abs [simp]: "parser_abs initial_parser = (Map.empty, 0)"
  by (simp add: parser_abs_def initial_parser_def)

lemma run_steps_append:
  "run_steps f s (xs @ ys) =
     (let (s1, os1) = run_steps f s xs; (s2, os2) = run_steps f s1 ys in (s2, os1 @ os2))"
  by (induction xs arbitrary: s) (auto simp: split_def Let_def)

text \<open>The undecided bytes of a client; a client that is not connected has none.\<close>

definition tail_of :: "int \<Rightarrow> (int \<rightharpoonup> byte list) \<Rightarrow> byte list" where
  "tail_of fd tails = (case tails fd of None \<Rightarrow> [] | Some t \<Rightarrow> t)"

lemma stream_step_other:
  "stream_step (tails, n) c = ((tails1, n1), r) \<Longrightarrow> client_id c \<noteq> fd \<Longrightarrow>
   tail_of fd tails1 = tail_of fd tails"
  by (auto simp: tail_of_def split_def Let_def split: if_splits)

lemma stream_step_own:
  "stream_step (tails, n) c = ((tails1, n1), r) \<Longrightarrow> client_id c = fd \<Longrightarrow> chunk_data c \<noteq> [] \<Longrightarrow>
   tail_of fd tails1 = snd (scan (tail_of fd tails @ chunk_data c)) \<and>
   snd r = map frame_effect (fst (scan (tail_of fd tails @ chunk_data c)))"
  by (auto simp: tail_of_def split_def Let_def)

lemma streams_one_client:
  assumes "keeps_open fd chunks" and "frame_step (tail_of fd tails) = None"
  shows "effects_of fd chunks (snd (run_steps stream_step (tails, n) chunks)) =
           map frame_effect (fst (scan (tail_of fd tails @ stream_of fd chunks))) \<and>
         tail_of fd (fst (fst (run_steps stream_step (tails, n) chunks))) =
           snd (scan (tail_of fd tails @ stream_of fd chunks))"
  using assms
proof (induction chunks arbitrary: tails n)
  case Nil
  then show ?case by (simp add: effects_of_def stream_of_def scan_None)
next
  case (Cons c chunks)
  obtain tails1 n1 r where st: "stream_step (tails, n) c = ((tails1, n1), r)"
    by (metis surj_pair)
  have ko: "keeps_open fd chunks" using Cons.prems(1) by (simp add: keeps_open_def)
  show ?case
  proof (cases "client_id c = fd")
    case True
    with Cons.prems(1) have "chunk_data c \<noteq> []" by (simp add: keeps_open_def)
    note own = stream_step_own [OF st True this]
    then have "frame_step (tail_of fd tails1) = None" by (simp add: frame_step_rest)
    with Cons.IH [OF ko, of tails1 n1] show ?thesis
      using True own scan_append [of "tail_of fd tails @ chunk_data c" "stream_of fd chunks"]
      by (simp add: effects_of_def stream_of_def st split_def Let_def del: stream_step.simps)
  next
    case False
    note stream_step_other [OF st False]
    with Cons.IH [OF ko, of tails1 n1] Cons.prems(2) False show ?thesis
      by (simp add: effects_of_def stream_of_def st split_def Let_def del: stream_step.simps)
  qed
qed

lemma parser_one_client:
  assumes inv: "parser_inv p" and fits: "list_all chunk_fits chunks"
    and fresh: "m_clients p fd = None" and ko: "keeps_open fd chunks"
  shows "effects_of fd chunks (snd (run_steps (parser_step native) p chunks)) =
         map frame_effect (fst (scan (stream_of fd chunks)))"
proof -
  have run: "snd (run_steps stream_step (parser_abs p) chunks) = snd (run_steps (parser_step native) p chunks)"
    by (simp add: srv.run_abs [OF inv fits, of native])
  have "tail_of fd (fst (parser_abs p)) = []" using fresh by (simp add: parser_abs_def tail_of_def)
  then show ?thesis
    using streams_one_client [OF ko, of "fst (parser_abs p)" "snd (parser_abs p)"]
    by (simp add: frame_step_def flip: run)
qed

lemma after_chunks_inv: "list_all chunk_fits chunks \<Longrightarrow> parser_inv (after_chunks native chunks)"
  by (simp add: after_chunks_def srv.run_inv)

lemma after_chunks_abs:
  "list_all chunk_fits chunks \<Longrightarrow>
   parser_abs (after_chunks native chunks) = fst (run_steps stream_step (Map.empty, 0) chunks)"
  using srv.run_abs [OF initial_parser_inv, of chunks native] by (simp add: after_chunks_def)

lemma after_chunks_tail:
  assumes "list_all chunk_fits chunks"
  shows "map_option client_bytes (m_clients (after_chunks native chunks) fd) =
         fst (fst (run_steps stream_step (Map.empty, 0) chunks)) fd"
  using after_chunks_abs [OF assms, of native] by (metis fst_conv parser_abs_def)

section \<open>The thread function\<close>

lemma run_loop_chunks:
  assumes "parser_inv p" "list_all chunk_fits chunks"
  shows "run_loop native p (map (\<lambda>c. (False, Some c)) chunks @ turns) =
    (let (p', outs) = run_steps (parser_step native) p chunks;
         (r, p'', out) = run_loop native p' turns
     in (r, p'', concat (map snd outs) @ out))"
  using assms
proof (induction chunks arbitrary: p)
  case Nil
  then show ?case by (simp add: split_def Let_def)
next
  case (Cons c chunks)
  from Cons.prems have c: "chunk_fits c" and cs: "list_all chunk_fits chunks" by simp_all
  obtain e p' out where h: "handle_chunk native p c = (e, p', out)" by (metis prod_cases3)
  from parser_step_simulates [OF Cons.prems(1) c, of native]
  have sim: "parser_inv p'" "stream_step (parser_abs p) c = (parser_abs p', (e, out))"
    by (simp_all add: parser_step_def h)
  then have "e = None" by (cases "parser_abs p") (auto simp: split_def Let_def split: if_splits)
  with Cons.IH [OF sim(1) cs] h show ?case
    by (simp add: parser_step_def split_def Let_def)
qed

text \<open>
  C4: on any sequence of chunks no larger than the ring buffer can take next to an undecided tail
  (the listener's are), the parser thread returns normally once it is stopped; its outputs are,
  chunk by chunk, those of the stream specification between the start and shutdown messages, and
  the failures it reports are those of the specification. No buffer overflow, no unexpected error
  and no undefined behaviour occurs.
\<close>

theorem parser_thread_implements_streams:
  assumes "list_all chunk_fits chunks"
  shows "\<exists>p. run native initial_parser (map (\<lambda>c. (False, Some c)) chunks @ [(True, popped)]) =
      (Finished, p,
       Log (''[StreamingParser] Running'' @ newline) #
       concat (map snd (snd (run_steps stream_step (Map.empty, 0) chunks))) @
       [Log (''[StreamingParser] Shutting down (CRC failures: '' @
         to_string (unat (snd (fst (run_steps stream_step (Map.empty, 0) chunks)))) @ '')'' @ newline)]) \<and>
      parser_abs p = fst (run_steps stream_step (Map.empty, 0) chunks)"
proof -
  have "run_steps stream_step (Map.empty, 0) chunks =
      (parser_abs (after_chunks native chunks), snd (run_steps (parser_step native) initial_parser chunks))"
    using srv.run_abs [OF initial_parser_inv assms, of native] by (simp add: after_chunks_def)
  then show ?thesis
    using run_loop_chunks [OF initial_parser_inv assms, of native "[(True, popped)]"]
    by (simp add: run_def split_def Let_def after_chunks_def parser_abs_def)
qed

text \<open>Chunks for the witnesses: noise and a false header from one client, then its disconnect.\<close>

definition noise_chunks :: "DataChunk list" where
  "noise_chunks =
     [\<lparr>client_id = 5, chunk_data = [1, 2, 0xAA]\<rparr>, \<lparr>client_id = 5, chunk_data = [0x55, 0, 0, 3]\<rparr>,
      \<lparr>client_id = 5, chunk_data = []\<rparr>]"

lemma noise_chunks_fit: "list_all chunk_fits noise_chunks"
  by (simp add: noise_chunks_def chunk_fits_def DEFAULT_CAPACITY_def)

lemma noise_chunks_outs:
  "snd (run_steps stream_step (Map.empty, 0) noise_chunks) =
     [(None, []), (None, []),
      (None, [Log (''[StreamingParser] Cleaned up state for client fd=5'' @ newline)])]"
  by code_simp

lemma noise_chunks_failures: "snd (fst (run_steps stream_step (Map.empty, 0) noise_chunks)) = 0"
  by code_simp

theorem parser_thread_implements_streams_witness:
  "list_all chunk_fits noise_chunks \<and>
   (\<exists>p. run little initial_parser (map (\<lambda>c. (False, Some c)) noise_chunks @ [(True, None)]) =
     (Finished, p,
      [Log (''[StreamingParser] Running'' @ newline),
       Log (''[StreamingParser] Cleaned up state for client fd=5'' @ newline),
       Log (''[StreamingParser] Shutting down (CRC failures: 0)'' @ newline)]))"
proof -
  have "to_string (unat (0 :: u64)) = ''0''" by code_simp
  then show ?thesis
    using noise_chunks_fit parser_thread_implements_streams [OF noise_chunks_fit, of little None]
    by (auto simp: noise_chunks_outs noise_chunks_failures)
qed

text \<open>
  C28: after any such sequence every client's buffer satisfies the ring-buffer invariant, agrees with
  the client's state, has the default capacity and holds at most 261 undecided bytes, so the next
  chunk of up to 65275 bytes fits.
\<close>

theorem parser_buffers_bounded:
  assumes "list_all chunk_fits chunks" and "m_clients (after_chunks native chunks) fd = Some cs"
  shows "client_inv cs \<and> rb_size (ring_buffer cs) \<le> 261 \<and>
         65275 \<le> free_space (ring_buffer cs)"
proof -
  from after_chunks_inv [OF assms(1), of native] assms(2)
  have inv: "client_inv cs" and "frame_step (client_bytes cs) = None"
    by (auto simp: parser_inv_def)
  then have "m_count (ring_buffer cs) \<le> 261"
    using frame_step_None_short [of "client_bytes cs"] by (simp add: client_bytes_def)
  with inv show ?thesis
    by (simp add: rb_size_def free_space_eq client_inv_def DEFAULT_CAPACITY_def)
qed

theorem parser_buffers_bounded_witness:
  "list_all chunk_fits (take 2 noise_chunks) \<and>
   (\<exists>cs. m_clients (after_chunks little (take 2 noise_chunks)) 5 = Some cs \<and> client_inv cs \<and>
      rb_size (ring_buffer cs) \<le> 261 \<and> 65275 \<le> free_space (ring_buffer cs))"
proof -
  have fits: "list_all chunk_fits (take 2 noise_chunks)"
    by (simp add: noise_chunks_def chunk_fits_def DEFAULT_CAPACITY_def)
  have "fst (fst (run_steps stream_step (Map.empty, 0) (take 2 noise_chunks))) 5 = Some [3]"
    by code_simp
  with after_chunks_tail [OF fits, of little 5] obtain cs where
    cs: "m_clients (after_chunks little (take 2 noise_chunks)) 5 = Some cs" by auto
  from fits cs parser_buffers_bounded [OF fits cs] show ?thesis by blast
qed

text \<open>
  C8: after any history in which \<open>fd\<close> is not connected (never seen, or disconnected), what the
  parser emits for the chunks of \<open>fd\<close> is a function of the concatenation of their bytes alone: not
  of where the stream was cut, of the chunks of other clients in between, or of what an earlier
  connection with the same descriptor left behind.
\<close>

theorem client_stream_isolated:
  assumes "list_all chunk_fits (earlier @ chunks)"
    and "m_clients (after_chunks native earlier) fd = None"
    and "keeps_open fd chunks"
  shows "effects_of fd chunks
           (snd (run_steps (parser_step native) (after_chunks native earlier) chunks)) =
         map frame_effect (fst (scan (stream_of fd chunks)))"
  using assms by (intro parser_one_client) (simp_all add: after_chunks_inv)

lemma noise_chunks_fresh: "m_clients (after_chunks little noise_chunks) 5 = None"
proof -
  have "fst (fst (run_steps stream_step (Map.empty, 0) noise_chunks)) 5 = None" by code_simp
  with after_chunks_tail [OF noise_chunks_fit, of little 5] show ?thesis by simp
qed

theorem client_stream_isolated_witness:
  "effects_of 5 [\<lparr>client_id = 5, chunk_data = [0xAA]\<rparr>, \<lparr>client_id = 6, chunk_data = [0x55, 0, 1]\<rparr>,
        \<lparr>client_id = 5, chunk_data = [1, 9]\<rparr>]
     (snd (run_steps (parser_step little) (after_chunks little noise_chunks)
        [\<lparr>client_id = 5, chunk_data = [0xAA]\<rparr>, \<lparr>client_id = 6, chunk_data = [0x55, 0, 1]\<rparr>,
         \<lparr>client_id = 5, chunk_data = [1, 9]\<rparr>])) =
   map frame_effect (fst (scan [0xAA, 1, 9]))"
proof -
  let ?cs = "[\<lparr>client_id = 5, chunk_data = [0xAA]\<rparr>, \<lparr>client_id = 6, chunk_data = [0x55, 0, 1]\<rparr>,
              \<lparr>client_id = 5, chunk_data = [1, 9]\<rparr>]"
  have "list_all chunk_fits (noise_chunks @ ?cs)"
    using noise_chunks_fit by (simp add: chunk_fits_def DEFAULT_CAPACITY_def)
  moreover have "keeps_open 5 ?cs" by (simp add: keeps_open_def)
  moreover have "stream_of 5 ?cs = [0xAA, 1, 9]" by (simp add: stream_of_def)
  ultimately show ?thesis
    using client_stream_isolated [OF _ noise_chunks_fresh, of ?cs] by simp
qed

text \<open>
  C5: the packets that the load test's \<open>build_packet\<close> makes of a list of telemetry records with
  ASCII identifiers of up to 214 characters, sent over one connection, cut into chunks in any way
  and mixed with the traffic of other clients, are pushed to the parsed queue unchanged, in order,
  and without any log message.
\<close>

theorem packets_round_trip:
  assumes "list_all chunk_fits (earlier @ chunks)"
    and "m_clients (after_chunks native earlier) fd = None"
    and "keeps_open fd chunks"
    and "list_all sendable ts"
    and "stream_of fd chunks = concat (map (\<lambda>t. the (build_packet t False)) ts)"
  shows "effects_of fd chunks
           (snd (run_steps (parser_step native) (after_chunks native earlier) chunks)) =
         map Parsed ts"
  using parser_one_client [OF after_chunks_inv _ assms(2,3)] assms(1) scan_packets [OF assms(4), of "[]"]
  by (simp add: assms(5) comp_def)

definition sample :: Telemetry where
  "sample = \<lparr>drone_id = ''D1'', latitude = 0x4040000000000000, longitude = 0x4041800000000000,
             altitude = 0x405E400000000000, speed = 0x4024000000000000, timestamp = 1700000000\<rparr>"

lemma sample_sendable: "sendable sample"
  by (simp add: sendable_def sample_def)

theorem packets_round_trip_witness:
  "sendable sample \<and>
   effects_of 5 [\<lparr>client_id = 5, chunk_data = take 7 (the (build_packet sample False))\<rparr>,
        \<lparr>client_id = 6, chunk_data = [0xAA]\<rparr>,
        \<lparr>client_id = 5, chunk_data = drop 7 (the (build_packet sample False))\<rparr>]
     (snd (run_steps (parser_step little) (after_chunks little noise_chunks)
        [\<lparr>client_id = 5, chunk_data = take 7 (the (build_packet sample False))\<rparr>,
         \<lparr>client_id = 6, chunk_data = [0xAA]\<rparr>,
         \<lparr>client_id = 5, chunk_data = drop 7 (the (build_packet sample False))\<rparr>])) =
   [Parsed sample]"
proof -
  let ?bs = "the (build_packet sample False)"
  let ?cs = "[\<lparr>client_id = 5, chunk_data = take 7 ?bs\<rparr>, \<lparr>client_id = 6, chunk_data = [0xAA]\<rparr>,
              \<lparr>client_id = 5, chunk_data = drop 7 ?bs\<rparr>]"
  have len: "length ?bs = 50" using length_build_packet [OF sample_sendable] by (simp add: sample_def)
  then have ne: "?bs \<noteq> []" by auto
  have "list_all chunk_fits (noise_chunks @ ?cs)"
    using noise_chunks_fit len by (simp add: chunk_fits_def DEFAULT_CAPACITY_def)
  moreover have "keeps_open 5 ?cs" using len ne by (simp add: keeps_open_def)
  moreover have "stream_of 5 ?cs = concat (map (\<lambda>t. the (build_packet t False)) [sample])"
    by (simp add: stream_of_def)
  moreover have "list_all sendable [sample]" by (simp add: sample_sendable)
  ultimately show ?thesis
    using packets_round_trip [OF _ noise_chunks_fresh, of ?cs "[sample]"] sample_sendable by simp
qed

section \<open>Framing\<close>

lemma fresh_client_effects:
  assumes "list_all chunk_fits chunks" and "keeps_open fd chunks"
  shows "effects_of fd chunks (snd (run_steps (parser_step native) initial_parser chunks)) =
    map frame_effect (fst (scan (stream_of fd chunks)))"
  using assms by (intro parser_one_client) (simp_all add: initial_parser_def parser_inv_def)

text \<open>What the parser reports of a client's stream, checksum mismatches left out.\<close>

definition reports_of :: "endian \<Rightarrow> int \<Rightarrow> DataChunk list \<Rightarrow> effect list" where
  "reports_of native fd chunks = filter (\<lambda>x. x \<noteq> frame_effect Crc_bad)
     (effects_of fd chunks (snd (run_steps (parser_step native) initial_parser chunks)))"

lemma reports_of_accepted:
  assumes "list_all chunk_fits chunks" and "keeps_open fd chunks"
  shows "reports_of native fd chunks =
    map (\<lambda>(j, l). frame_effect (frame_content (take l (drop j (stream_of fd chunks))))) (accepted 0 (stream_of fd chunks))"
proof -
  have "frame_effect f \<noteq> frame_effect Crc_bad \<longleftrightarrow> f \<noteq> Crc_bad" for f by (cases f) auto
  then show ?thesis
    using arg_cong [OF accepted_content [of "[]" "stream_of fd chunks"], of "map frame_effect"]
    by (simp add: reports_of_def fresh_client_effects [OF assms] filter_map comp_def split_def del: frame_effect.simps)
qed

text \<open>
  C9: what the parser takes out of a client's stream are well-formed frames (header \<open>0xAA55\<close>, length
  between 1 and 256, matching checksum) at increasing, disjoint positions; the parsed and malformed
  packets it reports are the contents of exactly these frames, in stream order; every other report
  is a checksum mismatch.
\<close>

theorem framing_sound:
  assumes "list_all chunk_fits chunks" and "keeps_open fd chunks"
  shows "filter (\<lambda>x. x \<noteq> frame_effect Crc_bad)
             (effects_of fd chunks (snd (run_steps (parser_step native) initial_parser chunks))) =
           map (\<lambda>(j, l). frame_effect (frame_content (take l (drop j (stream_of fd chunks)))))
             (accepted 0 (stream_of fd chunks)) \<and>
         sorted_wrt (\<lambda>(j, l) (j', l'). j + l \<le> j') (accepted 0 (stream_of fd chunks)) \<and>
         list_all (\<lambda>(j, l). j + l \<le> length (stream_of fd chunks) \<and>
             valid_frame (take l (drop j (stream_of fd chunks)))) (accepted 0 (stream_of fd chunks))"
proof (intro conjI)
  let ?S = "stream_of fd chunks"
  show "filter (\<lambda>x. x \<noteq> frame_effect Crc_bad)
      (effects_of fd chunks (snd (run_steps (parser_step native) initial_parser chunks))) =
      map (\<lambda>(j, l). frame_effect (frame_content (take l (drop j ?S)))) (accepted 0 ?S)"
    using reports_of_accepted [OF assms, of native] by (simp add: reports_of_def)
  show "sorted_wrt (\<lambda>(j, l) (j', l'). j + l \<le> j') (accepted 0 ?S)" by (rule accepted_disjoint)
  show "list_all (\<lambda>(j, l). j + l \<le> length ?S \<and> valid_frame (take l (drop j ?S))) (accepted 0 ?S)"
    using accepted_bounds [of _ _ 0 ?S] accepted_valid [of _ _ "[]" ?S] by (auto simp: list_all_iff)
qed

text \<open>A client that sends a byte of noise, a packet and another byte, in three pieces.\<close>

definition noisy_packet :: "byte list" where
  "noisy_packet = 7 # the (build_packet sample False) @ [7]"

definition noisy_chunks :: "DataChunk list" where
  "noisy_chunks = [\<lparr>client_id = 5, chunk_data = take 9 noisy_packet\<rparr>, \<lparr>client_id = 6, chunk_data = [0xAA]\<rparr>,
     \<lparr>client_id = 5, chunk_data = drop 9 noisy_packet\<rparr>]"

lemma length_noisy_packet: "length noisy_packet = 52"
  using length_build_packet [OF sample_sendable] by (simp add: noisy_packet_def sample_def)

lemma noisy_chunks_ok:
  "list_all chunk_fits noisy_chunks" "keeps_open 5 noisy_chunks" "stream_of 5 noisy_chunks = noisy_packet"
proof -
  have "noisy_packet \<noteq> []" by (simp add: noisy_packet_def)
  then show "list_all chunk_fits noisy_chunks" "keeps_open 5 noisy_chunks" "stream_of 5 noisy_chunks = noisy_packet"
    using length_noisy_packet by (simp_all add: noisy_chunks_def chunk_fits_def DEFAULT_CAPACITY_def keeps_open_def stream_of_def)
qed

lemma noisy_packet_steps:
  "frame_step noisy_packet = Some (1, [])"
  "frame_step (the (build_packet sample False) @ [7]) = Some (50, [frame_content (the (build_packet sample False))])"
proof -
  have "\<not> frame_header noisy_packet"
    using frame_header_iff [of noisy_packet] by (simp add: length_noisy_packet) (simp add: noisy_packet_def)
  then show "frame_step noisy_packet = Some (1, [])" by (simp add: frame_step_def length_noisy_packet)
  show "frame_step (the (build_packet sample False) @ [7]) = Some (50, [frame_content (the (build_packet sample False))])"
    using frame_step_valid [OF valid_build_packet [OF sample_sendable], of "[7]"]
      length_build_packet [OF sample_sendable, of False] by (simp add: sample_def)
qed

lemma noisy_packet_scan: "scan noisy_packet = ([Packet sample], [7])"
proof -
  obtain bs where bs: "build_packet sample False = Some bs"
    using sendable_build_packet [OF sample_sendable] by blast
  have "scan [7] = ([], [7])" by (simp add: scan_None frame_step_def)
  then show ?thesis
    using scan_build_packet [OF sample_sendable bs, of "[7]"] scan_Some [OF noisy_packet_steps(1)] bs
    by (simp add: noisy_packet_def)
qed

lemma noisy_packet_accepted: "accepted 0 noisy_packet = [(1, 50)]"
proof -
  have "length (the (build_packet sample False)) = 50"
    using length_build_packet [OF sample_sendable] by (simp add: sample_def)
  moreover have "accepted 51 [7] = []" by (simp add: accepted_None frame_step_def)
  ultimately show ?thesis
    using accepted_Some [OF noisy_packet_steps(1), of 0] accepted_Some [OF noisy_packet_steps(2), of 1]
    by (simp add: noisy_packet_def)
qed

theorem framing_sound_witness:
  "accepted 0 (stream_of 5 noisy_chunks) = [(1, 50)] \<and>
   filter (\<lambda>x. x \<noteq> frame_effect Crc_bad)
     (effects_of 5 noisy_chunks (snd (run_steps (parser_step big) initial_parser noisy_chunks))) =
   [frame_effect (frame_content (take 50 (drop 1 (stream_of 5 noisy_chunks))))] \<and>
   valid_frame (take 50 (drop 1 (stream_of 5 noisy_chunks)))"
  using framing_sound [OF noisy_chunks_ok(1,2), of big] noisy_packet_accepted noisy_chunks_ok(3) by simp

text \<open>
  C10: no well-formed frame is skipped. If a complete well-formed frame starts at position \<open>i\<close> of a
  client's stream and the parser has decided that position (it no longer holds the byte in the
  client's buffer), then among the parsed and malformed packets that the parser has reported there is
  the content of a well-formed frame \<open>g\<close> of the stream around position \<open>i\<close>: of the frame itself, or of an
  earlier frame that overlaps it. The report is that of the \<open>n\<close>-th frame that the parser took out, and
  this frame stands where \<open>g\<close> does.
\<close>

theorem framing_complete:
  assumes "list_all chunk_fits chunks" and "keeps_open fd chunks"
    and "m_clients (after_chunks native chunks) fd = Some cs"
    and "valid_frame f" and "take (length f) (drop i (stream_of fd chunks)) = f"
    and "i + rb_size (ring_buffer cs) < length (stream_of fd chunks)"
  shows "\<exists>n j g. n < length (reports_of native fd chunks) \<and>
    reports_of native fd chunks ! n = frame_effect (frame_content g) \<and>
    accepted 0 (stream_of fd chunks) ! n = (j, length g) \<and>
    valid_frame g \<and> take (length g) (drop j (stream_of fd chunks)) = g \<and>
    j \<le> i \<and> i < j + length g \<and> (j = i \<longrightarrow> g = f)"
proof -
  let ?S = "stream_of fd chunks"
  have "client_bytes cs = snd (scan ?S)"
    using streams_one_client [OF assms(2), of Map.empty 0] after_chunks_tail [OF assms(1), of native fd] assms(3)
    by (simp add: frame_step_def tail_of_def split: option.splits)
  then have "rb_size (ring_buffer cs) = length (snd (scan ?S))"
    by (metis client_bytes_def length_contents rb_size_def)
  then obtain j l where jl: "(j, l) \<in> set (accepted 0 ?S)" "j \<le> i" "i < j + l"
    using accepted_covers [of "[]" i ?S f] assms(4-6) by auto
  then obtain n where n: "n < length (accepted 0 ?S)" "accepted 0 ?S ! n = (j, l)" by (metis in_set_conv_nth)
  let ?g = "take l (drop j ?S)"
  have g: "length ?g = l" "valid_frame ?g"
    using accepted_bounds [OF jl(1)] accepted_valid [of j l "[]" ?S] jl(1) by auto
  have "?g = f" if "j = i"
    using frame_step_valid [OF g(2), of "drop l (drop j ?S)"] frame_step_valid [OF assms(4), of "drop (length f) (drop i ?S)"]
      assms(5) that g(1) by (metis append_take_drop_id option.inject prod.inject)
  then show ?thesis
    using n jl g reports_of_accepted [OF assms(1,2), of native]
    by (intro exI [of _ n] exI [of _ j] exI [of _ ?g]) simp
qed

theorem framing_complete_witness:
  "\<exists>cs n j g. m_clients (after_chunks little noisy_chunks) 5 = Some cs \<and>
     valid_frame (the (build_packet sample False)) \<and> 1 + rb_size (ring_buffer cs) < length (stream_of 5 noisy_chunks) \<and>
     n < length (reports_of little 5 noisy_chunks) \<and>
     reports_of little 5 noisy_chunks ! n = frame_effect (frame_content g) \<and> valid_frame g \<and>
     j \<le> 1 \<and> 1 < j + length g"
proof -
  let ?bs = "the (build_packet sample False)"
  have "tail_of 5 (fst (fst (run_steps stream_step (Map.empty, 0) noisy_chunks))) = [7]"
    using streams_one_client [OF noisy_chunks_ok(2), of Map.empty 0] noisy_packet_scan
    by (simp add: tail_of_def noisy_chunks_ok(3) frame_step_def)
  then obtain cs where cs: "m_clients (after_chunks little noisy_chunks) 5 = Some cs" "client_bytes cs = [7]"
    using after_chunks_tail [OF noisy_chunks_ok(1), of little 5]
    by (cases "m_clients (after_chunks little noisy_chunks) 5") (auto simp: tail_of_def split: option.splits)
  have "rb_size (ring_buffer cs) = length (client_bytes cs)" by (simp add: rb_size_def client_bytes_def)
  then have size: "1 + rb_size (ring_buffer cs) < length (stream_of 5 noisy_chunks)"
    using cs(2) by (simp add: noisy_chunks_ok(3) length_noisy_packet)
  have v: "valid_frame ?bs" by (rule valid_build_packet [OF sample_sendable])
  have "take (length ?bs) (drop 1 (stream_of 5 noisy_chunks)) = ?bs" by (simp add: noisy_chunks_ok(3) noisy_packet_def)
  from framing_complete [OF noisy_chunks_ok(1,2) cs(1) v this size] cs(1) size v show ?thesis by blast
qed

section \<open>Resynchronisation\<close>

text \<open>
  Noise in front of packets is dropped without a report: if no header marker starts in the noise
  (nor across its end), the packets behind it are parsed unchanged and in order.
\<close>

lemma noise_dropped:
  assumes "list_all chunk_fits chunks" and "keeps_open fd chunks"
    and "list_all sendable ts" and "ts \<noteq> []"
    and "stream_of fd chunks = noise @ concat (map (\<lambda>t. the (build_packet t False)) ts)"
    and "marker_free noise (concat (map (\<lambda>t. the (build_packet t False)) ts))"
  shows "effects_of fd chunks (snd (run_steps (parser_step native) initial_parser chunks)) = map Parsed ts"
proof -
  let ?pkts = "concat (map (\<lambda>t. the (build_packet t False)) ts)"
  have eff: "effects_of fd chunks (snd (run_steps (parser_step native) initial_parser chunks)) =
      map frame_effect (fst (scan (stream_of fd chunks)))"
    using assms(1,2) by (intro parser_one_client) (simp_all add: initial_parser_def parser_inv_def)
  have "2 \<le> length ?pkts"
    using assms(3,4) length_build_packet [of "hd ts" False] by (cases ts) auto
  then have "scan (stream_of fd chunks) = scan ?pkts"
    using scan_marker_free [OF assms(6)] assms(5) by simp
  with eff scan_packets [OF assms(3), of "[]"] show ?thesis by (simp add: comp_def)
qed

text \<open>
  C17: a packet with a wrong checksum costs only itself. If somewhere in a client's stream of packets
  there is the load test's corrupted packet, and no header marker starts inside it after its own (nor
  across its end), the parser parses the packets before it, reports one checksum mismatch and parses
  every packet behind it.
\<close>

theorem resync_after_bad_crc:
  assumes "list_all chunk_fits chunks" and "keeps_open fd chunks"
    and "list_all sendable before" and "sendable bad" and "list_all sendable ts"
    and "stream_of fd chunks = concat (map (\<lambda>t. the (build_packet t False)) before) @
           the (build_packet bad True) @ concat (map (\<lambda>t. the (build_packet t False)) ts)"
    and "marker_free (tl (the (build_packet bad True))) (concat (map (\<lambda>t. the (build_packet t False)) ts))"
  shows "effects_of fd chunks (snd (run_steps (parser_step native) initial_parser chunks)) =
         map Parsed before @ frame_effect Crc_bad # map Parsed ts"
proof -
  let ?pkts = "concat (map (\<lambda>t. the (build_packet t False)) ts)"
  obtain bs where bs: "build_packet bad True = Some bs" using sendable_build_packet [OF assms(4)] by blast
  have ne: "bs \<noteq> []" using length_build_packet [OF assms(4), of True] bs by auto
  have "?pkts = [] \<or> 2 \<le> length ?pkts"
    using assms(5) length_build_packet [of "hd ts" False] by (cases ts) auto
  then have "fst (scan (tl bs @ ?pkts)) = fst (scan ?pkts)" using scan_marker_free_fst assms(7) bs by simp
  moreover have "drop 1 (bs @ ?pkts) = tl bs @ ?pkts" using ne by (cases bs) auto
  ultimately have "fst (scan (bs @ ?pkts)) = Crc_bad # map Packet ts"
    using scan_Some [OF corrupt_packet_step [OF assms(4) bs, of ?pkts]] scan_packets [OF assms(5), of "[]"]
    by simp
  then show ?thesis
    using fresh_client_effects [OF assms(1,2), of native] scan_packets [OF assms(3), of "bs @ ?pkts"] bs assms(6)
    by (simp add: comp_def)
qed

text \<open>The sample packet, byte for byte.\<close>

definition sample_payload :: "byte list" where
  "sample_payload =
     [0, 2, 0x44, 0x31, 0x40, 0x40, 0, 0, 0, 0, 0, 0, 0x40, 0x41, 0x80, 0, 0, 0, 0, 0, 0x40, 0x5e,
      0x40, 0, 0, 0, 0, 0, 0x40, 0x24, 0, 0, 0, 0, 0, 0, 0, 0, 0, 0, 0x65, 0x53, 0xf1, 0]"

lemma sample_serialized: "serialize_payload sample = Some sample_payload"
  by (simp add: serialize_payload_def sample_def sample_payload_def be_encode_def store_le_def
      upt_rec byte_of_char_def of_char_def)

lemma be_encode_header: "be_encode PACKET_HEADER = [0xAA, 0x55]"
  by code_simp

lemma be_encode_44: "be_encode (44 :: u16) = [0, 44]"
  by code_simp

lemma sample_crc: "frame_crc sample_payload = 0xA0D1"
  by (simp add: frame_crc_def sample_payload_def be_encode_header be_encode_44 crc_bits_8 crc_bit_def
      flip: crc_bytes_catalogue)

lemma sample_corrupt_frame: "the (build_packet sample True) = frame_with_crc sample_payload 0x1E3E"
proof -
  obtain bs where bs: "build_packet sample True = Some bs"
    using sendable_build_packet [OF sample_sendable] by blast
  then have "bs = frame_with_crc sample_payload (xor (frame_crc sample_payload) 0xBEEF)"
    using sample_serialized by (auto elim: build_packet_frame)
  with bs show ?thesis by (simp add: sample_crc)
qed

theorem resync_after_bad_crc_witness:
  "effects_of 5
     [\<lparr>client_id = 5, chunk_data = the (build_packet sample False)\<rparr>,
      \<lparr>client_id = 5, chunk_data = the (build_packet sample True)\<rparr>,
      \<lparr>client_id = 5, chunk_data = the (build_packet sample False)\<rparr>]
     (snd (run_steps (parser_step little) initial_parser
       [\<lparr>client_id = 5, chunk_data = the (build_packet sample False)\<rparr>,
        \<lparr>client_id = 5, chunk_data = the (build_packet sample True)\<rparr>,
        \<lparr>client_id = 5, chunk_data = the (build_packet sample False)\<rparr>])) =
   [Parsed sample, Log (''[StreamingParser] CRC mismatch '' @ em_dash @ '' resyncing'' @ newline), Parsed sample]"
proof -
  let ?bad = "the (build_packet sample True)" and ?ok = "the (build_packet sample False)"
  let ?cs = "[\<lparr>client_id = 5, chunk_data = ?ok\<rparr>, \<lparr>client_id = 5, chunk_data = ?bad\<rparr>, \<lparr>client_id = 5, chunk_data = ?ok\<rparr>]"
  have len: "length (the (build_packet sample c)) = 50" for c
    using length_build_packet [OF sample_sendable] by (simp add: sample_def)
  have ne: "?bad \<noteq> []" "?ok \<noteq> []" using len [of True] len [of False] by auto
  have "list_all chunk_fits ?cs" by (simp add: chunk_fits_def DEFAULT_CAPACITY_def len)
  moreover have "keeps_open 5 ?cs" using ne by (simp add: keeps_open_def)
  moreover have "stream_of 5 ?cs = concat (map (\<lambda>t. the (build_packet t False)) [sample]) @ ?bad @
      concat (map (\<lambda>t. the (build_packet t False)) [sample])"
    by (simp add: stream_of_def)
  moreover have "be_encode (0x1E3E :: u16) = [0x1E, 0x3E]" by code_simp
  then have "0xAA \<notin> set (tl ?bad)"
    by (simp add: sample_corrupt_frame frame_with_crc_def be_encode_header sample_payload_def be_encode_44)
  then have "marker_free (tl ?bad) (concat (map (\<lambda>t. the (build_packet t False)) [sample]))"
    by (rule marker_free_no_AA) (simp add: len)
  ultimately show ?thesis
    using resync_after_bad_crc [of ?cs 5 "[sample]" sample "[sample]" little] sample_sendable by simp
qed

text \<open>
  C21: a frame whose payload was damaged on the way in an odd number of bits, or only within two
  adjacent bytes, is not accepted, wherever in a client's stream it stands: the frames whose contents
  the parser reports all stand elsewhere. If the bytes before it were decided when the parser came to
  it (as after complete packets), the parser reports a checksum mismatch at this point and goes on
  scanning at the second byte of the damaged frame.
\<close>

theorem damaged_payload_rejected:
  assumes "list_all chunk_fits chunks" and "keeps_open fd chunks"
    and "p \<noteq> []" and "length p \<le> 256" and "detectable_damage p p'"
    and stream: "stream_of fd chunks = pre @ frame_with_crc p' (frame_crc p) @ rest"
  shows "reports_of native fd chunks =
      map (\<lambda>(j, l). frame_effect (frame_content (take l (drop j (stream_of fd chunks))))) (accepted 0 (stream_of fd chunks)) \<and>
    length pre \<notin> fst ` set (accepted 0 (stream_of fd chunks)) \<and>
    (snd (scan pre) = [] \<longrightarrow>
       effects_of fd chunks (snd (run_steps (parser_step native) initial_parser chunks)) =
         map frame_effect (fst (scan pre)) @ frame_effect Crc_bad #
         map frame_effect (fst (scan (tl (frame_with_crc p' (frame_crc p)) @ rest))))"
proof -
  let ?f = "frame_with_crc p' (frame_crc p)" and ?S = "stream_of fd chunks"
  have len: "length p' = length p" using assms(5) by (simp add: detectable_damage_def)
  then have "p' \<noteq> []" "length p' \<le> 256" using assms(3,4) by auto
  then have step: "frame_step (?f @ rest) = Some (1, [Crc_bad])"
    using detectable_damage_crc [OF assms(5)] by (rule frame_step_wrong_crc)
  have "length pre \<noteq> j" if jl: "(j, l) \<in> set (accepted 0 ?S)" for j l
  proof
    assume "length pre = j"
    then have "valid_frame (take l (?f @ rest))" using accepted_valid [of j l "[]" ?S] jl stream by simp
    from frame_step_valid [OF this, of "drop l (?f @ rest)"] step have "[Crc_bad] = [frame_content (take l (?f @ rest))]"
      unfolding append_take_drop_id by simp
    then show False using frame_content_not_bad by (metis list.inject)
  qed
  then have "length pre \<notin> fst ` set (accepted 0 ?S)" by (metis imageE prod.collapse)
  moreover have "?f \<noteq> []" by (simp add: frame_with_crc_def be_encode_header)
  then have "drop 1 (?f @ rest) = tl ?f @ rest" by (cases ?f) auto
  then have "fst (scan (?f @ rest)) = Crc_bad # fst (scan (tl ?f @ rest))" using scan_Some [OF step] by simp
  then have "fst (scan ?S) = fst (scan pre) @ Crc_bad # fst (scan (tl ?f @ rest))" if "snd (scan pre) = []"
    using scan_append [of pre "?f @ rest"] that stream by simp
  ultimately show ?thesis
    using reports_of_accepted [OF assms(1,2), of native] fresh_client_effects [OF assms(1,2), of native] by simp
qed

theorem damaged_payload_rejected_witness:
  "detectable_damage [1, 2, 3] [1, 6, 3] \<and>
   effects_of 5 [\<lparr>client_id = 5, chunk_data = the (build_packet sample False) @ frame_with_crc [1, 6, 3] (frame_crc [1, 2, 3])\<rparr>]
     (snd (run_steps (parser_step little) initial_parser
       [\<lparr>client_id = 5, chunk_data = the (build_packet sample False) @ frame_with_crc [1, 6, 3] (frame_crc [1, 2, 3])\<rparr>])) =
   Parsed sample # frame_effect Crc_bad #
   map frame_effect (fst (scan (tl (frame_with_crc [1, 6, 3] (frame_crc [1, 2, 3])) @ [])))"
proof -
  let ?ok = "the (build_packet sample False)" and ?f = "frame_with_crc [1, 6, 3] (frame_crc [1, 2, 3])"
  let ?cs = "[\<lparr>client_id = 5, chunk_data = ?ok @ ?f\<rparr>]"
  have "odd (bit_errors [1, 2, 3] [1, 6, 3])" by code_simp
  then have d: "detectable_damage [1, 2, 3] [1, 6, 3]" by (simp add: detectable_damage_def)
  have "length ?ok = 50" using length_build_packet [OF sample_sendable] by (simp add: sample_def)
  then have "list_all chunk_fits ?cs" by (simp add: chunk_fits_def DEFAULT_CAPACITY_def frame_with_crc_def)
  moreover have "keeps_open 5 ?cs" by (simp add: keeps_open_def frame_with_crc_def be_encode_header)
  moreover have "stream_of 5 ?cs = ?ok @ ?f @ []" by (simp add: stream_of_def)
  moreover have "scan ?ok = ([Packet sample], [])" using scan_packets [of "[sample]" "[]"] sample_sendable by simp
  ultimately show ?thesis
    using damaged_payload_rejected [OF _ _ _ _ d, of ?cs 5 ?ok "[]" little] d by simp
qed

section \<open>The failure counter\<close>

text \<open>
  C18: whatever a client's state and its buffer hold (as long as they agree), \<open>process_client\<close>
  returns normally with the buffer reduced to what the stream specification cannot decide yet; it
  adds to \<open>m_crc_failures\<close>, modulo \<open>2 ^ 64\<close>, one for every frame that fails its checksum and one
  for every frame that passes it and does not deserialise.
\<close>

theorem process_client_returns:
  assumes "client_inv (ps_client s)"
  shows "\<exists>s'. process_client native s = (None, s') \<and> client_inv (ps_client s') \<and>
    client_bytes (ps_client s') = snd (scan (client_bytes (ps_client s))) \<and>
    ps_out s' = ps_out s @ map frame_effect (fst (scan (client_bytes (ps_client s)))) \<and>
    ps_failures s' = ps_failures s +
      of_nat (count_list (fst (scan (client_bytes (ps_client s)))) Crc_bad +
              count_list (fst (scan (client_bytes (ps_client s)))) Malformed)"
proof -
  have "n_failures fs = of_nat (count_list fs Crc_bad + count_list fs Malformed)" for fs
  proof (induction fs)
    case (Cons f fs)
    then show ?case by (cases f) simp_all
  qed simp
  with process_client_scan [OF assms, of native] show ?thesis
    by (auto simp: outcome_def split_def Let_def)
qed

theorem process_client_returns_witness:
  "\<exists>cs s'. default_ClientState = Inr cs \<and> client_inv cs \<and>
     process_client little \<lparr>ps_client = cs, ps_failures = 0, ps_out = []\<rparr> = (None, s') \<and>
     ps_out s' = [] \<and> ps_failures s' = 0"
proof -
  obtain cs where cs: "default_ClientState = Inr cs" "client_inv cs" "client_bytes cs = []"
    using default_ClientState_ok by blast
  from process_client_returns [of "\<lparr>ps_client = cs, ps_failures = 0, ps_out = []\<rparr>" little] cs
  show ?thesis by auto
qed

section \<open>The type of what is pushed\<close>

lemma decode_payload_id: "decode_payload p = Some t \<Longrightarrow> length (drone_id t) + 42 \<le> length p"
  by (auto simp: decode_payload_def Let_def split: if_splits)

lemma scan_packet_id: "Packet t \<in> set (fst (scan bs)) \<Longrightarrow> length (drone_id t) \<le> 214"
proof (induction bs rule: scan_induct)
  case (Step bs k es)
  have "length (drone_id t) \<le> 214" if "Packet t \<in> set es"
  proof -
    have p: "decode_payload (take (unat (frame_length bs)) (drop 4 bs)) = Some t"
      and l: "unat (frame_length bs) \<le> 256"
      using that Step(1) unat_max_payload [of "frame_length bs"]
      by (auto simp: frame_step_def frame_content_def split: if_splits option.splits)
    show ?thesis using decode_payload_id [OF p] l by simp
  qed
  then show ?case using Step by (auto simp: scan_Some [OF Step(1)])
qed (simp add: scan_None)

lemma frame_effect_Parsed: "frame_effect f = Parsed t \<longleftrightarrow> f = Packet t"
  by (cases f) simp_all

lemma stream_step_packet_id:
  "Parsed t \<in> set (snd (snd (stream_step st c))) \<Longrightarrow> length (drone_id t) \<le> 214"
  by (cases st) (auto simp: Let_def split_def frame_effect_Parsed intro: scan_packet_id split: if_splits
      dest!: sym [of "Parsed t"])

lemma streams_packet_id:
  "Parsed t \<in> set (concat (map snd (snd (run_steps stream_step st chunks)))) \<Longrightarrow> length (drone_id t) \<le> 214"
proof (induction chunks arbitrary: st)
  case (Cons c chunks)
  then show ?case
    using stream_step_packet_id [of t st c] Cons.IH [of "fst (stream_step st c)"]
    by (simp add: split_def Let_def) blast
qed simp

text \<open>
  C37: every packet that the parser thread pushes has an identifier of at most 214 characters, the
  most that a payload of 256 bytes leaves room for, whatever bytes the clients send.
\<close>

theorem parsed_packets_well_formed:
  assumes "list_all chunk_fits chunks"
    and "run native initial_parser (map (\<lambda>c. (False, Some c)) chunks @ [(True, popped)]) = (r, p, out)"
    and "Parsed t \<in> set out"
  shows "length (drone_id t) \<le> 214"
proof -
  have "snd (run_steps (parser_step native) initial_parser chunks) =
      snd (run_steps stream_step (Map.empty, 0) chunks)"
    using srv.run_abs [OF initial_parser_inv assms(1), of native] by simp
  then have "Parsed t \<in> set (concat (map snd (snd (run_steps stream_step (Map.empty, 0) chunks))))"
    using assms(2,3) run_loop_chunks [OF initial_parser_inv assms(1), of native "[(True, popped)]"]
    by (auto simp: run_def split_def Let_def)
  then show ?thesis by (rule streams_packet_id)
qed

theorem parsed_packets_well_formed_witness:
  "\<exists>r p out. run little initial_parser
      (map (\<lambda>c. (False, Some c)) [\<lparr>client_id = 5, chunk_data = the (build_packet sample False)\<rparr>] @ [(True, None)]) =
    (r, p, out) \<and> Parsed sample \<in> set out \<and> length (drone_id sample) \<le> 214"
proof -
  let ?bs = "the (build_packet sample False)" and ?turns = "map (\<lambda>c. (False, Some c))
    [\<lparr>client_id = 5, chunk_data = the (build_packet sample False)\<rparr>] @ [(True, None)]"
  let ?c = "\<lparr>client_id = 5, chunk_data = ?bs\<rparr>"
  have len: "length ?bs = 50" using length_build_packet [OF sample_sendable] by (simp add: sample_def)
  then have fits: "list_all chunk_fits [?c]" and ne: "?bs \<noteq> []"
    by (auto simp: chunk_fits_def DEFAULT_CAPACITY_def)
  have "scan ?bs = ([Packet sample], [])" using scan_packets [of "[sample]" "[]"] sample_sendable by simp
  then have "snd (run_steps (parser_step little) initial_parser [?c]) = [(None, [Parsed sample])]"
    using srv.run_abs [OF initial_parser_inv fits, of little] ne by simp
  then have "\<exists>r p out. run little initial_parser ?turns = (r, p, out) \<and> Parsed sample \<in> set out"
    using run_loop_chunks [OF initial_parser_inv fits, of little "[(True, None)]"]
    by (auto simp: run_def split_def Let_def)
  then show ?thesis using parsed_packets_well_formed [OF fits, of little None] by blast
qed

end
