(* ===== verification/Ieee_Double.thy ===== *)
theory Ieee_Double
  imports Prelude
begin

text \<open>
  What the sources use of \<open>double\<close>: a binary64 value is its bit pattern. Comparison, conversion from
  integers and division are defined on the exact values (scaled by \<open>2 ^ 1074\<close>, so that every finite
  one is an integer) and rounded to nearest, ties to even. The two output formats of the sources are
  here too: the default one of \<open>ostream\<close> (\<open>%.6g\<close>) and \<open>std::fixed << std::setprecision(1)\<close> (\<open>%.1f\<close>).
\<close>

section \<open>Bit patterns\<close>

unbundle bit_operations_syntax

definition dbl_mag :: "double \<Rightarrow> nat" where
  "dbl_mag a = unat a mod 2 ^ 63"

definition dbl_neg :: "double \<Rightarrow> bool" where
  "dbl_neg a \<longleftrightarrow> 2 ^ 63 \<le> unat a"

text \<open>The magnitude of an infinity; larger magnitudes are NaNs.\<close>

definition inf_mag :: nat where
  "inf_mag = 2047 * 2 ^ 52"

definition is_nan :: "double \<Rightarrow> bool" where
  "is_nan a \<longleftrightarrow> inf_mag < dbl_mag a"

definition is_inf :: "double \<Rightarrow> bool" where
  "is_inf a \<longleftrightarrow> dbl_mag a = inf_mag"

text \<open>
  The absolute value in units of \<open>2 ^ -1074\<close>: the significand, with its hidden bit unless the
  exponent field is zero, shifted by the exponent. An infinity gets a value above all finite ones.
\<close>

definition scaled_mag :: "nat \<Rightarrow> nat" where
  "scaled_mag m =
     (let e = m div 2 ^ 52; f = m mod 2 ^ 52 in
      if e = 0 then f else (2 ^ 52 + f) * 2 ^ (e - 1))"

definition scaled :: "double \<Rightarrow> int" where
  "scaled a = (if dbl_neg a then - int (scaled_mag (dbl_mag a)) else int (scaled_mag (dbl_mag a)))"

definition dbl_less :: "double \<Rightarrow> double \<Rightarrow> bool" where
  "dbl_less a b \<longleftrightarrow> \<not> is_nan a \<and> \<not> is_nan b \<and> scaled a < scaled b"

definition dbl_of_mag :: "bool \<Rightarrow> nat \<Rightarrow> double" where
  "dbl_of_mag s m = of_nat ((if s then 2 ^ 63 else 0) + m)"

section \<open>Rounding\<close>

text \<open>The quotient rounded to the nearest integer, ties to even.\<close>

definition round_quot :: "nat \<Rightarrow> nat \<Rightarrow> nat" where
  "round_quot n d =
     (if 2 * (n mod d) < d \<or> 2 * (n mod d) = d \<and> even (n div d) then n div d else n div d + 1)"

fun bit_length :: "nat \<Rightarrow> nat" where
  "bit_length n = (if n = 0 then 0 else bit_length (n div 2) + 1)"

declare bit_length.simps [simp del]

text \<open>
  The magnitude nearest to the rational \<open>n / d\<close>: the significand of at most 53 bits is rounded at
  the position \<open>s\<close>, and a carry out of it moves to the next exponent by itself.
\<close>

definition shift_of :: "nat \<Rightarrow> nat \<Rightarrow> nat" where
  "shift_of n d = bit_length (n * 2 ^ 1074 div d) - 53"

definition mag_of_ratio :: "nat \<Rightarrow> nat \<Rightarrow> nat" where
  "mag_of_ratio n d =
     (let s = shift_of n d in
      min (s * 2 ^ 52 + round_quot (n * 2 ^ 1074) (d * 2 ^ s)) inf_mag)"

definition dbl_of_int :: "int \<Rightarrow> double" where
  "dbl_of_int i = dbl_of_mag (i < 0) (mag_of_ratio (nat \<bar>i\<bar>) 1)"

definition dbl_div :: "double \<Rightarrow> double \<Rightarrow> double" where
  "dbl_div a b =
     (let s = (dbl_neg a \<noteq> dbl_neg b); nan = dbl_of_mag False (inf_mag + 2 ^ 51) in
      if is_nan a \<or> is_nan b then nan
      else if is_inf a then if is_inf b then nan else dbl_of_mag s inf_mag
      else if is_inf b then dbl_of_mag s 0
      else if dbl_mag b = 0 then if dbl_mag a = 0 then nan else dbl_of_mag s inf_mag
      else dbl_of_mag s (mag_of_ratio (scaled_mag (dbl_mag a)) (scaled_mag (dbl_mag b))))"

section \<open>Output\<close>

fun pad_zeros :: "nat \<Rightarrow> string \<Rightarrow> string" where
  "pad_zeros n cs = replicate (n - length cs) (CHR ''0'') @ cs"

definition strip_zeros :: "string \<Rightarrow> string" where
  "strip_zeros cs =
     rev (let r = dropWhile (\<lambda>c. c = CHR ''0'') (rev cs) in
          case r of [] \<Rightarrow> [] | c # r' \<Rightarrow> if c = CHR ''.'' then r' else r)"

text \<open>\<open>n / 10 ^ p\<close> in decimal with \<open>p > 0\<close> digits after the point.\<close>

definition point_string :: "nat \<Rightarrow> nat \<Rightarrow> string" where
  "point_string p n = to_string (n div 10 ^ p) @ ''.'' @ pad_zeros p (to_string (n mod 10 ^ p))"

definition special_string :: "double \<Rightarrow> string option" where
  "special_string a = (if is_nan a then Some ''nan'' else if is_inf a then Some ''inf'' else None)"

definition sign_string :: "double \<Rightarrow> string" where
  "sign_string a = (if dbl_neg a then ''-'' else '''')"

definition fixed1 :: "double \<Rightarrow> string" where
  "fixed1 a = sign_string a @
     (case special_string a of Some w \<Rightarrow> w
      | None \<Rightarrow> point_string 1 (round_quot (10 * scaled_mag (dbl_mag a)) (2 ^ 1074)))"

text \<open>
  \<open>%.6g\<close>: \<open>x\<close> is the decimal exponent of the value rounded to six significant digits. Below \<open>-4\<close> and
  from 6 on the output is in scientific form; trailing zeros are removed in both forms.
\<close>

definition dec_digits :: "nat \<Rightarrow> nat" where
  "dec_digits n = length (to_string n)"

function dec_lead :: "nat \<Rightarrow> nat \<Rightarrow> nat" where
  "dec_lead n d = (if n = 0 \<or> d \<le> n then 0 else dec_lead (10 * n) d + 1)"
  by pat_completeness auto
termination by (relation "measure (\<lambda>(n, d). d - n)") auto

declare dec_lead.simps [simp del]

definition sci_parts :: "nat \<Rightarrow> nat \<Rightarrow> nat \<times> int" where
  "sci_parts n d =
     (let x = (if d \<le> n then int (dec_digits (n div d)) - 1 else - int (dec_lead n d));
          k = 5 - x;
          v = (if 0 \<le> k then round_quot (n * 10 ^ nat k) d else round_quot n (d * 10 ^ nat (- k))) in
      if v = 10 ^ 6 then (10 ^ 5, x + 1) else (v, x))"

definition general6 :: "double \<Rightarrow> string" where
  "general6 a = sign_string a @
     (case special_string a of Some w \<Rightarrow> w
      | None \<Rightarrow>
          if dbl_mag a = 0 then ''0''
          else let (v, x) = sci_parts (scaled_mag (dbl_mag a)) (2 ^ 1074) in
            if x < - 4 \<or> 6 \<le> x then
              strip_zeros (point_string 5 v) @ ''e'' @ (if x < 0 then ''-'' else ''+'') @
              pad_zeros 2 (to_string (nat \<bar>x\<bar>))
            else if x = 5 then to_string v
            else strip_zeros (point_string (nat (5 - x)) v))"

section \<open>Order\<close>

lemma bit_length_bounds: "n < 2 ^ bit_length n \<and> (0 < n \<longrightarrow> 2 ^ (bit_length n - 1) \<le> n)"
proof (induction n rule: bit_length.induct)
  case (1 n)
  show ?case
  proof (cases "n = 0")
    case False
    then have ih: "n div 2 < 2 ^ bit_length (n div 2)"
      "0 < n div 2 \<longrightarrow> 2 ^ (bit_length (n div 2) - 1) \<le> n div 2" using 1 by auto
    have step: "bit_length n = bit_length (n div 2) + 1"
      using False by (subst bit_length.simps) simp
    have "n < 2 * 2 ^ bit_length (n div 2)" using ih(1) by linarith
    moreover have "2 ^ bit_length (n div 2) \<le> n"
    proof (cases "n div 2 = 0")
      case True
      then have "bit_length (n div 2) = 0" by (subst bit_length.simps) simp
      then show ?thesis using False by simp
    next
      case half: False
      then have "bit_length (n div 2) = bit_length (n div 2 div 2) + 1" by (subst bit_length.simps) simp
      then have "2 ^ bit_length (n div 2) = 2 * 2 ^ (bit_length (n div 2) - 1)" by simp
      also have "\<dots> \<le> 2 * (n div 2)" using ih(2) half by simp
      finally show ?thesis by linarith
    qed
    ultimately show ?thesis by (simp add: step)
  qed (simp add: bit_length.simps)
qed

lemma bit_length_mono: "m \<le> n \<Longrightarrow> bit_length m \<le> bit_length n"
proof (rule ccontr)
  assume le: "m \<le> n" and "\<not> bit_length m \<le> bit_length n"
  then have "bit_length n \<le> bit_length m - 1" "0 < bit_length m" by auto
  then have "(2::nat) ^ bit_length n \<le> 2 ^ (bit_length m - 1)" by simp
  moreover have "0 < m" using \<open>0 < bit_length m\<close> by (cases m) (auto simp: bit_length.simps)
  ultimately show False using bit_length_bounds [of n] bit_length_bounds [of m] le by linarith
qed

lemma cross_div_mono:
  fixes n d n' d' :: nat
  assumes "n * d' \<le> n' * d" and "0 < d" and "0 < d'"
  shows "n div d \<le> n' div d'"
proof -
  have "n div d * d * d' \<le> n * d'" by simp
  also have "\<dots> \<le> n' * d" by (rule assms)
  finally have "d * (n div d * d') \<le> d * n'" by (simp add: ac_simps)
  then have "n div d * d' \<le> n'" using assms(2) by simp
  then show ?thesis using assms(3) by (simp add: less_eq_div_iff_mult_less_eq)
qed

lemma round_quot_bounds: "n div d \<le> round_quot n d" "round_quot n d \<le> n div d + 1"
  by (simp_all add: round_quot_def)

lemma half_transfer:
  fixes r d r' d' :: nat
  assumes "r * d' \<le> r' * d" and "0 < d" and "0 < d'"
  shows "2 * r' < d' \<Longrightarrow> 2 * r < d" and "2 * r' \<le> d' \<Longrightarrow> 2 * r \<le> d"
proof -
  have le: "(2 * r) * d' \<le> (2 * r') * d" using assms(1) by simp
  show "2 * r < d" if "2 * r' < d'"
  proof -
    have "(2 * r') * d < d' * d" using that assms(2) by simp
    then have "(2 * r) * d' < d * d'" using le by (simp only: mult.commute [of d d'])
    then show ?thesis using assms(3) by (rule_tac ccontr) (simp add: not_less)
  qed
  show "2 * r \<le> d" if "2 * r' \<le> d'"
  proof -
    have "(2 * r') * d \<le> d' * d" using that by simp
    then have "(2 * r) * d' \<le> d * d'" using le by (simp only: mult.commute [of d d'])
    then show ?thesis using assms(3) by (rule_tac ccontr) (simp add: not_le)
  qed
qed

lemma round_quot_mono:
  assumes le: "n * d' \<le> n' * d" and pos: "0 < d" "0 < d'"
  shows "round_quot n d \<le> round_quot n' d'"
proof (cases "n div d < n' div d'")
  case True
  then show ?thesis using round_quot_bounds(2) [of n d] round_quot_bounds(1) [of n' d'] by linarith
next
  case False
  then have q: "n div d = n' div d'" using cross_div_mono [OF le pos] by simp
  have shift: "r * y \<le> r' * x" if "(k * x + r) * y \<le> (k * y + r') * x" for k x y r r' :: nat
    using that by (simp add: algebra_simps)
  have "(n div d * d + n mod d) * d' \<le> (n div d * d' + n' mod d') * d"
    unfolding div_mult_mod_eq by (simp only: q div_mult_mod_eq le)
  then have r: "(n mod d) * d' \<le> (n' mod d') * d" by (rule shift)
  show ?thesis
  proof (cases "d' \<le> 2 * (n' mod d') \<and> (2 * (n' mod d') = d' \<longrightarrow> odd (n' div d'))")
    case True
    then have "round_quot n' d' = n' div d' + 1" by (auto simp: round_quot_def)
    then show ?thesis using round_quot_bounds(2) [of n d] q by simp
  next
    case False
    then consider (less) "2 * (n' mod d') < d'" | (tie) "2 * (n' mod d') = d'" "even (n' div d')" by force
    then have "round_quot n d = n div d"
    proof cases
      case less
      then show ?thesis using half_transfer(1) [OF r pos] by (simp add: round_quot_def)
    next
      case tie
      then show ?thesis using half_transfer(2) [OF r pos] q by (auto simp: round_quot_def)
    qed
    then show ?thesis using round_quot_bounds(1) [of n' d'] q by simp
  qed
qed

text \<open>The significand before the carry: never above 53 bits, and full once there is a shift.\<close>

lemma significand_bounds:
  assumes "0 < d"
  shows "round_quot (n * 2 ^ 1074) (d * 2 ^ shift_of n d) \<le> 2 ^ 53"
    and "0 < shift_of n d \<Longrightarrow> 2 ^ 52 \<le> round_quot (n * 2 ^ 1074) (d * 2 ^ shift_of n d)"
proof -
  let ?x = "n * 2 ^ 1074 div d" and ?s = "shift_of n d"
  have q: "n * 2 ^ 1074 div (d * 2 ^ ?s) = ?x div 2 ^ ?s" by (simp only: div_mult2_eq)
  have "?x < 2 ^ bit_length ?x" using bit_length_bounds by blast
  also have "\<dots> \<le> 2 ^ (53 + ?s)" by (rule power_increasing) (auto simp: shift_of_def)
  finally have "?x div 2 ^ ?s < 2 ^ 53" by (simp add: less_mult_imp_div_less power_add)
  then show "round_quot (n * 2 ^ 1074) (d * 2 ^ ?s) \<le> 2 ^ 53"
    using round_quot_bounds(2) [of "n * 2 ^ 1074" "d * 2 ^ ?s"] q by linarith
  assume s: "0 < ?s"
  then have b: "bit_length ?x - 1 = 52 + ?s" by (simp add: shift_of_def)
  then have "0 < ?x" by (rule_tac ccontr) (auto simp: bit_length.simps)
  then have "2 ^ (52 + ?s) \<le> ?x" using bit_length_bounds [of ?x] b by simp
  then have "2 ^ 52 \<le> ?x div 2 ^ ?s" by (simp add: less_eq_div_iff_mult_less_eq power_add)
  then show "2 ^ 52 \<le> round_quot (n * 2 ^ 1074) (d * 2 ^ ?s)"
    using round_quot_bounds(1) [of "n * 2 ^ 1074" "d * 2 ^ ?s"] q by linarith
qed

lemma shift_of_mono:
  assumes "n * d' \<le> n' * d" and "0 < d" and "0 < d'"
  shows "shift_of n d \<le> shift_of n' d'"
proof -
  have "(n * d') * 2 ^ 1074 \<le> (n' * d) * 2 ^ 1074" using assms(1) by (rule mult_le_mono1)
  then have "n * 2 ^ 1074 * d' \<le> n' * 2 ^ 1074 * d" by (simp only: ac_simps)
  then show ?thesis
    unfolding shift_of_def using assms(2,3) by (intro diff_le_mono bit_length_mono cross_div_mono)
qed

lemma mag_of_ratio_mono:
  assumes le: "n * d' \<le> n' * d" and pos: "0 < d" "0 < d'"
  shows "mag_of_ratio n d \<le> mag_of_ratio n' d'"
proof -
  let ?s = "shift_of n d" and ?s' = "shift_of n' d'"
  let ?m = "round_quot (n * 2 ^ 1074) (d * 2 ^ ?s)" and ?m' = "round_quot (n' * 2 ^ 1074) (d' * 2 ^ ?s')"
  have "?s * 2 ^ 52 + ?m \<le> ?s' * 2 ^ 52 + ?m'"
  proof (cases "?s = ?s'")
    case True
    have "?m \<le> ?m'"
    proof (rule round_quot_mono)
      have "(n * d') * (2 ^ 1074 * 2 ^ ?s) \<le> (n' * d) * (2 ^ 1074 * 2 ^ ?s)" using le by simp
      then show "n * 2 ^ 1074 * (d' * 2 ^ ?s') \<le> n' * 2 ^ 1074 * (d * 2 ^ ?s)"
        unfolding True by (simp only: ac_simps)
    qed (use pos in simp_all)
    then show ?thesis using True by simp
  next
    case False
    then have less: "?s + 1 \<le> ?s'" using shift_of_mono [OF le pos] by simp
    then have "?m \<le> 2 ^ 53" "2 ^ 52 \<le> ?m'"
      using significand_bounds(1) [OF pos(1)] significand_bounds(2) [OF pos(2), of n'] by auto
    moreover have "(?s + 1) * 2 ^ 52 \<le> ?s' * 2 ^ 52" using less by (simp only: mult_le_mono1)
    ultimately show ?thesis by simp
  qed
  then show ?thesis unfolding mag_of_ratio_def Let_def by (rule min.mono) simp
qed

lemma scaled_mag_mono: "m < n \<Longrightarrow> scaled_mag m < scaled_mag n"
proof -
  assume less: "m < n"
  let ?e = "m div 2 ^ 52" and ?f = "m mod 2 ^ 52" and ?e' = "n div 2 ^ 52" and ?f' = "n mod 2 ^ 52"
  have f: "?f < 2 ^ 52" by simp
  have parts: "?e < ?e' \<or> ?e = ?e' \<and> ?f < ?f'"
    using less by (metis div_le_mono le_neq_implies_less less_imp_le_nat mod_div_decomp nat_add_left_cancel_less)
  have top: "scaled_mag m < 2 ^ 53 * 2 ^ (?e - 1)"
    using f by (auto simp: scaled_mag_def Let_def)
  show ?thesis
  proof (cases "?e < ?e'")
    case True
    have "(2::nat) ^ 53 * 2 ^ (?e - 1) \<le> 2 ^ 52 * 2 ^ (?e' - 1)" if "?e \<noteq> 0"
      using True that by (simp only: power_add [symmetric]) (rule power_increasing, auto)
    moreover have "scaled_mag m < 2 ^ 52" if "?e = 0" using that f by (simp add: scaled_mag_def)
    moreover have "(1::nat) \<le> 2 ^ (?e' - 1)" by simp
    then have "(2::nat) ^ 52 \<le> 2 ^ 52 * 2 ^ (?e' - 1)" by simp
    moreover have "2 ^ 52 * 2 ^ (?e' - 1) \<le> scaled_mag n"
      using True by (simp add: scaled_mag_def Let_def)
    ultimately show ?thesis using top by (cases "?e = 0") linarith+
  next
    case False
    then show ?thesis using parts by (auto simp: scaled_mag_def Let_def)
  qed
qed

lemma scaled_mag_less_iff: "scaled_mag m < scaled_mag n \<longleftrightarrow> m < n"
  using scaled_mag_mono by (metis less_irrefl less_trans linorder_less_linear)

text \<open>The usual way to compare doubles: as signed magnitudes, with the two zeros equal.\<close>

definition dbl_key :: "double \<Rightarrow> int" where
  "dbl_key a = (if dbl_neg a then - int (dbl_mag a) else int (dbl_mag a))"

lemma scaled_mag_0 [simp]: "scaled_mag 0 = 0"
  by (simp add: scaled_mag_def)

lemma dbl_less_key: "dbl_less a b \<longleftrightarrow> \<not> is_nan a \<and> \<not> is_nan b \<and> dbl_key a < dbl_key b"
proof -
  have zero: "scaled_mag m = 0 \<longleftrightarrow> m = 0" for m using scaled_mag_less_iff [of 0 m] by auto
  have "scaled a < scaled b \<longleftrightarrow> dbl_key a < dbl_key b"
    using scaled_mag_less_iff [of "dbl_mag a" "dbl_mag b"] scaled_mag_less_iff [of "dbl_mag b" "dbl_mag a"]
      zero [of "dbl_mag a"] zero [of "dbl_mag b"]
    by (auto simp: scaled_def dbl_key_def)
  then show ?thesis by (simp add: dbl_less_def)
qed

lemma dbl_of_mag_parts:
  assumes "m < 2 ^ 63"
  shows "dbl_mag (dbl_of_mag s m) = m" and "dbl_neg (dbl_of_mag s m) = s"
proof -
  have "unat (dbl_of_mag s m) = (if s then 2 ^ 63 else 0) + m"
    using assms unfolding dbl_of_mag_def unat_of_nat by simp
  then show "dbl_mag (dbl_of_mag s m) = m" "dbl_neg (dbl_of_mag s m) = s"
    using assms by (auto simp: dbl_mag_def dbl_neg_def)
qed

lemma mag_of_ratio_le: "mag_of_ratio n d \<le> inf_mag"
  by (simp add: mag_of_ratio_def Let_def)

lemma inf_mag_less: "inf_mag < 2 ^ 63"
  by (simp add: inf_mag_def)

section \<open>Exact values\<close>

lemma bit_length_unique: "2 ^ b \<le> x \<Longrightarrow> x < 2 ^ Suc b \<Longrightarrow> bit_length x = Suc b"
proof -
  assume lo: "2 ^ b \<le> x" and hi: "x < 2 ^ Suc b"
  have pos: "0 < x" by (rule less_le_trans [OF _ lo]) simp
  have "(2::nat) ^ b < 2 ^ bit_length x" using bit_length_bounds [of x] lo by linarith
  then have "b < bit_length x" by (simp only: power_strict_increasing_iff one_less_numeral_iff semiring_norm)
  moreover have "(2::nat) ^ (bit_length x - 1) < 2 ^ Suc b" using bit_length_bounds [of x] pos hi by linarith
  then have "bit_length x - 1 < Suc b" by (simp only: power_strict_increasing_iff one_less_numeral_iff semiring_norm)
  ultimately show ?thesis by simp
qed

lemma round_quot_exact: "0 < d \<Longrightarrow> round_quot (q * d) d = q"
  by (simp add: round_quot_def)

text \<open>Rounding leaves representable values alone.\<close>

lemma mag_of_ratio_exact:
  assumes "n * 2 ^ 1074 = scaled_mag m * d" and "0 < d" and "m \<le> inf_mag"
  shows "mag_of_ratio n d = m"
proof -
  let ?e = "m div 2 ^ 52" and ?f = "m mod 2 ^ 52"
  have x: "n * 2 ^ 1074 div d = scaled_mag m" using assms(1,2) by simp
  have f: "?f < 2 ^ 52" by simp
  have m: "?e * 2 ^ 52 + ?f = m" by (rule div_mult_mod_eq)
  have "shift_of n d * 2 ^ 52 + round_quot (n * 2 ^ 1074) (d * 2 ^ shift_of n d) = m"
  proof (cases "?e = 0")
    case True
    then have sm: "scaled_mag m = m" "m < 2 ^ 52" using f by (auto simp: scaled_mag_def Let_def)
    have "bit_length m \<le> bit_length (2 ^ 52)" using sm(2) by (intro bit_length_mono) simp
    also have "bit_length (2 ^ 52) = Suc 52" by (rule bit_length_unique) simp_all
    finally have "shift_of n d = 0" unfolding shift_of_def x sm(1) by simp
    then show ?thesis using round_quot_exact [OF assms(2), of m] assms(1) sm(1) by simp
  next
    case False
    have sm: "scaled_mag m = (2 ^ 52 + ?f) * 2 ^ (?e - 1)" using False by (simp add: scaled_mag_def Let_def)
    have "bit_length (scaled_mag m) = Suc (52 + (?e - 1))"
    proof (rule bit_length_unique)
      show "2 ^ (52 + (?e - 1)) \<le> scaled_mag m" unfolding sm power_add by simp
      have "(2 ^ 52 + ?f) * 2 ^ (?e - 1) < 2 ^ 53 * 2 ^ (?e - 1)" using f by simp
      then show "scaled_mag m < 2 ^ Suc (52 + (?e - 1))" unfolding sm by (simp add: power_add)
    qed
    then have s: "shift_of n d = ?e - 1" unfolding shift_of_def x by simp
    have "n * 2 ^ 1074 = (2 ^ 52 + ?f) * (d * 2 ^ (?e - 1))" unfolding assms(1) sm by (simp only: ac_simps)
    then have "round_quot (n * 2 ^ 1074) (d * 2 ^ shift_of n d) = 2 ^ 52 + ?f"
      unfolding s using round_quot_exact [of "d * 2 ^ (?e - 1)"] assms(2) by simp
    moreover have "(?e - 1) * 2 ^ 52 + (2 ^ 52 + ?f) = m"
      using m False by (metis add.assoc add.commute Suc_pred' gr0I mult_Suc)
    ultimately show ?thesis unfolding s by simp
  qed
  then show ?thesis using assms(3) unfolding mag_of_ratio_def Let_def by simp
qed

lemma dbl_of_int_nonneg:
  assumes "0 \<le> i"
  shows "dbl_mag (dbl_of_int i) = mag_of_ratio (nat i) 1" and "\<not> dbl_neg (dbl_of_int i)"
proof -
  have "mag_of_ratio (nat i) 1 < 2 ^ 63" using mag_of_ratio_le inf_mag_less by (rule le_less_trans)
  then show "dbl_mag (dbl_of_int i) = mag_of_ratio (nat i) 1" "\<not> dbl_neg (dbl_of_int i)"
    using assms dbl_of_mag_parts [of "mag_of_ratio (nat i) 1"] by (simp_all add: dbl_of_int_def)
qed

lemma dbl_of_int_exact:
  assumes "0 \<le> i" and "nat i * 2 ^ 1074 = scaled_mag m" and "m \<le> inf_mag"
  shows "dbl_mag (dbl_of_int i) = m"
  using dbl_of_int_nonneg(1) [OF assms(1)] mag_of_ratio_exact [of "nat i" m 1] assms by simp

end
