(* ===== verification/Business_Logic.thy ===== *)
theory Business_Logic
  imports Telemetry_Packet Ieee_Double "HOL-Library.AList"
begin

text \<open>
  The class \<open>BusinessLogic\<close> (\<open>include/businessLogic.h\<close>, \<open>src/businessLogic.cpp\<close>): the table of drones, the
  alerts and the throughput reports. A point in time of \<open>steady_clock\<close> is its number of nanoseconds.
  \<open>run\<close> takes, for every turn of its loop, what \<open>stop_requested()\<close>, \<open>pop\<close> and \<open>Clock::now()\<close> returned;
  the messages it pushes to the log queue are a list in program order.
\<close>

section \<open>State and constants\<close>

text \<open>The hash map is an association list with one entry per key; its order is immaterial.\<close>

record BusinessLogic =
  m_drones :: "(string \<times> Telemetry) list"
  m_packets_processed :: u64
  m_start_time :: int
  m_last_report_time :: int
  m_packets_at_last_report :: u64

definition BusinessLogic_ctor :: BusinessLogic where
  "BusinessLogic_ctor = \<lparr>m_drones = [], m_packets_processed = 0, m_start_time = 0,
     m_last_report_time = 0, m_packets_at_last_report = 0\<rparr>"

definition REPORT_INTERVAL :: int where
  "REPORT_INTERVAL = 5"

definition ALTITUDE_THRESHOLD :: double where
  "ALTITUDE_THRESHOLD = 0x405E000000000000"

definition SPEED_THRESHOLD :: double where
  "SPEED_THRESHOLD = 0x4049000000000000"

definition active_drone_count :: "BusinessLogic \<Rightarrow> nat" where
  "active_drone_count b = length (m_drones b)"

section \<open>Operations\<close>

definition alert_message :: "string \<Rightarrow> string \<Rightarrow> double \<Rightarrow> double \<Rightarrow> string" where
  "alert_message drone quantity v threshold =
     ''[ALERT] Drone '' @ drone @ quantity @ general6 v @ '' exceeds threshold '' @
     general6 threshold @ newline"

definition check_alerts :: "Telemetry \<Rightarrow> string list" where
  "check_alerts t =
     (if dbl_less ALTITUDE_THRESHOLD (altitude t)
      then [alert_message (drone_id t) '' altitude '' (altitude t) ALTITUDE_THRESHOLD] else []) @
     (if dbl_less SPEED_THRESHOLD (speed t)
      then [alert_message (drone_id t) '' speed '' (speed t) SPEED_THRESHOLD] else [])"

text \<open>\<open>std::chrono::duration<double>\<close> of a difference of time points, and a rate.\<close>

definition seconds_of :: "int \<Rightarrow> double" where
  "seconds_of ns = dbl_div (dbl_of_int ns) (dbl_of_int 1000000000)"

definition pps :: "u64 \<Rightarrow> double \<Rightarrow> double" where
  "pps packets elapsed =
     (if dbl_less 0 elapsed then dbl_div (dbl_of_int (uint packets)) elapsed else 0)"

definition throughput_message :: "double \<Rightarrow> double \<Rightarrow> u64 \<Rightarrow> nat \<Rightarrow> string" where
  "throughput_message interval_pps avg_pps packets drones =
     ''[Throughput] '' @ fixed1 interval_pps @ '' pkt/s (interval), '' @ fixed1 avg_pps @
     '' pkt/s (avg), '' @ to_string (unat packets) @ '' total, '' @ to_string drones @ '' drones'' @ newline"

definition report_throughput :: "BusinessLogic \<Rightarrow> int \<Rightarrow> BusinessLogic \<times> string list" where
  "report_throughput b now =
     (let interval_elapsed = seconds_of (now - m_last_report_time b) in
      if dbl_less interval_elapsed (dbl_of_int REPORT_INTERVAL) then (b, [])
      else
        let interval_packets = m_packets_processed b - m_packets_at_last_report b;
            interval_pps = pps interval_packets interval_elapsed;
            avg_pps = pps (m_packets_processed b) (seconds_of (now - m_start_time b)) in
        (b\<lparr>m_last_report_time := now, m_packets_at_last_report := m_packets_processed b\<rparr>,
         [throughput_message interval_pps avg_pps (m_packets_processed b) (length (m_drones b))]))"

text \<open>The body of the loop of \<open>run\<close> for one packet.\<close>

definition handle_telemetry :: "BusinessLogic \<Rightarrow> Telemetry \<Rightarrow> int \<Rightarrow> BusinessLogic \<times> string list" where
  "handle_telemetry b t now =
     (let b = b\<lparr>m_drones := AList.update (drone_id t) t (m_drones b),
                m_packets_processed := m_packets_processed b + 1\<rparr>;
          alerts = check_alerts t;
          (b, reports) = report_throughput b now in
      (b, alerts @ reports))"

fun business_loop :: "BusinessLogic \<Rightarrow> (bool \<times> Telemetry option \<times> int) list \<Rightarrow>
    bool \<times> BusinessLogic \<times> string list" where
  "business_loop b [] = (False, b, [])"
| "business_loop b ((stop_requested, maybe_telem, now) # turns) =
     (if stop_requested then (True, b, [])
      else case maybe_telem of
        None \<Rightarrow> (True, b, [])
      | Some t \<Rightarrow>
          (case handle_telemetry b t now of
             (b', out) \<Rightarrow> (case business_loop b' turns of (left, b'', out') \<Rightarrow> (left, b'', out @ out'))))"

definition summary_message :: "BusinessLogic \<Rightarrow> int \<Rightarrow> string" where
  "summary_message b now =
     ''[BusinessLogic] Shutting down (processed '' @ to_string (unat (m_packets_processed b)) @
     '' packets, '' @ to_string (length (m_drones b)) @ '' unique drones, avg '' @
     fixed1 (pps (m_packets_processed b) (seconds_of (now - m_start_time b))) @ '' pkt/s)'' @ newline"

text \<open>\<open>run\<close>, with the time at its start and at its end; no summary while the loop is running.\<close>

definition business_run :: "BusinessLogic \<Rightarrow> int \<Rightarrow> (bool \<times> Telemetry option \<times> int) list \<Rightarrow> int \<Rightarrow>
    bool \<times> BusinessLogic \<times> string list" where
  "business_run b start_time turns end_time =
     (let b = b\<lparr>m_start_time := start_time, m_last_report_time := start_time\<rparr> in
      case business_loop b turns of
        (left, b', out) \<Rightarrow>
          (left, b', (''[BusinessLogic] Running'' @ newline) # out @
             (if left then [summary_message b' end_time] else [])))"

section \<open>Thresholds and the report interval\<close>

lemma not_nan_int: "\<not> is_nan (dbl_of_int i)"
proof -
  have "dbl_mag (dbl_of_int i) = mag_of_ratio (nat \<bar>i\<bar>) 1"
    unfolding dbl_of_int_def
    by (rule dbl_of_mag_parts(1)) (rule le_less_trans [OF mag_of_ratio_le inf_mag_less])
  then show ?thesis using mag_of_ratio_le by (simp add: is_nan_def not_less)
qed

lemma threshold_values:
  "scaled ALTITUDE_THRESHOLD = 120 * 2 ^ 1074" "\<not> is_nan ALTITUDE_THRESHOLD"
  "scaled SPEED_THRESHOLD = 50 * 2 ^ 1074" "\<not> is_nan SPEED_THRESHOLD"
  by (simp_all add: ALTITUDE_THRESHOLD_def SPEED_THRESHOLD_def scaled_def dbl_neg_def dbl_mag_def
      scaled_mag_def is_nan_def inf_mag_def Let_def)

lemma scaled_of_billion: "dbl_mag (dbl_of_int 1000000000) = 0x41CDCD6500000000"
  by (rule dbl_of_int_exact) (simp_all add: scaled_mag_def inf_mag_def)

lemma scaled_billion: "scaled_mag 0x41CDCD6500000000 = 1000000000 * 2 ^ 1074"
  by (simp add: scaled_mag_def)

lemma mag_five: "mag_of_ratio 5 1 = 0x4014000000000000"
  by (rule mag_of_ratio_exact) (simp_all add: scaled_mag_def inf_mag_def)

lemma mag_below_five: "mag_of_ratio (5 * 2 ^ 30 - 1) (2 ^ 30) = 0x4013FFFFFFF00000"
  by (rule mag_of_ratio_exact) (simp_all add: scaled_mag_def inf_mag_def)

lemma mag_interval:
  "mag_of_ratio 5000000000 1 = 0x41F2A05F20000000"
  "mag_of_ratio 4999999999 1 = 0x41F2A05F1FF00000"
  "mag_of_ratio 9223372036854775808 1 = 0x43E0000000000000"
  by (rule mag_of_ratio_exact; simp add: scaled_mag_def inf_mag_def)+

lemma scaled_interval:
  "scaled_mag 0x41F2A05F20000000 = 5000000000 * 2 ^ 1074"
  "scaled_mag 0x41F2A05F1FF00000 = 4999999999 * 2 ^ 1074"
  by (simp_all add: scaled_mag_def)

lemma scaled_mag_le: "m \<le> n \<Longrightarrow> scaled_mag m \<le> scaled_mag n"
  using scaled_mag_less_iff [of n m] by linarith

lemma seconds_of_parts:
  assumes "0 \<le> ns" and "ns < 2 ^ 63"
  shows "dbl_mag (seconds_of ns) =
      mag_of_ratio (scaled_mag (mag_of_ratio (nat ns) 1)) (1000000000 * 2 ^ 1074)"
    and "\<not> dbl_neg (seconds_of ns)"
proof -
  let ?a = "dbl_of_int ns" and ?b = "dbl_of_int 1000000000"
  note a = dbl_of_int_nonneg [OF assms(1)]
  have b: "dbl_mag ?b = 0x41CDCD6500000000" "\<not> dbl_neg ?b"
    by (rule scaled_of_billion) (simp add: dbl_of_int_nonneg)
  have "mag_of_ratio (nat ns) 1 \<le> mag_of_ratio 9223372036854775808 1"
    using assms by (intro mag_of_ratio_mono) simp_all
  then have "\<not> is_inf ?a" unfolding mag_interval(3) is_inf_def a(1) inf_mag_def by simp
  moreover have "\<not> is_inf ?b" "dbl_mag ?b \<noteq> 0" by (simp_all add: is_inf_def b inf_mag_def)
  ultimately have "seconds_of ns = dbl_of_mag False
      (mag_of_ratio (scaled_mag (mag_of_ratio (nat ns) 1)) (1000000000 * 2 ^ 1074))"
    using not_nan_int a b scaled_billion by (simp add: seconds_of_def dbl_div_def Let_def)
  then show "dbl_mag (seconds_of ns) =
      mag_of_ratio (scaled_mag (mag_of_ratio (nat ns) 1)) (1000000000 * 2 ^ 1074)"
    "\<not> dbl_neg (seconds_of ns)"
    using dbl_of_mag_parts [OF le_less_trans [OF mag_of_ratio_le inf_mag_less]] by simp_all
qed

lemma seconds_of_less_interval:
  assumes "0 \<le> ns" and "ns < 2 ^ 63"
  shows "dbl_less (seconds_of ns) (dbl_of_int REPORT_INTERVAL) \<longleftrightarrow> ns < 5000000000"
proof -
  let ?q = "mag_of_ratio (scaled_mag (mag_of_ratio (nat ns) 1)) (1000000000 * 2 ^ 1074)"
  have five: "dbl_mag (dbl_of_int 5) = 0x4014000000000000" "\<not> dbl_neg (dbl_of_int 5)"
    using dbl_of_int_nonneg [of 5] mag_five by simp_all
  have "\<not> is_nan (seconds_of ns)"
    using mag_of_ratio_le [of "scaled_mag (mag_of_ratio (nat ns) 1)"]
    by (simp add: is_nan_def seconds_of_parts(1) [OF assms] not_less)
  then have less: "dbl_less (seconds_of ns) (dbl_of_int REPORT_INTERVAL) \<longleftrightarrow> ?q < 0x4014000000000000"
    unfolding REPORT_INTERVAL_def
    by (simp add: dbl_less_key not_nan_int dbl_key_def seconds_of_parts [OF assms] five)
  show ?thesis
  proof (cases "ns < 5000000000")
    case True
    have "mag_of_ratio (nat ns) 1 \<le> mag_of_ratio 4999999999 1"
      using True assms by (intro mag_of_ratio_mono) simp_all
    then have "scaled_mag (mag_of_ratio (nat ns) 1) \<le> 4999999999 * 2 ^ 1074"
      using scaled_mag_le mag_interval(2) scaled_interval(2) by metis
    then have "?q \<le> mag_of_ratio (5 * 2 ^ 30 - 1) (2 ^ 30)"
      by (intro mag_of_ratio_mono) simp_all
    then show ?thesis using True less mag_below_five by simp
  next
    case False
    have "mag_of_ratio 5000000000 1 \<le> mag_of_ratio (nat ns) 1"
      using False assms by (intro mag_of_ratio_mono) simp_all
    then have "5000000000 * 2 ^ 1074 \<le> scaled_mag (mag_of_ratio (nat ns) 1)"
      using scaled_mag_le mag_interval(1) scaled_interval(1) by metis
    then have "mag_of_ratio 5 1 \<le> ?q" by (intro mag_of_ratio_mono) simp_all
    then show ?thesis using False less mag_five by simp
  qed
qed

section \<open>The table\<close>

definition latest :: "Telemetry list \<Rightarrow> string \<rightharpoonup> Telemetry" where
  "latest ts = map_of (rev (map (\<lambda>t. (drone_id t, t)) ts))"

definition is_alert :: "string \<Rightarrow> bool" where
  "is_alert m \<longleftrightarrow> take 7 m = ''[ALERT]''"

definition unique_keys :: "BusinessLogic \<Rightarrow> bool" where
  "unique_keys b \<longleftrightarrow> distinct (map fst (m_drones b))"

lemma report_throughput_frame:
  "report_throughput b now = (b', out) \<Longrightarrow>
   m_drones b' = m_drones b \<and> m_packets_processed b' = m_packets_processed b \<and> filter is_alert out = []"
  by (auto simp: report_throughput_def throughput_message_def is_alert_def Let_def split: if_splits)

lemma check_alerts_alert: "filter is_alert (check_alerts t) = check_alerts t"
  by (simp add: check_alerts_def alert_message_def is_alert_def)

lemma handle_telemetry_effect:
  assumes "handle_telemetry b t now = (b', out)"
  shows "map_of (m_drones b') = (map_of (m_drones b))(drone_id t \<mapsto> t)"
    and "m_packets_processed b' = m_packets_processed b + 1"
    and "unique_keys b \<Longrightarrow> unique_keys b'"
    and "filter is_alert out = check_alerts t"
  using assms
  by (auto simp: handle_telemetry_def Let_def unique_keys_def update_conv' check_alerts_alert
      distinct_update dest!: report_throughput_frame split: prod.splits)

lemma business_loop_effect:
  "business_loop b (map (\<lambda>(t, now). (False, Some t, now)) xs @ [(True, u, n)]) = (left, b', out) \<Longrightarrow>
   unique_keys b \<Longrightarrow>
   left \<and> map_of (m_drones b') = map_of (m_drones b) ++ latest (map fst xs) \<and>
   m_packets_processed b' = m_packets_processed b + of_nat (length xs) \<and> unique_keys b' \<and>
   filter is_alert out = concat (map check_alerts (map fst xs))"
proof (induction xs arbitrary: b left b' out)
  case Nil
  then show ?case by (auto simp: latest_def)
next
  case (Cons x xs)
  obtain t now where x: "x = (t, now)" by fastforce
  obtain b1 out1 where h: "handle_telemetry b t now = (b1, out1)" by fastforce
  obtain l2 b2 out2 where r:
    "business_loop b1 (map (\<lambda>(t, now). (False, Some t, now)) xs @ [(True, u, n)]) = (l2, b2, out2)"
    by (cases "business_loop b1 (map (\<lambda>(t, now). (False, Some t, now)) xs @ [(True, u, n)])") auto
  note e = handle_telemetry_effect [OF h]
  have "map_of (m_drones b1) ++ latest (map fst xs) = map_of (m_drones b) ++ latest (map fst (x # xs))"
    by (simp add: e(1) x latest_def map_add_def fun_eq_iff split: option.split)
  then show ?case
    using Cons.IH [OF r e(3)] Cons.prems h r e(2,4) x by (auto simp: ac_simps)
qed

lemma unique_keys_count: "unique_keys b \<Longrightarrow> length (m_drones b) = card (dom (map_of (m_drones b)))"
  by (metis dom_map_of_conv_image_fst distinct_card length_map list.set_map unique_keys_def)

lemma dom_latest: "dom (latest ts) = drone_id ` set ts"
  by (simp add: latest_def dom_map_of_conv_image_fst image_image)

text \<open>The thresholds as exact values (in units of \<open>2 ^ -1074\<close>): a NaN raises no alert, positive infinity does.\<close>

lemma check_alerts_exact:
  "check_alerts t =
     (if \<not> is_nan (altitude t) \<and> 120 * 2 ^ 1074 < scaled (altitude t)
      then [alert_message (drone_id t) '' altitude '' (altitude t) ALTITUDE_THRESHOLD] else []) @
     (if \<not> is_nan (speed t) \<and> 50 * 2 ^ 1074 < scaled (speed t)
      then [alert_message (drone_id t) '' speed '' (speed t) SPEED_THRESHOLD] else [])"
  unfolding check_alerts_def dbl_less_def threshold_values using threshold_values(2,4) by simp

section \<open>Properties\<close>

text \<open>
  C27: the throughput is reported exactly when at least five seconds, to the nanosecond, have passed
  since the last report (or the start), although the code compares rounded doubles; the report
  restarts the interval and its packet count.
\<close>

theorem throughput_reported_after_five_seconds:
  assumes "m_last_report_time b \<le> now" and "now - m_last_report_time b < 2 ^ 63"
  shows "report_throughput b now =
    (if now - m_last_report_time b < 5 * 10 ^ 9 then (b, [])
     else (b\<lparr>m_last_report_time := now, m_packets_at_last_report := m_packets_processed b\<rparr>,
       [throughput_message
          (pps (m_packets_processed b - m_packets_at_last_report b) (seconds_of (now - m_last_report_time b)))
          (pps (m_packets_processed b) (seconds_of (now - m_start_time b)))
          (m_packets_processed b) (active_drone_count b)]))"
  using seconds_of_less_interval [of "now - m_last_report_time b"] assms
  by (simp add: report_throughput_def Let_def active_drone_count_def)

theorem throughput_reported_after_five_seconds_witness:
  "report_throughput (BusinessLogic_ctor\<lparr>m_last_report_time := 1000000000\<rparr>) 5999999999 =
     (BusinessLogic_ctor\<lparr>m_last_report_time := 1000000000\<rparr>, [])"
  using throughput_reported_after_five_seconds
    [of "BusinessLogic_ctor\<lparr>m_last_report_time := 1000000000\<rparr>" 5999999999]
  by simp

text \<open>
  C25: after any sequence of packets the thread, once stopped, returns with a table that maps every
  drone that sent one to the last packet it sent and knows no other drone, with the number of
  packets counted modulo \<open>2 ^ 64\<close> and the number of drones; the alerts it pushed are those of the
  packets, in order.
\<close>

theorem business_tracks_latest:
  "\<exists>b out. business_run BusinessLogic_ctor start
       (map (\<lambda>(t, now). (False, Some t, now)) xs @ [(True, unread, n)]) end_time =
     (True, b, out @ [summary_message b end_time]) \<and>
   map_of (m_drones b) = latest (map fst xs) \<and>
   m_packets_processed b = of_nat (length xs) \<and>
   active_drone_count b = card (drone_id ` set (map fst xs)) \<and>
   filter is_alert out = concat (map check_alerts (map fst xs))"
proof -
  let ?b = "BusinessLogic_ctor\<lparr>m_start_time := start, m_last_report_time := start\<rparr>"
    and ?turns = "map (\<lambda>(t, now). (False, Some t, now)) xs @ [(True, unread, n)]"
  obtain left b out where r: "business_loop ?b ?turns = (left, b, out)" by (cases "business_loop ?b ?turns") auto
  have "unique_keys ?b" by (simp add: unique_keys_def BusinessLogic_ctor_def)
  note e = business_loop_effect [OF r this]
  then have "active_drone_count b = card (drone_id ` set (map fst xs))"
    using unique_keys_count [of b] dom_latest [of "map fst xs"]
    by (simp add: active_drone_count_def BusinessLogic_ctor_def)
  moreover have "\<not> is_alert (''[BusinessLogic] Running'' @ newline)" by (simp add: is_alert_def)
  ultimately show ?thesis
    using e r
    by (intro exI [of _ b] exI [of _ "(''[BusinessLogic] Running'' @ newline) # out"])
      (simp add: business_run_def BusinessLogic_ctor_def)
qed

end
