(* ===== verification/Thread_Safe_Queue.thy ===== *)
theory Thread_Safe_Queue
  imports Prelude
begin

text \<open>
  The class \<open>ThreadSafeQueue\<close> (\<open>include/threadSafeQueue.h\<close>). The first half models the critical
  section of each operation as a function of the queue and of what \<open>stop_requested()\<close> returns; a
  thread that has to wait on a condition variable is the value \<open>None\<close>. The second half is the
  monitor: threads that call the operations, block on the two condition variables, are woken by
  \<open>notify_one\<close>, by a stop request or spuriously, in any order, as a step relation. The interface that
  the other components rely on is the locale \<open>fifo_channel\<close>.
\<close>

section \<open>Operations\<close>

record 'a ThreadSafeQueue =
  m_queue :: "'a list"
  m_max_size :: nat

definition ThreadSafeQueue_ctor :: "nat \<Rightarrow> 'a ThreadSafeQueue" where
  "ThreadSafeQueue_ctor max_size = \<lparr>m_queue = [], m_max_size = max_size\<rparr>"

text \<open>
  \<open>condition_variable_any::wait(lock, stop_token, pred)\<close>: true as soon as the predicate holds, even
  when a stop was requested; false when it does not hold and a stop was requested; it blocks otherwise.
\<close>

definition cv_wait :: "bool \<Rightarrow> bool \<Rightarrow> bool option" where
  "cv_wait stop_requested pred =
     (if pred then Some True else if stop_requested then Some False else None)"

text \<open>\<open>push\<close> reads the stop token twice, in the wait and after it.\<close>

definition tsq_push :: "'a ThreadSafeQueue \<Rightarrow> 'a \<Rightarrow> bool \<Rightarrow> bool \<Rightarrow> (bool \<times> 'a ThreadSafeQueue) option" where
  "tsq_push q item stop_in_wait stop_after =
     (case (if 0 < m_max_size q
            then cv_wait stop_in_wait (length (m_queue q) < m_max_size q)
            else Some True) of
        None \<Rightarrow> None
      | Some False \<Rightarrow> Some (False, q)
      | Some True \<Rightarrow>
          if stop_after then Some (False, q)
          else Some (True, q\<lparr>m_queue := m_queue q @ [item]\<rparr>))"

definition tsq_pop :: "'a ThreadSafeQueue \<Rightarrow> bool \<Rightarrow> ('a option \<times> 'a ThreadSafeQueue) option" where
  "tsq_pop q stop_requested =
     (case cv_wait stop_requested (m_queue q \<noteq> []) of
        None \<Rightarrow> None
      | Some False \<Rightarrow> Some (None, q)
      | Some True \<Rightarrow> Some (Some (hd (m_queue q)), q\<lparr>m_queue := tl (m_queue q)\<rparr>))"

definition tsq_size :: "'a ThreadSafeQueue \<Rightarrow> nat" where
  "tsq_size q = length (m_queue q)"

definition has_room :: "'a ThreadSafeQueue \<Rightarrow> bool" where
  "has_room q \<longleftrightarrow> m_max_size q = 0 \<or> length (m_queue q) < m_max_size q"

lemma tsq_push_simps:
  "tsq_push q x s1 s2 =
     (if has_room q
      then if s2 then Some (False, q) else Some (True, q\<lparr>m_queue := m_queue q @ [x]\<rparr>)
      else if s1 then Some (False, q) else None)"
  by (auto simp: tsq_push_def cv_wait_def has_room_def)

lemma tsq_pop_simps:
  "tsq_pop q s =
     (case m_queue q of
        [] \<Rightarrow> if s then Some (None, q) else None
      | x # xs \<Rightarrow> Some (Some x, q\<lparr>m_queue := xs\<rparr>))"
  by (auto simp: tsq_pop_def cv_wait_def split: list.split)

section \<open>The interface of a channel\<close>

locale fifo_channel =
  fixes send :: "'q \<Rightarrow> 'a \<Rightarrow> 'q option"
    and receive :: "'q \<Rightarrow> ('a \<times> 'q) option"
    and items :: "'q \<Rightarrow> 'a list"
  assumes send_items: "send q x = Some q' \<Longrightarrow> items q' = items q @ [x]"
    and receive_items: "receive q = Some (x, q') \<Longrightarrow> items q = x # items q'"
    and receive_None: "receive q = None \<Longrightarrow> items q = []"
begin

text \<open>Any interleaving of sends (with an item) and receives (without), as far as it does not block.\<close>

fun traffic :: "'q \<Rightarrow> 'a option list \<Rightarrow> 'a list \<times> 'q" where
  "traffic q [] = ([], q)"
| "traffic q (Some x # ops) =
     (case send q x of None \<Rightarrow> traffic q ops | Some q' \<Rightarrow> traffic q' ops)"
| "traffic q (None # ops) =
     (case receive q of None \<Rightarrow> traffic q ops
      | Some (x, q') \<Rightarrow> (let (xs, q'') = traffic q' ops in (x # xs, q'')))"

fun sent :: "'q \<Rightarrow> 'a option list \<Rightarrow> 'a list" where
  "sent q [] = []"
| "sent q (Some x # ops) =
     (case send q x of None \<Rightarrow> sent q ops | Some q' \<Rightarrow> x # sent q' ops)"
| "sent q (None # ops) =
     (case receive q of None \<Rightarrow> sent q ops | Some (x, q') \<Rightarrow> sent q' ops)"

lemma fifo:
  "fst (traffic q ops) @ items (snd (traffic q ops)) = items q @ sent q ops"
  by (induction q ops rule: traffic.induct)
    (auto simp: send_items receive_items split: option.splits prod.splits)

end

definition tsq_send :: "'a ThreadSafeQueue \<Rightarrow> 'a \<Rightarrow> 'a ThreadSafeQueue option" where
  "tsq_send q x = (case tsq_push q x False False of Some (True, q') \<Rightarrow> Some q' | _ \<Rightarrow> None)"

definition tsq_receive :: "'a ThreadSafeQueue \<Rightarrow> ('a \<times> 'a ThreadSafeQueue) option" where
  "tsq_receive q = (case tsq_pop q True of Some (Some x, q') \<Rightarrow> Some (x, q') | _ \<Rightarrow> None)"

interpretation tsq: fifo_channel tsq_send tsq_receive m_queue
  by unfold_locales
    (auto simp: tsq_send_def tsq_receive_def tsq_push_simps tsq_pop_simps
      split: if_splits list.splits)

section \<open>The monitor\<close>

text \<open>
  A call names the stop token it was given; \<open>None\<close> is the default token \<open>{}\<close>, which never stops. A
  thread is outside the queue, about to take the mutex, or blocked on the condition variable of its
  call: \<open>m_not_full\<close> for \<open>push\<close>, \<open>m_not_empty\<close> for \<open>pop\<close>. The lists \<open>pushed\<close> and \<open>popped\<close> record the
  items that successful calls inserted and returned, in the order of their critical sections.
\<close>

datatype 'a op = Push 'a "nat option" | Pop "nat option"

datatype 'a status = Idle | Ready "'a op" | Waiting "'a op"

record 'a monitor =
  queue :: "'a ThreadSafeQueue"
  threads :: "'a status list"
  stops :: "nat set"
  pushed :: "'a list"
  popped :: "'a list"

fun op_token :: "'a op \<Rightarrow> nat option" where
  "op_token (Push x st) = st"
| "op_token (Pop st) = st"

fun stopped :: "nat set \<Rightarrow> nat option \<Rightarrow> bool" where
  "stopped S None = False"
| "stopped S (Some k) = (k \<in> S)"

fun on_not_empty :: "'a status \<Rightarrow> bool" where
  "on_not_empty (Waiting (Pop st)) = True"
| "on_not_empty _ = False"

fun on_not_full :: "'a status \<Rightarrow> bool" where
  "on_not_full (Waiting (Push x st)) = True"
| "on_not_full _ = False"

fun popping :: "'a status \<Rightarrow> bool" where
  "popping (Ready (Pop st)) = True"
| "popping _ = False"

fun pushing :: "'a status \<Rightarrow> bool" where
  "pushing (Ready (Push x st)) = True"
| "pushing _ = False"

fun wake :: "'a status \<Rightarrow> 'a status" where
  "wake (Waiting c) = Ready c"
| "wake st = st"

text \<open>\<open>notify_one\<close> wakes one thread of those blocked on the condition variable, if there is one.\<close>

inductive notify_one :: "('a status \<Rightarrow> bool) \<Rightarrow> 'a status list \<Rightarrow> 'a status list \<Rightarrow> bool"
  for on_cv where
  none: "list_all (\<lambda>t. \<not> on_cv t) ts \<Longrightarrow> notify_one on_cv ts ts"
| one: "i < length ts \<Longrightarrow> on_cv (ts ! i) \<Longrightarrow> notify_one on_cv ts (ts[i := wake (ts ! i)])"

text \<open>
  A wait with a stop token registers a callback that notifies all threads on the condition variable.
  So a stop request wakes every thread on a condition variable on which some thread is blocked with
  that token. (The callback of a thread that was woken and has not returned from its wait notifies the
  others too: to them that is a spurious wake-up.)
\<close>

fun blocked_with :: "nat \<Rightarrow> 'a status \<Rightarrow> bool" where
  "blocked_with k (Waiting c) = (op_token c = Some k)"
| "blocked_with k _ = False"

definition stop_wakes :: "nat \<Rightarrow> 'a status list \<Rightarrow> 'a status \<Rightarrow> 'a status" where
  "stop_wakes k ts t =
     (if list_ex (\<lambda>t'. blocked_with k t' \<and> on_not_empty t' = on_not_empty t) ts then wake t else t)"

definition request_stop :: "nat \<Rightarrow> 'a monitor \<Rightarrow> 'a monitor" where
  "request_stop k s = s\<lparr>stops := insert k (stops s), threads := map (stop_wakes k (threads s)) (threads s)\<rparr>"

definition set_thread :: "nat \<Rightarrow> 'a status \<Rightarrow> 'a monitor \<Rightarrow> 'a monitor" where
  "set_thread i t s = s\<lparr>threads := (threads s)[i := t]\<rparr>"

text \<open>The calls that the threads of the program make are those that \<open>allowed\<close> admits.\<close>

inductive mstep :: "('a op \<Rightarrow> bool) \<Rightarrow> 'a monitor \<Rightarrow> 'a monitor \<Rightarrow> bool" for allowed where
  call: "i < length (threads s) \<Longrightarrow> threads s ! i = Idle \<Longrightarrow> allowed c \<Longrightarrow>
     mstep allowed s (set_thread i (Ready c) s)"
| push_blocks: "i < length (threads s) \<Longrightarrow> threads s ! i = Ready (Push x st) \<Longrightarrow>
     tsq_push (queue s) x (stopped (stops s) st) (stopped (stops s) st) = None \<Longrightarrow>
     mstep allowed s (set_thread i (Waiting (Push x st)) s)"
| push_refused: "i < length (threads s) \<Longrightarrow> threads s ! i = Ready (Push x st) \<Longrightarrow>
     tsq_push (queue s) x (stopped (stops s) st) (stopped (stops s) st) = Some (False, q) \<Longrightarrow>
     mstep allowed s ((set_thread i Idle s)\<lparr>queue := q\<rparr>)"
| push_races_stop: "i < length (threads s) \<Longrightarrow> threads s ! i = Ready (Push x (Some k)) \<Longrightarrow>
     k \<notin> stops s \<Longrightarrow> tsq_push (queue s) x False True = Some (False, q) \<Longrightarrow>
     mstep allowed s (request_stop k ((set_thread i Idle s)\<lparr>queue := q\<rparr>))"
| push_done: "i < length (threads s) \<Longrightarrow> threads s ! i = Ready (Push x st) \<Longrightarrow>
     tsq_push (queue s) x (stopped (stops s) st) (stopped (stops s) st) = Some (True, q) \<Longrightarrow>
     notify_one on_not_empty ((threads s)[i := Idle]) ts \<Longrightarrow>
     mstep allowed s (s\<lparr>queue := q, threads := ts, pushed := pushed s @ [x]\<rparr>)"
| pop_blocks: "i < length (threads s) \<Longrightarrow> threads s ! i = Ready (Pop st) \<Longrightarrow>
     tsq_pop (queue s) (stopped (stops s) st) = None \<Longrightarrow>
     mstep allowed s (set_thread i (Waiting (Pop st)) s)"
| pop_stopped: "i < length (threads s) \<Longrightarrow> threads s ! i = Ready (Pop st) \<Longrightarrow>
     tsq_pop (queue s) (stopped (stops s) st) = Some (None, q) \<Longrightarrow>
     mstep allowed s ((set_thread i Idle s)\<lparr>queue := q\<rparr>)"
| pop_done: "i < length (threads s) \<Longrightarrow> threads s ! i = Ready (Pop st) \<Longrightarrow>
     tsq_pop (queue s) (stopped (stops s) st) = Some (Some x, q) \<Longrightarrow>
     notify_one on_not_full ((threads s)[i := Idle]) ts \<Longrightarrow>
     mstep allowed s (s\<lparr>queue := q, threads := ts, popped := popped s @ [x]\<rparr>)"
| stop: "mstep allowed s (request_stop k s)"
| spurious: "i < length (threads s) \<Longrightarrow> threads s ! i = Waiting c \<Longrightarrow>
     mstep allowed s (set_thread i (Ready c) s)"

definition idle_monitor :: "nat \<Rightarrow> nat \<Rightarrow> 'a monitor" where
  "idle_monitor max_size n =
     \<lparr>queue = ThreadSafeQueue_ctor max_size, threads = replicate n Idle, stops = {},
      pushed = [], popped = []\<rparr>"

section \<open>Counting threads\<close>

definition many :: "('a status \<Rightarrow> bool) \<Rightarrow> 'a status list \<Rightarrow> nat" where
  "many P ts = length (filter P ts)"

lemma many_Cons: "many P (t # ts) = (if P t then 1 else 0) + many P ts"
  by (simp add: many_def)

lemma many_Nil: "many P [] = 0"
  by (simp add: many_def)

lemma many_update:
  "i < length ts \<Longrightarrow> many P (ts[i := t]) + (if P (ts ! i) then 1 else 0) =
     many P ts + (if P t then 1 else 0)"
proof (induction ts arbitrary: i)
  case (Cons a ts)
  then show ?case using Cons.IH [of "i - 1"] by (cases i) (auto simp: many_Cons)
qed simp

lemma many_pos: "i < length ts \<Longrightarrow> P (ts ! i) \<Longrightarrow> 0 < many P ts"
  unfolding many_def by (metis filter_empty_conv length_greater_0_conv nth_mem)

lemma many_zero: "list_all (\<lambda>t. \<not> P t) ts \<Longrightarrow> many P ts = 0"
  by (simp add: many_def list_all_iff)

lemma many_posD: "0 < many P ts \<Longrightarrow> \<exists>i < length ts. P (ts ! i)"
  unfolding many_def by (metis in_set_conv_nth length_greater_0_conv filter_empty_conv)

lemma many_mono: "(\<And>t. t \<in> set ts \<Longrightarrow> P t \<Longrightarrow> P (f t)) \<Longrightarrow> many P ts \<le> many P (map f ts)"
  by (induction ts) (auto simp: many_Cons many_Nil)

lemma many_anti: "(\<And>t. t \<in> set ts \<Longrightarrow> P (f t) \<Longrightarrow> P t) \<Longrightarrow> many P (map f ts) \<le> many P ts"
  by (induction ts) (auto simp: many_Cons many_Nil)

lemmas many_updates =
  many_update [where P = on_not_empty] many_update [where P = on_not_full]
  many_update [where P = popping] many_update [where P = pushing]

lemma notify_not_empty:
  assumes "notify_one on_not_empty ts ts'"
  shows "length ts' = length ts"
    and "many on_not_empty ts' \<le> many on_not_empty ts"
    and "many on_not_empty ts = 0 \<and> many popping ts' = many popping ts \<or>
         many popping ts' = Suc (many popping ts)"
    and "many on_not_full ts' = many on_not_full ts" and "many pushing ts' = many pushing ts"
  using assms
proof (induction rule: notify_one.induct)
  case (one i ts)
  obtain st where w: "ts ! i = Waiting (Pop st)" using one(2) by (cases "ts ! i" rule: on_not_empty.cases) auto
  note u = many_updates [OF one(1), of "wake (ts ! i)"]
  { case 1 then show ?case by simp }
  { case 2 then show ?case using u w by simp }
  { case 3 then show ?case using u w by simp }
  { case 4 then show ?case using u w by simp }
  { case 5 then show ?case using u w by simp }
qed (simp_all add: many_zero)

lemma notify_not_full:
  assumes "notify_one on_not_full ts ts'"
  shows "length ts' = length ts"
    and "many on_not_full ts' \<le> many on_not_full ts"
    and "many on_not_full ts = 0 \<and> many pushing ts' = many pushing ts \<or>
         many pushing ts' = Suc (many pushing ts)"
    and "many on_not_empty ts' = many on_not_empty ts" and "many popping ts' = many popping ts"
  using assms
proof (induction rule: notify_one.induct)
  case (one i ts)
  obtain x st where w: "ts ! i = Waiting (Push x st)" using one(2) by (cases "ts ! i" rule: on_not_full.cases) auto
  note u = many_updates [OF one(1), of "wake (ts ! i)"]
  { case 1 then show ?case by simp }
  { case 2 then show ?case using u w by simp }
  { case 3 then show ?case using u w by simp }
  { case 4 then show ?case using u w by simp }
  { case 5 then show ?case using u w by simp }
qed (simp_all add: many_zero)

lemma stop_wakes_status:
  "on_not_empty (stop_wakes k ts t) \<Longrightarrow> on_not_empty t"
  "on_not_full (stop_wakes k ts t) \<Longrightarrow> on_not_full t"
  "popping t \<Longrightarrow> popping (stop_wakes k ts t)"
  "pushing t \<Longrightarrow> pushing (stop_wakes k ts t)"
  by (cases t; auto simp: stop_wakes_def split: if_splits)+

lemma many_stop_wakes:
  "many on_not_empty (map (stop_wakes k ts') ts) \<le> many on_not_empty ts"
  "many on_not_full (map (stop_wakes k ts') ts) \<le> many on_not_full ts"
  "many popping ts \<le> many popping (map (stop_wakes k ts') ts)"
  "many pushing ts \<le> many pushing (map (stop_wakes k ts') ts)"
  by (auto intro!: many_anti many_mono intro: stop_wakes_status)

section \<open>Invariants\<close>

definition fifo_inv :: "'a monitor \<Rightarrow> bool" where
  "fifo_inv s \<longleftrightarrow> pushed s = popped s @ m_queue (queue s) \<and>
     (0 < m_max_size (queue s) \<longrightarrow> length (m_queue (queue s)) \<le> m_max_size (queue s))"

text \<open>A consumer waits only while there are as many woken consumers as items.\<close>

definition pop_wake_inv :: "'a monitor \<Rightarrow> bool" where
  "pop_wake_inv s \<longleftrightarrow> many on_not_empty (threads s) = 0 \<or>
     length (m_queue (queue s)) \<le> many popping (threads s)"

definition push_wake_inv :: "'a monitor \<Rightarrow> bool" where
  "push_wake_inv s \<longleftrightarrow> many on_not_full (threads s) = 0 \<or>
     0 < m_max_size (queue s) \<and>
     m_max_size (queue s) \<le> length (m_queue (queue s)) + many pushing (threads s)"

text \<open>No thread waits with a token whose stop was requested.\<close>

fun may_wait :: "nat set \<Rightarrow> 'a status \<Rightarrow> bool" where
  "may_wait S (Waiting c) = (\<not> stopped S (op_token c))"
| "may_wait S _ = True"

definition stop_inv :: "'a monitor \<Rightarrow> bool" where
  "stop_inv s \<longleftrightarrow> list_all (may_wait (stops s)) (threads s)"

lemmas monitor_simps = set_thread_def request_stop_def

lemma tsq_push_cases:
  "tsq_push q x s1 s2 = None \<longleftrightarrow> \<not> has_room q \<and> \<not> s1"
  "tsq_push q x s1 s2 = Some (False, q') \<longleftrightarrow> (if has_room q then s2 else s1) \<and> q' = q"
  "tsq_push q x s1 s2 = Some (True, q') \<longleftrightarrow>
     has_room q \<and> \<not> s2 \<and> q' = q\<lparr>m_queue := m_queue q @ [x]\<rparr>"
  by (auto simp: tsq_push_simps)

lemma tsq_pop_cases:
  "tsq_pop q s = None \<longleftrightarrow> m_queue q = [] \<and> \<not> s"
  "tsq_pop q s = Some (None, q') \<longleftrightarrow> m_queue q = [] \<and> s \<and> q' = q"
  "tsq_pop q s = Some (Some x, q') \<longleftrightarrow>
     (\<exists>xs. m_queue q = x # xs \<and> q' = q\<lparr>m_queue := xs\<rparr>)"
  by (auto simp: tsq_pop_simps split: list.splits)

lemma fifo_inv_step: "mstep allowed s s' \<Longrightarrow> fifo_inv s \<Longrightarrow> fifo_inv s'"
  by (induction rule: mstep.induct)
    (auto simp: fifo_inv_def monitor_simps tsq_push_cases tsq_pop_cases has_room_def)

lemma max_size_step: "mstep allowed s s' \<Longrightarrow> m_max_size (queue s') = m_max_size (queue s)"
  by (induction rule: mstep.induct) (auto simp: monitor_simps tsq_push_cases tsq_pop_cases)

lemma pop_wake_inv_step: "mstep allowed s s' \<Longrightarrow> pop_wake_inv s \<Longrightarrow> pop_wake_inv s'"
proof (induction rule: mstep.induct)
  case (call i s c)
  then show ?case using many_updates [OF call(1), of "Ready c"]
    by (cases c) (auto simp: pop_wake_inv_def monitor_simps)
next
  case (push_blocks i s x st)
  then show ?case using many_updates [OF push_blocks(1), of "Waiting (Push x st)"]
    by (auto simp: pop_wake_inv_def monitor_simps)
next
  case (push_refused i s x st q)
  then show ?case using many_updates [OF push_refused(1), of Idle]
    by (auto simp: pop_wake_inv_def monitor_simps tsq_push_cases)
next
  case (push_races_stop i s x k q)
  then show ?case
    using many_updates [OF push_races_stop(1), of Idle] many_stop_wakes [where k = k and ts = "(threads s)[i := Idle]" and ts' = "(threads s)[i := Idle]"]
    by (auto simp: pop_wake_inv_def monitor_simps tsq_push_cases)
next
  case (push_done i s x st q ts)
  then show ?case using many_updates [OF push_done(1), of Idle] notify_not_empty [OF push_done(4)]
    by (auto simp: pop_wake_inv_def tsq_push_cases)
next
  case (pop_blocks i s st)
  then show ?case by (auto simp: pop_wake_inv_def monitor_simps tsq_pop_cases)
next
  case (pop_stopped i s st q)
  then show ?case by (auto simp: pop_wake_inv_def monitor_simps tsq_pop_cases)
next
  case (pop_done i s st x q ts)
  then show ?case using many_updates [OF pop_done(1), of Idle] notify_not_full [OF pop_done(4)]
    by (auto simp: pop_wake_inv_def tsq_pop_cases)
next
  case (stop s k)
  then show ?case using many_stop_wakes [where k = k and ts = "threads s" and ts' = "threads s"] by (auto simp: pop_wake_inv_def monitor_simps)
next
  case (spurious i s c)
  then show ?case using many_updates [OF spurious(1), of "Ready c"]
    by (cases c) (auto simp: pop_wake_inv_def monitor_simps)
qed

text \<open>Producers are woken as reliably when none of them can be stopped.\<close>

lemma push_wake_inv_step:
  assumes "mstep allowed s s'" and "\<And>x k. \<not> allowed (Push x (Some k))"
    and "list_all (\<lambda>t. \<forall>x k. t \<noteq> Ready (Push x (Some k))) (threads s)"
    and "push_wake_inv s"
  shows "push_wake_inv s'"
  using assms
proof (induction rule: mstep.induct)
  case (call i s c)
  then show ?case using many_updates [OF call(1), of "Ready c"]
    by (cases c) (auto simp: push_wake_inv_def monitor_simps)
next
  case (push_blocks i s x st)
  then show ?case using many_updates [OF push_blocks(1), of "Waiting (Push x st)"]
    by (auto simp: push_wake_inv_def monitor_simps tsq_push_cases has_room_def)
next
  case (push_refused i s x st q)
  then show ?case
    by (cases st) (auto simp: tsq_push_cases list_all_length split: if_splits)
next
  case (push_races_stop i s x k q)
  then show ?case by (auto simp: list_all_length)
next
  case (push_done i s x st q ts)
  then show ?case using many_updates [OF push_done(1), of Idle] notify_not_empty [OF push_done(4)]
    by (auto simp: push_wake_inv_def tsq_push_cases)
next
  case (pop_blocks i s st)
  then show ?case using many_updates [OF pop_blocks(1), of "Waiting (Pop st)"]
    by (auto simp: push_wake_inv_def monitor_simps)
next
  case (pop_stopped i s st q)
  then show ?case using many_updates [OF pop_stopped(1), of Idle]
    by (auto simp: push_wake_inv_def monitor_simps tsq_pop_cases)
next
  case (pop_done i s st x q ts)
  then show ?case using many_updates [OF pop_done(1), of Idle] notify_not_full [OF pop_done(4)]
    by (auto simp: push_wake_inv_def tsq_pop_cases)
next
  case (stop s k)
  then show ?case using many_stop_wakes [where k = k and ts = "threads s" and ts' = "threads s"]
    by (auto simp: push_wake_inv_def monitor_simps)
next
  case (spurious i s c)
  then show ?case using many_updates [OF spurious(1), of "Ready c"]
    by (cases c) (auto simp: push_wake_inv_def monitor_simps)
qed

fun in_call :: "('a op \<Rightarrow> bool) \<Rightarrow> 'a status \<Rightarrow> bool" where
  "in_call P Idle = True"
| "in_call P (Ready c) = P c"
| "in_call P (Waiting c) = P c"

lemma list_all_update: "list_all P ts \<Longrightarrow> P t \<Longrightarrow> list_all P (ts[i := t])"
  by (auto simp: list_all_iff dest: set_update_subset_insert [THEN subsetD])

lemma in_call_wake [simp]: "in_call P (wake t) = in_call P t"
  by (cases t) simp_all

lemma in_call_stop_wakes [simp]: "in_call P (stop_wakes k ts t) = in_call P t"
  by (simp add: stop_wakes_def)

lemma notify_preserves:
  assumes "notify_one on_cv ts ts'" and "list_all P ts" and "\<And>t. P t \<Longrightarrow> P (wake t)"
  shows "list_all P ts'"
  using assms(1,2)
proof (induction rule: notify_one.induct)
  case (one i ts)
  then show ?case by (intro list_all_update assms(3)) (auto simp: list_all_length)
qed simp

lemma calls_step:
  assumes "mstep allowed s s'" and "list_all (in_call allowed) (threads s)"
  shows "list_all (in_call allowed) (threads s')"
  using assms
proof (induction rule: mstep.induct)
  case (push_done i s x st q ts)
  then show ?case by (simp add: notify_preserves [OF push_done(4)] list_all_update)
next
  case (pop_done i s st x q ts)
  then show ?case by (simp add: notify_preserves [OF pop_done(4)] list_all_update)
qed (simp_all add: monitor_simps list_all_length nth_list_update, (metis in_call.simps)+)

lemma may_wait_wake: "may_wait S t \<Longrightarrow> may_wait S (wake t)"
  by (cases t) simp_all

lemma may_wait_stop_wakes: "may_wait S t \<Longrightarrow> t \<in> set ts \<Longrightarrow> may_wait (insert k S) (stop_wakes k ts t)"
  by (cases t) (auto simp: stop_wakes_def list_ex_iff elim!: stopped.elims)

lemma stop_inv_notify:
  "notify_one on_cv ts ts' \<Longrightarrow> stop_inv (s\<lparr>threads := ts\<rparr>) \<Longrightarrow> stop_inv (s\<lparr>threads := ts'\<rparr>)"
  by (auto simp: stop_inv_def intro: notify_preserves may_wait_wake)

lemma stop_inv_set: "stop_inv s \<Longrightarrow> may_wait (stops s) t \<Longrightarrow> stop_inv (set_thread i t s)"
  by (simp add: stop_inv_def set_thread_def list_all_update)

lemma stop_inv_stop: "stop_inv s \<Longrightarrow> stop_inv (request_stop k s)"
  by (simp add: stop_inv_def request_stop_def list_all_length may_wait_stop_wakes)

lemma stop_inv_frame:
  "stop_inv (s\<lparr>queue := q\<rparr>) = stop_inv s"
  "stop_inv (s\<lparr>queue := q, threads := ts, pushed := xs\<rparr>) = stop_inv (s\<lparr>threads := ts\<rparr>)"
  "stop_inv (s\<lparr>queue := q, threads := ts, popped := xs\<rparr>) = stop_inv (s\<lparr>threads := ts\<rparr>)"
  by (simp_all add: stop_inv_def)

lemma stop_inv_step: "mstep allowed s s' \<Longrightarrow> stop_inv s \<Longrightarrow> stop_inv s'"
proof (induction rule: mstep.induct)
  case (push_done i s x st q ts)
  then show ?case using stop_inv_set [of s Idle i]
    by (auto simp: stop_inv_frame set_thread_def intro: stop_inv_notify)
next
  case (pop_done i s st x q ts)
  then show ?case using stop_inv_set [of s Idle i]
    by (auto simp: stop_inv_frame set_thread_def intro: stop_inv_notify)
qed (auto simp: stop_inv_frame tsq_push_cases tsq_pop_cases intro!: stop_inv_set stop_inv_stop)

lemma reachable_inv:
  assumes "(mstep allowed)\<^sup>*\<^sup>* (idle_monitor m n) s"
  shows "fifo_inv s \<and> pop_wake_inv s \<and> stop_inv s \<and> m_max_size (queue s) = m \<and>
    list_all (in_call allowed) (threads s)"
  using assms
proof (induction rule: rtranclp_induct)
  case base
  show ?case
    by (simp add: fifo_inv_def pop_wake_inv_def stop_inv_def idle_monitor_def
        ThreadSafeQueue_ctor_def many_def list_all_length)
next
  case (step s s')
  then show ?case
    using fifo_inv_step pop_wake_inv_step stop_inv_step max_size_step calls_step by metis
qed

lemma reachable_push_inv:
  assumes "(mstep allowed)\<^sup>*\<^sup>* (idle_monitor m n) s" and "\<And>x k. \<not> allowed (Push x (Some k))"
  shows "push_wake_inv s"
  using assms(1)
proof (induction rule: rtranclp_induct)
  case base
  show ?case by (simp add: push_wake_inv_def idle_monitor_def many_def)
next
  case (step s s')
  have "list_all (\<lambda>t. \<forall>x k. t \<noteq> Ready (Push x (Some k))) (threads s)"
    using reachable_inv [OF step(1)] assms(2) by (auto simp: list_all_length)
  then show ?case using push_wake_inv_step [OF step(2)] assms(2) step(3) by blast
qed

section \<open>A scheduler\<close>

text \<open>
  Executions of the monitor as lists of scheduling decisions: which thread calls what, which thread
  enters its critical section (and which waiting thread its notification wakes), which token is
  stopped, and which thread's \<open>push\<close> finds its stop requested just after its wait returned.
\<close>

datatype 'a act = Call nat "'a op" | Section nat nat | Stop nat | Race nat

definition pick :: "('a status \<Rightarrow> bool) \<Rightarrow> nat \<Rightarrow> 'a status list \<Rightarrow> 'a status list option" where
  "pick on_cv j ts =
     (if list_all (\<lambda>t. \<not> on_cv t) ts then Some ts
      else if j < length ts \<and> on_cv (ts ! j) then Some (ts[j := wake (ts ! j)]) else None)"

fun perform :: "'a monitor \<Rightarrow> 'a act \<Rightarrow> 'a monitor option" where
  "perform s (Call i c) =
     (if i < length (threads s) \<and> threads s ! i = Idle then Some (set_thread i (Ready c) s) else None)"
| "perform s (Stop k) = Some (request_stop k s)"
| "perform s (Race i) =
     (if i < length (threads s) then
        case threads s ! i of
          Ready (Push x (Some k)) \<Rightarrow>
            (case tsq_push (queue s) x False True of
               Some (False, q) \<Rightarrow>
                 if k \<in> stops s then None else Some (request_stop k ((set_thread i Idle s)\<lparr>queue := q\<rparr>))
             | _ \<Rightarrow> None)
        | _ \<Rightarrow> None
      else None)"
| "perform s (Section i j) =
     (if i < length (threads s) then
        case threads s ! i of
          Ready (Push x st) \<Rightarrow>
            (case tsq_push (queue s) x (stopped (stops s) st) (stopped (stops s) st) of
               None \<Rightarrow> Some (set_thread i (Waiting (Push x st)) s)
             | Some (False, q) \<Rightarrow> Some ((set_thread i Idle s)\<lparr>queue := q\<rparr>)
             | Some (True, q) \<Rightarrow>
                 map_option (\<lambda>ts. s\<lparr>queue := q, threads := ts, pushed := pushed s @ [x]\<rparr>)
                   (pick on_not_empty j ((threads s)[i := Idle])))
        | Ready (Pop st) \<Rightarrow>
            (case tsq_pop (queue s) (stopped (stops s) st) of
               None \<Rightarrow> Some (set_thread i (Waiting (Pop st)) s)
             | Some (None, q) \<Rightarrow> Some ((set_thread i Idle s)\<lparr>queue := q\<rparr>)
             | Some (Some x, q) \<Rightarrow>
                 map_option (\<lambda>ts. s\<lparr>queue := q, threads := ts, popped := popped s @ [x]\<rparr>)
                   (pick on_not_full j ((threads s)[i := Idle])))
        | _ \<Rightarrow> None
      else None)"

fun schedule :: "'a monitor \<Rightarrow> 'a act list \<Rightarrow> 'a monitor option" where
  "schedule s [] = Some s"
| "schedule s (a # as) = Option.bind (perform s a) (\<lambda>s'. schedule s' as)"

lemma pick_notify: "pick on_cv j ts = Some ts' \<Longrightarrow> notify_one on_cv ts ts'"
  by (auto simp: pick_def intro: notify_one.intros split: if_splits)

lemma perform_mstep:
  "perform s a = Some s' \<Longrightarrow> (case a of Call i c \<Rightarrow> allowed c | _ \<Rightarrow> True) \<Longrightarrow> mstep allowed s s'"
  by (cases "(s, a)" rule: perform.cases)
    (auto intro: mstep.intros dest!: pick_notify
      split: if_splits status.splits op.splits option.splits bool.splits)

lemma schedule_reaches:
  "schedule s as = Some s' \<Longrightarrow> list_all (\<lambda>a. case a of Call i c \<Rightarrow> allowed c | _ \<Rightarrow> True) as \<Longrightarrow>
   (mstep allowed)\<^sup>*\<^sup>* s s'"
  by (induction as arbitrary: s)
    (auto split: bind_splits dest: perform_mstep intro: converse_rtranclp_into_rtranclp)

lemmas schedule_eval = idle_monitor_def ThreadSafeQueue_ctor_def tsq_push_def tsq_pop_def cv_wait_def
  pick_def set_thread_def request_stop_def stop_wakes_def

definition two_consumers :: "nat act list" where
  "two_consumers = [Call 0 (Pop None), Section 0 0, Call 2 (Pop (Some 1)), Section 2 0,
     Call 1 (Push 5 None), Section 1 0]"

definition two_producers :: "nat act list" where
  "two_producers = [Call 0 (Push 1 None), Section 0 0, Call 0 (Push 2 None), Section 0 0,
     Call 1 (Push 3 None), Section 1 0, Call 2 (Pop (Some 1)), Section 2 1]"

definition lost_wakeup :: "nat act list" where
  "lost_wakeup = [Call 0 (Push 1 None), Section 0 0, Call 0 (Push 2 None), Section 0 0,
     Call 1 (Push 3 (Some 7)), Section 1 0, Call 2 (Pop None), Section 2 1, Race 1,
     Call 2 (Pop None), Section 2 0]"

definition consumers_run :: "nat monitor" where
  "consumers_run = \<lparr>queue = \<lparr>m_queue = [5], m_max_size = 0\<rparr>,
     threads = [Ready (Pop None), Idle, Waiting (Pop (Some 1))],
     stops = {}, pushed = [5], popped = []\<rparr>"

definition producers_run :: "nat monitor" where
  "producers_run = \<lparr>queue = \<lparr>m_queue = [], m_max_size = 1\<rparr>,
     threads = [Waiting (Push 2 None), Ready (Push 3 None), Idle],
     stops = {}, pushed = [1], popped = [1]\<rparr>"

definition lost_run :: "nat monitor" where
  "lost_run = \<lparr>queue = \<lparr>m_queue = [], m_max_size = 1\<rparr>,
     threads = [Waiting (Push 2 None), Idle, Waiting (Pop None)],
     stops = {7}, pushed = [1], popped = [1]\<rparr>"

lemma consumers_reached: "(mstep (\<lambda>_. True))\<^sup>*\<^sup>* (idle_monitor 0 3) consumers_run"
  by (rule schedule_reaches [of _ two_consumers])
    (simp_all add: two_consumers_def consumers_run_def schedule_eval numeral_3_eq_3 split: act.split)

definition default_token :: "'a op \<Rightarrow> bool" where
  "default_token c \<longleftrightarrow> (case c of Push x st \<Rightarrow> st = None | Pop st \<Rightarrow> True)"

lemma producers_reached: "(mstep default_token)\<^sup>*\<^sup>* (idle_monitor 1 3) producers_run"
  by (rule schedule_reaches [of _ two_producers])
    (simp_all add: two_producers_def producers_run_def schedule_eval default_token_def numeral_3_eq_3)

section \<open>Properties\<close>

text \<open>
  C23: whatever the threads do, the items returned by \<open>pop\<close> so far, followed by the items in the
  queue, are the items that successful \<open>push\<close> calls inserted, in that order: nothing is lost,
  duplicated or reordered. A bounded queue never holds more than its bound.
\<close>

theorem monitor_fifo:
  assumes "(mstep allowed)\<^sup>*\<^sup>* (idle_monitor m n) s"
  shows "pushed s = popped s @ m_queue (queue s) \<and> m_max_size (queue s) = m \<and>
         (m = 0 \<or> tsq_size (queue s) \<le> m)"
  using reachable_inv [OF assms] by (auto simp: fifo_inv_def tsq_size_def)

theorem monitor_fifo_witness:
  "pushed consumers_run = popped consumers_run @ m_queue (queue consumers_run) \<and>
   m_max_size (queue consumers_run) = 0 \<and> ((0::nat) = 0 \<or> tsq_size (queue consumers_run) \<le> 0)"
  by (rule monitor_fifo [OF consumers_reached])

text \<open>
  C24: no consumer is left asleep next to an item. Whenever a thread is blocked in \<open>pop\<close> and the queue
  is not empty, at least as many threads as there are items have been woken inside \<open>pop\<close>, and the
  critical section of each of them returns an item.
\<close>

theorem consumers_not_stranded:
  assumes "(mstep allowed)\<^sup>*\<^sup>* (idle_monitor m n) s"
    and "i < length (threads s)" and "threads s ! i = Waiting (Pop st)" and "m_queue (queue s) \<noteq> []"
  shows "tsq_size (queue s) \<le> many popping (threads s) \<and>
    (\<exists>j st' x q. j < length (threads s) \<and> threads s ! j = Ready (Pop st') \<and>
       tsq_pop (queue s) (stopped (stops s) st') = Some (Some x, q))"
proof
  have "0 < many on_not_empty (threads s)" using assms(2,3) by (auto intro: many_pos)
  then show size: "tsq_size (queue s) \<le> many popping (threads s)"
    using reachable_inv [OF assms(1)] by (simp add: pop_wake_inv_def tsq_size_def)
  obtain x xs where q: "m_queue (queue s) = x # xs" using assms(4) by (cases "m_queue (queue s)") auto
  then have "0 < many popping (threads s)" using size by (simp add: tsq_size_def)
  then obtain j where "j < length (threads s)" "popping (threads s ! j)" by (auto dest: many_posD)
  then show "\<exists>j st' x q. j < length (threads s) \<and> threads s ! j = Ready (Pop st') \<and>
       tsq_pop (queue s) (stopped (stops s) st') = Some (Some x, q)"
    using q by (auto simp: tsq_pop_cases elim!: popping.elims)
qed

theorem consumers_not_stranded_witness:
  "tsq_size (queue consumers_run) \<le> many popping (threads consumers_run) \<and>
   (\<exists>j st' x q. j < length (threads consumers_run) \<and> threads consumers_run ! j = Ready (Pop st') \<and>
      tsq_pop (queue consumers_run) (stopped (stops consumers_run) st') = Some (Some x, q))"
proof -
  have "2 < length (threads consumers_run)" "threads consumers_run ! 2 = Waiting (Pop (Some 1))"
    "m_queue (queue consumers_run) \<noteq> []" by (simp_all add: consumers_run_def)
  then show ?thesis by (rule consumers_not_stranded [OF consumers_reached])
qed

text \<open>
  C34: if no thread passes a stop token to \<open>push\<close>, as in this program, no producer is left asleep next
  to free room: whenever one is blocked in \<open>push\<close> and the queue has room, another one has been woken
  and its critical section inserts its item.
\<close>

theorem producers_not_stranded:
  assumes "(mstep allowed)\<^sup>*\<^sup>* (idle_monitor m n) s" and "\<And>x k. \<not> allowed (Push x (Some k))"
    and "i < length (threads s)" and "threads s ! i = Waiting (Push x st)" and "has_room (queue s)"
  shows "\<exists>j y q. j < length (threads s) \<and> threads s ! j = Ready (Push y None) \<and>
       tsq_push (queue s) y False False = Some (True, q)"
proof -
  have "0 < many on_not_full (threads s)" using assms(3,4) by (auto intro: many_pos)
  then have "0 < many pushing (threads s)"
    using reachable_push_inv [OF assms(1,2)] assms(5)
    by (auto simp: push_wake_inv_def has_room_def)
  then obtain j y st' where j: "j < length (threads s)" "threads s ! j = Ready (Push y st')"
    by (auto dest!: many_posD elim!: pushing.elims)
  moreover have "st' = None"
    using j reachable_inv [OF assms(1)] assms(2) by (cases st') (auto simp: list_all_length)
  ultimately show ?thesis using assms(5) by (auto simp: tsq_push_cases)
qed

theorem producers_not_stranded_witness:
  "\<exists>j y q. j < length (threads producers_run) \<and> threads producers_run ! j = Ready (Push y None) \<and>
     tsq_push (queue producers_run) y False False = Some (True, q)"
proof -
  have "\<not> default_token (Push x (Some k))" for x :: nat and k by (simp add: default_token_def)
  moreover have "0 < length (threads producers_run)"
    "threads producers_run ! 0 = Waiting (Push 2 None)" "has_room (queue producers_run)"
    by (simp_all add: producers_run_def has_room_def)
  ultimately show ?thesis by (rule producers_not_stranded [OF producers_reached])
qed

text \<open>
  C35: a stop request unblocks its callers. Once a stop was requested for a token, no thread is blocked
  in a call with that token, and the critical section of such a call returns.
\<close>

theorem stop_request_unblocks:
  assumes "(mstep allowed)\<^sup>*\<^sup>* (idle_monitor m n) s" and "k \<in> stops s" and "op_token c = Some k"
    and "i < length (threads s)"
  shows "threads s ! i \<noteq> Waiting c \<and>
    (case c of Push x st \<Rightarrow> tsq_push (queue s) x (stopped (stops s) st) (stopped (stops s) st) \<noteq> None
             | Pop st \<Rightarrow> tsq_pop (queue s) (stopped (stops s) st) \<noteq> None)"
proof
  show "threads s ! i \<noteq> Waiting c"
    using reachable_inv [OF assms(1)] assms(2-4) by (auto simp: stop_inv_def list_all_length)
  show "case c of Push x st \<Rightarrow> tsq_push (queue s) x (stopped (stops s) st) (stopped (stops s) st) \<noteq> None
             | Pop st \<Rightarrow> tsq_pop (queue s) (stopped (stops s) st) \<noteq> None"
    using assms(2,3) by (cases c) (auto simp: tsq_push_cases tsq_pop_cases)
qed

theorem stop_request_unblocks_witness:
  "threads (request_stop 1 consumers_run) ! 2 \<noteq> Waiting (Pop (Some 1)) \<and>
   tsq_pop (queue (request_stop 1 consumers_run)) True \<noteq> None"
proof -
  have "(mstep (\<lambda>_. True))\<^sup>*\<^sup>* (idle_monitor 0 3) (request_stop 1 consumers_run)"
    by (rule rtranclp.rtrancl_into_rtrancl [OF consumers_reached]) (rule mstep.stop)
  moreover have "1 \<in> stops (request_stop 1 consumers_run)"
    "2 < length (threads (request_stop 1 consumers_run))"
    by (simp_all add: request_stop_def consumers_run_def)
  ultimately show ?thesis
    using stop_request_unblocks [of "\<lambda>_. True" 0 3 "request_stop 1 consumers_run" 1 "Pop (Some 1)" 2]
    by simp
qed

text \<open>
  C36: a bounded queue can lose a wake-up. Two producers wait on a full queue of capacity one. A
  consumer takes the item, and its notification goes to the producer with a stop token. That producer's
  wait returns since there is room, but before it tests \<open>stop_requested()\<close> its stop is requested: it
  returns without inserting and without passing the notification on. The other producer stays
  blocked in \<open>push\<close> next to an empty queue, and the consumer, calling again, in \<open>pop\<close>. From then on, as
  long as no thread makes a new call, whatever stops are requested, nothing can happen but further stop
  requests, which wake nobody, and spurious wake-ups.
\<close>

theorem bounded_push_loses_wakeup:
  "(mstep (\<lambda>_. True))\<^sup>*\<^sup>* (idle_monitor 1 3) lost_run \<and> m_queue (queue lost_run) = [] \<and>
   has_room (queue lost_run) \<and>
   threads lost_run = [Waiting (Push 2 None), Idle, Waiting (Pop None)] \<and>
   (mstep (\<lambda>_. False) (lost_run\<lparr>stops := S\<rparr>) s' \<longleftrightarrow>
      (\<exists>k. s' = lost_run\<lparr>stops := insert k S\<rparr>) \<or>
      (\<exists>i c. i < length (threads lost_run) \<and> threads lost_run ! i = Waiting c \<and>
         s' = set_thread i (Ready c) (lost_run\<lparr>stops := S\<rparr>)))"
proof (intro conjI)
  show "(mstep (\<lambda>_. True))\<^sup>*\<^sup>* (idle_monitor 1 3) lost_run"
    by (rule schedule_reaches [of _ lost_wakeup])
      (simp_all add: lost_wakeup_def lost_run_def schedule_eval numeral_3_eq_3 split: act.split)
  have busy: "threads lost_run ! i \<noteq> Ready c" if "i < length (threads lost_run)" for i c
    using that by (auto simp: lost_run_def nth_Cons less_Suc_eq split: nat.split)
  have stop: "request_stop k (lost_run\<lparr>stops := S\<rparr>) = lost_run\<lparr>stops := insert k S\<rparr>" for k
    by (simp add: request_stop_def stop_wakes_def lost_run_def)
  show "mstep (\<lambda>_. False) (lost_run\<lparr>stops := S\<rparr>) s' \<longleftrightarrow>
      (\<exists>k. s' = lost_run\<lparr>stops := insert k S\<rparr>) \<or>
      (\<exists>i c. i < length (threads lost_run) \<and> threads lost_run ! i = Waiting c \<and>
         s' = set_thread i (Ready c) (lost_run\<lparr>stops := S\<rparr>))"
    using busy by (subst mstep.simps) (auto simp: stop)
qed (simp_all add: lost_run_def has_room_def)

end
