(* ===== verification/Async_Logger.thy ===== *)
theory Async_Logger
  imports Thread_Safe_Queue
begin

text \<open>
  The class \<open>AsyncLogger\<close> (\<open>include/asyncLogger.h\<close>, \<open>src/asyncLogger.cpp\<close>). The two sinks are the bytes
  written to them. The file system is outside the sources: whether the parent directories could be
  created and the file opened are arguments of the constructor. The main loop takes, for every turn,
  what \<open>stop_requested()\<close> and \<open>pop\<close> returned, as the other threads do; the drain loop works on the
  queue itself, which no other thread uses any more by then.
\<close>

section \<open>Operations\<close>

record AsyncLogger =
  m_log_file_open :: bool
  to_stdout :: string
  to_file :: string

definition AsyncLogger_ctor :: AsyncLogger where
  "AsyncLogger_ctor = \<lparr>m_log_file_open = False, to_stdout = [], to_file = []\<rparr>"

text \<open>
  \<open>create_parents\<close> is \<open>create_directories(file_path.parent_path())\<close>; a path has a parent when it has a
  slash. \<open>open_append\<close> is the \<open>errno\<close> of a failed \<open>open\<close>; an opened file keeps what it held.
\<close>

definition AsyncLogger_file_ctor ::
  "(string \<Rightarrow> cpp_error option) \<Rightarrow> (string \<Rightarrow> nat + string) \<Rightarrow> (nat \<Rightarrow> string) \<Rightarrow> string \<Rightarrow> AsyncLogger res" where
  "AsyncLogger_file_ctor create_parents open_append strerror log_file_path =
     (if log_file_path \<noteq> [] then
        case (if CHR ''/'' \<in> set log_file_path then create_parents log_file_path else None) of
          Some e \<Rightarrow> Inl e
        | None \<Rightarrow>
            (case open_append log_file_path of
               Inl err \<Rightarrow> Inl (system_error (int err)
                 (''Failed to open log file: '' @ log_file_path @ '': '' @ strerror err))
             | Inr old \<Rightarrow> Inr (AsyncLogger_ctor\<lparr>m_log_file_open := True, to_file := old\<rparr>))
      else Inr AsyncLogger_ctor)"

definition write_message :: "AsyncLogger \<Rightarrow> string \<Rightarrow> AsyncLogger" where
  "write_message l message =
     (let l = l\<lparr>to_stdout := to_stdout l @ message\<rparr> in
      if m_log_file_open l then l\<lparr>to_file := to_file l @ message\<rparr> else l)"

text \<open>The first loop; the first component says whether it was left.\<close>

fun logger_loop :: "AsyncLogger \<Rightarrow> (bool \<times> string option) list \<Rightarrow> bool \<times> AsyncLogger" where
  "logger_loop l [] = (False, l)"
| "logger_loop l ((stop_requested, maybe_message) # turns) =
     (if stop_requested then (True, l)
      else case maybe_message of
        None \<Rightarrow> (True, l)
      | Some message \<Rightarrow> logger_loop (write_message l message) turns)"

function logger_drain :: "AsyncLogger \<Rightarrow> string ThreadSafeQueue \<Rightarrow> AsyncLogger \<times> string ThreadSafeQueue" where
  "logger_drain l q =
     (case tsq_pop q True of
        Some (Some message, q') \<Rightarrow> logger_drain (write_message l message) q'
      | _ \<Rightarrow> (l, q))"
  by pat_completeness auto
termination
  by (relation "measure (\<lambda>(l, q). length (m_queue q))") (auto simp: tsq_pop_cases)

declare logger_drain.simps [simp del]

text \<open>\<open>run\<close>, with the queue as the drain finds it; \<open>None\<close> while the first loop is still running.\<close>

definition logger_run :: "AsyncLogger \<Rightarrow> (bool \<times> string option) list \<Rightarrow> string ThreadSafeQueue \<Rightarrow>
    (AsyncLogger \<times> string ThreadSafeQueue) option" where
  "logger_run l turns q =
     (case logger_loop l turns of (left, l') \<Rightarrow> if left then Some (logger_drain l' q) else None)"

section \<open>Lemmas\<close>

lemma write_message_sinks [simp]:
  "to_stdout (write_message l m) = to_stdout l @ m"
  "to_file (write_message l m) = (if m_log_file_open l then to_file l @ m else to_file l)"
  "m_log_file_open (write_message l m) = m_log_file_open l"
  by (simp_all add: write_message_def Let_def)

lemma logger_drain_simps:
  "logger_drain l q =
     (case m_queue q of [] \<Rightarrow> (l, q)
      | m # ms \<Rightarrow> logger_drain (write_message l m) (q\<lparr>m_queue := ms\<rparr>))"
  by (subst logger_drain.simps) (auto simp: tsq_pop_simps split: list.split)

lemma logger_drain_all:
  "logger_drain l q = (foldl write_message l (m_queue q), q\<lparr>m_queue := []\<rparr>)"
proof (induction "m_queue q" arbitrary: l q)
  case Nil
  then show ?case by (subst logger_drain_simps) (metis (mono_tags, lifting) ThreadSafeQueue.surjective
        ThreadSafeQueue.update_convs(1) foldl_Nil list.simps(4))
next
  case (Cons m ms)
  then show ?case
    using Cons(1) [of "q\<lparr>m_queue := ms\<rparr>" "write_message l m"]
    by (subst logger_drain_simps) (simp add: Cons(2) [symmetric])
qed

lemma logger_loop_all: "logger_loop l (map (\<lambda>m. (False, Some m)) ms @ turns) = logger_loop (foldl write_message l ms) turns"
  by (induction ms arbitrary: l) simp_all

lemma write_all:
  "to_stdout (foldl write_message l ms) = to_stdout l @ concat ms"
  "to_file (foldl write_message l ms) = (if m_log_file_open l then to_file l @ concat ms else to_file l)"
  "m_log_file_open (foldl write_message l ms) = m_log_file_open l"
  by (induction ms arbitrary: l) simp_all

text \<open>The constructor never goes on without the file it was asked for.\<close>

lemma logger_ctor_opens_or_throws:
  assumes "log_file_path \<noteq> []"
  shows "(\<exists>e. AsyncLogger_file_ctor create_parents open_append strerror log_file_path = Inl e) \<or>
    (\<exists>old l. open_append log_file_path = Inr old \<and>
       AsyncLogger_file_ctor create_parents open_append strerror log_file_path = Inr l \<and>
       m_log_file_open l \<and> to_file l = old \<and> to_stdout l = [])"
  using assms
  by (auto simp: AsyncLogger_file_ctor_def AsyncLogger_ctor_def split: option.splits sum.splits)

section \<open>Properties\<close>

text \<open>
  C33: no log line is lost. Take any interleaving of pushes by the other threads and pops by the
  logger's main loop on the unbounded queue; when the logger is then stopped, whether its last turn
  sees the stop request or an empty \<open>pop\<close>, \<open>run\<close> returns with the queue empty, and stdout and the
  log file, if one is open, have received every message that was pushed, complete and in order.
\<close>

theorem logger_loses_nothing:
  assumes "tsq.traffic (ThreadSafeQueue_ctor 0) ops = (messages, q)"
    and "final = (True, unread) \<or> final = (False, None)"
  shows "\<exists>l' q'. logger_run l (map (\<lambda>m. (False, Some m)) messages @ [final]) q = Some (l', q') \<and>
    tsq_size q' = 0 \<and>
    to_stdout l' = to_stdout l @ concat (tsq.sent (ThreadSafeQueue_ctor 0) ops) \<and>
    to_file l' = to_file l @ (if m_log_file_open l then concat (tsq.sent (ThreadSafeQueue_ctor 0) ops) else [])"
proof -
  have sent: "messages @ m_queue q = tsq.sent (ThreadSafeQueue_ctor 0) ops"
    using tsq.fifo [of "ThreadSafeQueue_ctor 0" ops] assms(1) by (simp add: ThreadSafeQueue_ctor_def)
  let ?l = "foldl write_message l (messages @ m_queue q)"
  have "logger_run l (map (\<lambda>m. (False, Some m)) messages @ [final]) q = Some (?l, q\<lparr>m_queue := []\<rparr>)"
    using assms(2) by (auto simp: logger_run_def logger_loop_all logger_drain_all)
  then show ?thesis unfolding sent by (simp add: write_all tsq_size_def)
qed

theorem logger_loses_nothing_witness:
  "\<exists>l' q'. logger_run AsyncLogger_ctor (map (\<lambda>m. (False, Some m)) [''a'', ''b''] @ [(True, None)])
       \<lparr>m_queue = [''c''], m_max_size = 0\<rparr> = Some (l', q') \<and> tsq_size q' = 0 \<and> to_stdout l' = ''abc'' \<and>
     to_file l' = ''''"
proof -
  let ?ops = "[Some ''a'', Some ''b'', None, None, None, Some ''c'']"
  have "tsq.traffic (ThreadSafeQueue_ctor 0) ?ops = ([''a'', ''b''], \<lparr>m_queue = [''c''], m_max_size = 0\<rparr>)"
    and "tsq.sent (ThreadSafeQueue_ctor 0) ?ops = [''a'', ''b'', ''c'']"
    by (simp_all add: ThreadSafeQueue_ctor_def tsq_send_def tsq_receive_def tsq_push_simps tsq_pop_simps has_room_def)
  then show ?thesis
    using logger_loses_nothing [of ?ops "[''a'', ''b'']" "\<lparr>m_queue = [''c''], m_max_size = 0\<rparr>" "(True, None)" None
        AsyncLogger_ctor]
    by (simp add: AsyncLogger_ctor_def)
qed

end
