(* ===== verification/Socket_Handle.thy ===== *)
theory Socket_Handle
  imports Prelude "HOL-Library.Multiset"
begin

text \<open>
  The class \<open>SocketHandle\<close> (\<open>include/listener.h\<close>, \<open>src/listener.cpp\<close>), an owner of a POSIX descriptor.
  An operation that calls \<open>::close\<close> returns the descriptors it closes. The second half runs any
  program over a set of handles and accounts for every descriptor that was ever handed to one.
\<close>

section \<open>Operations\<close>

record SocketHandle =
  m_fd :: int

definition SocketHandle_default :: SocketHandle where
  "SocketHandle_default = \<lparr>m_fd = - 1\<rparr>"

definition SocketHandle_ctor :: "int \<Rightarrow> SocketHandle" where
  "SocketHandle_ctor fd = \<lparr>m_fd = fd\<rparr>"

definition sh_get :: "SocketHandle \<Rightarrow> int" where
  "sh_get h = m_fd h"

definition sh_valid :: "SocketHandle \<Rightarrow> bool" where
  "sh_valid h \<longleftrightarrow> 0 \<le> m_fd h"

definition sh_destroy :: "SocketHandle \<Rightarrow> int list" where
  "sh_destroy h = (if 0 \<le> m_fd h then [m_fd h] else [])"

text \<open>The new handle, and what is left in the one that was moved from.\<close>

definition sh_move_ctor :: "SocketHandle \<Rightarrow> SocketHandle \<times> SocketHandle" where
  "sh_move_ctor other = (\<lparr>m_fd = m_fd other\<rparr>, other\<lparr>m_fd := - 1\<rparr>)"

definition sh_release :: "SocketHandle \<Rightarrow> int \<times> SocketHandle" where
  "sh_release h = (m_fd h, h\<lparr>m_fd := - 1\<rparr>)"

definition sh_reset :: "SocketHandle \<Rightarrow> int \<Rightarrow> SocketHandle \<times> int list" where
  "sh_reset h fd = (h\<lparr>m_fd := fd\<rparr>, if 0 \<le> m_fd h then [m_fd h] else [])"

text \<open>Move assignment between two handles of a store; \<open>this != &other\<close> compares their addresses.\<close>

definition sh_move_assign :: "SocketHandle option list \<Rightarrow> nat \<Rightarrow> nat \<Rightarrow> SocketHandle option list \<times> int list" where
  "sh_move_assign hs this other =
     (if this \<noteq> other then
        case (hs ! this, hs ! other) of
          (Some h, Some h') \<Rightarrow>
            let (h1, closes) = sh_reset h (m_fd h') in
            (hs[this := Some h1, other := Some (h'\<lparr>m_fd := - 1\<rparr>)], closes)
        | _ \<Rightarrow> (hs, [])
      else (hs, []))"

section \<open>Programs over handles\<close>

datatype sh_op =
    Construct int
  | Default
  | Move_construct nat
  | Move_assign nat nat
  | Release nat
  | Reset nat int
  | Destroy nat

text \<open>
  The store of handles (a destroyed one is \<open>None\<close>), the descriptors handed to handles, closed by
  them, and released by them. An operation on a handle that does not exist is not a C++ program and
  leaves the store as it is.
\<close>

record store =
  handles :: "SocketHandle option list"
  taken :: "int list"
  closed :: "int list"
  released :: "int list"

definition live :: "store \<Rightarrow> nat \<Rightarrow> SocketHandle option" where
  "live s i = (if i < length (handles s) then handles s ! i else None)"

definition valid_fd :: "int \<Rightarrow> int list" where
  "valid_fd fd = (if 0 \<le> fd then [fd] else [])"

fun sh_step :: "store \<Rightarrow> sh_op \<Rightarrow> store" where
  "sh_step s (Construct fd) =
     s\<lparr>handles := handles s @ [Some (SocketHandle_ctor fd)], taken := taken s @ valid_fd fd\<rparr>"
| "sh_step s Default = s\<lparr>handles := handles s @ [Some SocketHandle_default]\<rparr>"
| "sh_step s (Move_construct i) =
     (case live s i of None \<Rightarrow> s
      | Some h \<Rightarrow> let (new, old) = sh_move_ctor h in
          s\<lparr>handles := (handles s)[i := Some old] @ [Some new]\<rparr>)"
| "sh_step s (Move_assign i j) =
     (case (live s i, live s j) of
        (Some h, Some h') \<Rightarrow>
          let (hs, closes) = sh_move_assign (handles s) i j in
          s\<lparr>handles := hs, closed := closed s @ closes\<rparr>
      | _ \<Rightarrow> s)"
| "sh_step s (Release i) =
     (case live s i of None \<Rightarrow> s
      | Some h \<Rightarrow> let (fd, h') = sh_release h in
          s\<lparr>handles := (handles s)[i := Some h'], released := released s @ valid_fd fd\<rparr>)"
| "sh_step s (Reset i fd) =
     (case live s i of None \<Rightarrow> s
      | Some h \<Rightarrow> let (h', closes) = sh_reset h fd in
          s\<lparr>handles := (handles s)[i := Some h'], closed := closed s @ closes,
             taken := taken s @ valid_fd fd\<rparr>)"
| "sh_step s (Destroy i) =
     (case live s i of None \<Rightarrow> s
      | Some h \<Rightarrow> s\<lparr>handles := (handles s)[i := None], closed := closed s @ sh_destroy h\<rparr>)"

definition empty_store :: store where
  "empty_store = \<lparr>handles = [], taken = [], closed = [], released = []\<rparr>"

fun owned_fd :: "SocketHandle option \<Rightarrow> int multiset" where
  "owned_fd None = {#}"
| "owned_fd (Some h) = mset (valid_fd (m_fd h))"

definition owned :: "SocketHandle option list \<Rightarrow> int multiset" where
  "owned hs = (\<Sum>h\<leftarrow>hs. owned_fd h)"

definition balanced :: "store \<Rightarrow> bool" where
  "balanced s \<longleftrightarrow> mset (taken s) = owned (handles s) + mset (closed s) + mset (released s)"

lemma owned_append [simp]: "owned (hs @ hs') = owned hs + owned hs'"
  by (simp add: owned_def)

lemma owned_single [simp]: "owned [h] = owned_fd h"
  by (simp add: owned_def)

lemma owned_update:
  "i < length hs \<Longrightarrow> owned (hs[i := h]) + owned_fd (hs ! i) = owned hs + owned_fd h"
proof (induction hs arbitrary: i)
  case (Cons a hs)
  then show ?case using Cons.IH [of "i - 1"] by (cases i) (auto simp: owned_def ac_simps)
qed simp

lemma liveD: "live s i = Some h \<Longrightarrow> i < length (handles s) \<and> handles s ! i = Some h"
  by (auto simp: live_def split: if_splits)

lemma valid_fd_minus_one [simp]: "valid_fd (- 1) = []"
  by (simp add: valid_fd_def)

lemma closes_valid_fd: "(if 0 \<le> fd then [fd] else []) = valid_fd fd"
  by (simp add: valid_fd_def)

lemmas sh_ops = SocketHandle_ctor_def SocketHandle_default_def sh_move_ctor_def sh_release_def
  sh_reset_def sh_destroy_def sh_get_def

lemmas sh_defs = sh_ops closes_valid_fd

text \<open>One handle replaced: what it owned is accounted for by what the new one owns and the rest.\<close>

lemma owned_swap:
  assumes "live s i = Some h" and "mset (valid_fd (m_fd h)) + a = owned_fd h' + b"
  shows "owned (handles s) + a = owned ((handles s)[i := h']) + b"
proof -
  have *: "owned ((handles s)[i := h']) + mset (valid_fd (m_fd h)) = owned (handles s) + owned_fd h'"
    using owned_update [of i "handles s" h'] liveD [OF assms(1)] by simp
  have "owned (handles s) + a + owned_fd h' + mset (valid_fd (m_fd h)) =
        owned ((handles s)[i := h']) + b + owned_fd h' + mset (valid_fd (m_fd h))"
    using * assms(2) by (metis add.assoc add.commute)
  then show ?thesis by simp
qed

lemma mset_cancel:
  fixes a b c x y :: "'a multiset"
  assumes "a + x = b" and "b + y = c + x"
  shows "a + y = c"
proof -
  have "a + y + x = (a + x) + y" by (simp only: ac_simps)
  also have "\<dots> = c + x" using assms by (simp only:)
  finally show ?thesis by (simp only: add_right_cancel)
qed

lemma owned_move_assign:
  assumes "live s i = Some h" and "live s j = Some h'" and "i \<noteq> j"
  shows "owned ((handles s)[i := Some (h\<lparr>m_fd := m_fd h'\<rparr>), j := Some (h'\<lparr>m_fd := - 1\<rparr>)]) +
           mset (valid_fd (m_fd h)) = owned (handles s)"
proof -
  note l = liveD [OF assms(1)] liveD [OF assms(2)]
  let ?hs = "(handles s)[i := Some (h\<lparr>m_fd := m_fd h'\<rparr>)]"
  have "owned (?hs[j := Some (h'\<lparr>m_fd := - 1\<rparr>)]) + mset (valid_fd (m_fd h')) = owned ?hs"
    using owned_update [of j ?hs "Some (h'\<lparr>m_fd := - 1\<rparr>)"] l assms(3) by simp
  moreover have "owned ?hs + mset (valid_fd (m_fd h)) = owned (handles s) + mset (valid_fd (m_fd h'))"
    using owned_update [of i "handles s" "Some (h\<lparr>m_fd := m_fd h'\<rparr>)"] l by simp
  ultimately show ?thesis by (rule mset_cancel)
qed

lemma sh_overwritten: "h\<lparr>m_fd := fd\<rparr> = \<lparr>m_fd = fd\<rparr>" for h :: SocketHandle
  by simp

lemma balanced_move_assign:
  assumes "balanced s"
  shows "balanced (sh_step s (Move_assign i j))"
proof (cases "live s i = None \<or> live s j = None \<or> i = j")
  case True
  then show ?thesis using assms by (auto simp: balanced_def sh_move_assign_def split: option.split)
next
  case False
  then obtain h h' where h: "live s i = Some h" "live s j = Some h'" "i \<noteq> j" by auto
  then show ?thesis
    using assms owned_move_assign [OF h] by (simp add: balanced_def sh_move_assign_def sh_defs liveD ac_simps)
qed

lemma balanced_step:
  assumes "balanced s"
  shows "balanced (sh_step s op)"
proof (cases op)
  case (Move_assign i j)
  then show ?thesis using balanced_move_assign [OF assms] by simp
next
  case (Move_construct i)
  show ?thesis
    using assms owned_swap [of s i _ "{#}" "Some \<lparr>m_fd = - 1\<rparr>"]
    by (cases "live s i") (auto simp: Move_construct balanced_def sh_defs sh_overwritten)
next
  case (Release i)
  show ?thesis
    using assms owned_swap [of s i _ "{#}" "Some \<lparr>m_fd = - 1\<rparr>"]
    by (cases "live s i") (auto simp: Release balanced_def sh_defs sh_overwritten ac_simps)
next
  case (Reset i fd)
  show ?thesis
    using assms owned_swap [of s i _ "mset (valid_fd fd)" "Some \<lparr>m_fd = fd\<rparr>"]
    by (cases "live s i") (auto simp: Reset balanced_def sh_defs sh_overwritten ac_simps)
next
  case (Destroy i)
  show ?thesis
    using assms owned_swap [of s i _ "{#}" None]
    by (cases "live s i") (auto simp: Destroy balanced_def sh_defs ac_simps)
qed (use assms in \<open>simp_all add: balanced_def sh_defs\<close>)

lemma balanced_run: "balanced s \<Longrightarrow> balanced (foldl sh_step s ops)"
  by (induction ops arbitrary: s) (simp_all add: balanced_step)

section \<open>Properties\<close>

text \<open>
  C32: any program over handles (constructions, moves, self-moves, releases, resets, destructions in
  any order) keeps the books balanced: every valid descriptor handed to a handle is, counted with
  multiplicity, either still owned by exactly one live handle, closed, or released. So a descriptor
  is never closed twice, and none leaks: once every handle is destroyed, all that was not released
  has been closed.
\<close>

theorem handles_account_for_descriptors:
  "mset (taken (foldl sh_step empty_store ops)) =
     owned (handles (foldl sh_step empty_store ops)) +
     mset (closed (foldl sh_step empty_store ops)) +
     mset (released (foldl sh_step empty_store ops))"
  using balanced_run [of empty_store ops] by (simp add: balanced_def empty_store_def owned_def)

end
