(* ===== verification/Network_Listener.thy ===== *)
theory Network_Listener
  imports Socket_Handle Telemetry_Packet
begin

text \<open>
  The class \<open>NetworkListener\<close> (\<open>include/listener.h\<close>, \<open>src/listener.cpp\<close>). The kernel is outside the
  sources: what its calls answered is an argument, one answer per call in program order, and
  \<open>strerror\<close> is a parameter. A loop whose answers end before it leaves is still running. What the
  listener does to the outside (chunks and messages pushed, descriptors closed, registered and
  made non-blocking) is a list of effects in program order, together with the descriptors that the
  kernel handed out (\<open>Opened\<close>; \<open>Opened_nonblocking\<close> for the eventfd, created with \<open>EFD_NONBLOCK\<close>) and the batches of ready descriptors it reported (\<open>Polled\<close>).
\<close>

unbundle bit_operations_syntax

section \<open>Kernel answers and effects\<close>

text \<open>The return value of a call and \<open>errno\<close> after it.\<close>

type_synonym answer = "int \<times> nat"

definition EINTR :: nat where "EINTR = 4"
definition EAGAIN :: nat where "EAGAIN = 11"
definition EWOULDBLOCK :: nat where "EWOULDBLOCK = EAGAIN"
definition O_NONBLOCK :: int where "O_NONBLOCK = 0x800"
definition EPOLLIN :: u32 where "EPOLLIN = 0x1"
definition EPOLLERR :: u32 where "EPOLLERR = 0x8"
definition EPOLLHUP :: u32 where "EPOLLHUP = 0x10"
definition EPOLLET :: u32 where "EPOLLET = 0x80000000"

definition RECV_BUF_SIZE :: nat where
  "RECV_BUF_SIZE = 4096"

definition MAX_EPOLL_EVENTS :: nat where
  "MAX_EPOLL_EVENTS = 64"

datatype listener_effect =
    Opened int
  | Opened_nonblocking int
  | Polled "int list"
  | Enqueue DataChunk
  | Message string
  | Close_fd int
  | Set_flags int int
  | Epoll_add int u32
  | Epoll_del int
  | Drain_event int

record NetworkListener =
  m_port :: u16
  m_server_fd :: SocketHandle
  m_epoll_fd :: SocketHandle
  m_event_fd :: SocketHandle
  l_clients :: "int \<rightharpoonup> SocketHandle"
  m_recv_buf :: "byte list"

definition NetworkListener_ctor :: "u16 \<Rightarrow> NetworkListener" where
  "NetworkListener_ctor port =
     \<lparr>m_port = port, m_server_fd = SocketHandle_default, m_epoll_fd = SocketHandle_default,
      m_event_fd = SocketHandle_default, l_clients = Map.empty,
      m_recv_buf = replicate RECV_BUF_SIZE 0\<rparr>"

section \<open>Messages\<close>

definition bind_failed_message :: "u16 \<Rightarrow> string" where
  "bind_failed_message port = ''Failed to bind on port '' @ to_string (unat port)"

definition listening_message :: "u16 \<Rightarrow> string" where
  "listening_message port = ''[NetworkListener] Listening on port '' @ to_string (unat port) @ newline"

definition accept_error_message :: "(nat \<Rightarrow> string) \<Rightarrow> nat \<Rightarrow> string" where
  "accept_error_message strerror err = ''[NetworkListener] accept() error: '' @ strerror err @ newline"

definition nonblocking_failed_message :: "int \<Rightarrow> cpp_error \<Rightarrow> string" where
  "nonblocking_failed_message fd e =
     ''[NetworkListener] set_nonblocking failed for client fd='' @ int_to_string fd @ '': '' @
     what e @ newline"

definition add_client_failed_message :: "(nat \<Rightarrow> string) \<Rightarrow> nat \<Rightarrow> string" where
  "add_client_failed_message strerror err =
     ''[NetworkListener] epoll_ctl add client failed: '' @ strerror err @ newline"

definition connected_message :: "int \<Rightarrow> string \<Rightarrow> string" where
  "connected_message fd addr =
     ''[NetworkListener] Client connected (fd='' @ int_to_string fd @ '', addr='' @ addr @ '')'' @ newline"

definition recv_error_message :: "(nat \<Rightarrow> string) \<Rightarrow> int \<Rightarrow> nat \<Rightarrow> string" where
  "recv_error_message strerror fd err =
     ''[NetworkListener] recv() error on fd '' @ int_to_string fd @ '': '' @ strerror err @ newline"

definition disconnected_message :: "int \<Rightarrow> string" where
  "disconnected_message fd =
     ''[NetworkListener] Client disconnected (fd='' @ int_to_string fd @ '')'' @ newline"

definition wait_error_message :: "(nat \<Rightarrow> string) \<Rightarrow> nat \<Rightarrow> string" where
  "wait_error_message strerror err = ''[NetworkListener] epoll_wait error: '' @ strerror err @ newline"

definition shutdown_message :: string where
  "shutdown_message = ''[NetworkListener] Shutdown event received. Shutting down...'' @ newline"

section \<open>Setup\<close>

text \<open>\<open>std::system_error(errno, std::system_category(), what)\<close>\<close>

definition sys_error :: "(nat \<Rightarrow> string) \<Rightarrow> nat \<Rightarrow> string \<Rightarrow> cpp_error" where
  "sys_error strerror err w = system_error (int err) (w @ '': '' @ strerror err)"

definition set_nonblocking ::
  "(nat \<Rightarrow> string) \<Rightarrow> int \<Rightarrow> answer \<Rightarrow> answer \<Rightarrow> cpp_error option \<times> listener_effect list" where
  "set_nonblocking strerror fd getfl setfl =
     (let flags = fst getfl in
      if flags < 0 then (Some (sys_error strerror (snd getfl) ''fcntl F_GETFL failed''), [])
      else if fst setfl < 0
      then (Some (sys_error strerror (snd setfl) ''fcntl F_SETFL O_NONBLOCK failed''), [])
      else (None, [Set_flags fd (flags OR O_NONBLOCK)]))"

record server_answers =
  a_socket :: answer
  a_setsockopt :: answer
  a_getfl :: answer
  a_setfl :: answer
  a_bind :: answer
  a_listen :: answer

definition setup_server_socket :: "(nat \<Rightarrow> string) \<Rightarrow> server_answers \<Rightarrow> NetworkListener \<Rightarrow>
    cpp_error option \<times> NetworkListener \<times> listener_effect list" where
  "setup_server_socket strerror a l =
     (if fst (a_socket a) < 0
      then (Some (sys_error strerror (snd (a_socket a)) ''Failed to create socket''), l, [])
      else
        let (h, closes) = sh_reset (m_server_fd l) (fst (a_socket a));
            l = l\<lparr>m_server_fd := h\<rparr>;
            out = Opened (fst (a_socket a)) # map Close_fd closes in
        if fst (a_setsockopt a) < 0
        then (Some (sys_error strerror (snd (a_setsockopt a)) ''setsockopt SO_REUSEADDR failed''), l, out)
        else case set_nonblocking strerror (sh_get (m_server_fd l)) (a_getfl a) (a_setfl a) of
          (Some e, out') \<Rightarrow> (Some e, l, out @ out')
        | (None, out') \<Rightarrow>
            if fst (a_bind a) < 0
            then (Some (sys_error strerror (snd (a_bind a))
                    (bind_failed_message (m_port l))), l, out @ out')
            else if fst (a_listen a) < 0
            then (Some (sys_error strerror (snd (a_listen a)) ''Failed to listen''), l, out @ out')
            else (None, l, out @ out' @
                   [Message (listening_message (m_port l))]))"

record epoll_answers =
  a_epoll_create1 :: answer
  a_eventfd :: answer
  a_add_server :: answer
  a_add_event :: answer

definition setup_epoll :: "(nat \<Rightarrow> string) \<Rightarrow> epoll_answers \<Rightarrow> NetworkListener \<Rightarrow>
    cpp_error option \<times> NetworkListener \<times> listener_effect list" where
  "setup_epoll strerror a l =
     (if fst (a_epoll_create1 a) < 0
      then (Some (sys_error strerror (snd (a_epoll_create1 a)) ''epoll_create1 failed''), l, [])
      else
        let (h, closes) = sh_reset (m_epoll_fd l) (fst (a_epoll_create1 a));
            l = l\<lparr>m_epoll_fd := h\<rparr>;
            out = Opened (fst (a_epoll_create1 a)) # map Close_fd closes in
        if fst (a_eventfd a) < 0
        then (Some (sys_error strerror (snd (a_eventfd a)) ''eventfd failed''), l, out)
        else
          let (h', closes') = sh_reset (m_event_fd l) (fst (a_eventfd a));
              l = l\<lparr>m_event_fd := h'\<rparr>;
              out = out @ Opened_nonblocking (fst (a_eventfd a)) # map Close_fd closes' in
          if fst (a_add_server a) < 0
          then (Some (sys_error strerror (snd (a_add_server a)) ''epoll_ctl add server_fd failed''), l, out)
          else
            let out = out @ [Epoll_add (sh_get (m_server_fd l)) EPOLLIN] in
            if fst (a_add_event a) < 0
            then (Some (sys_error strerror (snd (a_add_event a)) ''epoll_ctl add event_fd failed''), l, out)
            else (None, l, out @ [Epoll_add (sh_get (m_event_fd l)) EPOLLIN]))"

section \<open>Clients\<close>

text \<open>
  What the kernel answers in one turn of the accept loop: the descriptor (or an error), the flags
  calls, the registration, and the client's address as \<open>inet_ntop\<close> prints it.
\<close>

record accept_answer =
  a_accept :: answer
  ac_getfl :: answer
  ac_setfl :: answer
  a_add_client :: answer
  addr_str :: string

text \<open>
  \<open>m_clients.emplace(fd_key, std::move(client_handle))\<close>: when the key is present, the node that was
  built from the handle is destroyed, and its descriptor closed.
\<close>

definition emplace_client :: "NetworkListener \<Rightarrow> int \<Rightarrow> SocketHandle \<Rightarrow>
    NetworkListener \<times> listener_effect list" where
  "emplace_client l fd_key client_handle =
     (let (moved, rest) = sh_move_ctor client_handle in
      case l_clients l fd_key of
        None \<Rightarrow> (l\<lparr>l_clients := (l_clients l)(fd_key \<mapsto> moved)\<rparr>, map Close_fd (sh_destroy rest))
      | Some _ \<Rightarrow> (l, map Close_fd (sh_destroy moved @ sh_destroy rest)))"

definition accept_one :: "(nat \<Rightarrow> string) \<Rightarrow> NetworkListener \<Rightarrow> accept_answer \<Rightarrow>
    bool \<times> NetworkListener \<times> listener_effect list" where
  "accept_one strerror l a =
     (let raw_fd = fst (a_accept a); err = snd (a_accept a) in
      if raw_fd < 0 then
        if err = EAGAIN \<or> err = EWOULDBLOCK then (False, l, [])
        else (False, l, [Message (accept_error_message strerror err)])
      else
        let client_handle = SocketHandle_ctor raw_fd in
        case set_nonblocking strerror (sh_get client_handle) (ac_getfl a) (ac_setfl a) of
          (Some e, out) \<Rightarrow>
            (True, l, Opened raw_fd # out @
              Message (nonblocking_failed_message (sh_get client_handle) e) #
              map Close_fd (sh_destroy client_handle))
        | (None, out) \<Rightarrow>
            if fst (a_add_client a) < 0 then
              (True, l, Opened raw_fd # out @
                Message (add_client_failed_message strerror (snd (a_add_client a))) #
                map Close_fd (sh_destroy client_handle))
            else
              let (l', closes) = emplace_client l (sh_get client_handle) client_handle in
              (True, l', Opened raw_fd # out @
                [Epoll_add (sh_get client_handle) (EPOLLIN OR EPOLLET),
                 Message (connected_message (sh_get client_handle) (addr_str a))] @
                closes))"

text \<open>The first component says whether the loop was left.\<close>

fun handle_accept :: "(nat \<Rightarrow> string) \<Rightarrow> NetworkListener \<Rightarrow> accept_answer list \<Rightarrow>
    bool \<times> NetworkListener \<times> listener_effect list" where
  "handle_accept strerror l [] = (False, l, [])"
| "handle_accept strerror l (a # as) =
     (let (again, l', out) = accept_one strerror l a in
      if again then
        let (left, l'', out') = handle_accept strerror l' as in (left, l'', out @ out')
      else (True, l', out))"

record recv_answer =
  a_recv :: answer
  recv_bytes :: "byte list"

text \<open>The kernel writes what it received to the front of the buffer it was given.\<close>

definition recv_into :: "byte list \<Rightarrow> byte list \<Rightarrow> byte list" where
  "recv_into buf bytes = take (length buf) (bytes @ drop (length bytes) buf)"

datatype data_end = Still_reading | Alive | Gone | Data_error cpp_error

fun handle_client_data :: "(nat \<Rightarrow> string) \<Rightarrow> NetworkListener \<Rightarrow> int \<Rightarrow> recv_answer list \<Rightarrow>
    data_end \<times> NetworkListener \<times> listener_effect list" where
  "handle_client_data strerror l client_fd [] = (Still_reading, l, [])"
| "handle_client_data strerror l client_fd (a # as) =
     (let bytes_received = fst (a_recv a); err = snd (a_recv a) in
      if 0 < bytes_received then
        let l = l\<lparr>m_recv_buf := recv_into (m_recv_buf l) (recv_bytes a)\<rparr> in
        if int (length (m_recv_buf l)) < bytes_received
        then (Data_error (Undefined ''read past the receive buffer''), l, [])
        else
          let chunk = \<lparr>client_id = client_fd, chunk_data = take (nat bytes_received) (m_recv_buf l)\<rparr>;
              (r, l', out) = handle_client_data strerror l client_fd as in
          (r, l', Enqueue chunk # out)
      else if bytes_received = 0 then (Gone, l, [])
      else if err = EAGAIN \<or> err = EWOULDBLOCK then (Alive, l, [])
      else (Gone, l, [Message (recv_error_message strerror client_fd err)]))"

definition disconnect_client :: "NetworkListener \<Rightarrow> int \<Rightarrow> NetworkListener \<times> listener_effect list" where
  "disconnect_client l client_fd =
     (l\<lparr>l_clients := (l_clients l)(client_fd := None)\<rparr>,
      Epoll_del client_fd #
      (case l_clients l client_fd of None \<Rightarrow> [] | Some h \<Rightarrow> map Close_fd (sh_destroy h)) @
      [Enqueue \<lparr>client_id = client_fd, chunk_data = []\<rparr>,
       Message (disconnected_message client_fd)])"

section \<open>The event loop\<close>

text \<open>An event of \<open>epoll_wait\<close>, with what the kernel answers while the event is handled.\<close>

record event =
  source_fd :: int
  ev_flags :: u32
  ev_accepts :: "accept_answer list"
  ev_recvs :: "recv_answer list"

datatype dispatch = Next | Busy | Leave | Raise cpp_error

definition dispatch_event :: "(nat \<Rightarrow> string) \<Rightarrow> NetworkListener \<Rightarrow> event \<Rightarrow>
    dispatch \<times> NetworkListener \<times> listener_effect list" where
  "dispatch_event strerror l ev =
     (if source_fd ev = sh_get (m_event_fd l) then
        (Leave, l, [Drain_event (sh_get (m_event_fd l)), Message shutdown_message])
      else if source_fd ev = sh_get (m_server_fd l) then
        (case handle_accept strerror l (ev_accepts ev) of
           (left, l', out) \<Rightarrow> (if left then Next else Busy, l', out))
      else if ev_flags ev AND (EPOLLERR OR EPOLLHUP) \<noteq> 0 then
        (case disconnect_client l (source_fd ev) of (l', out) \<Rightarrow> (Next, l', out))
      else if ev_flags ev AND EPOLLIN \<noteq> 0 then
        (case handle_client_data strerror l (source_fd ev) (ev_recvs ev) of
           (Alive, l', out) \<Rightarrow> (Next, l', out)
         | (Gone, l', out) \<Rightarrow>
             (case disconnect_client l' (source_fd ev) of (l'', out') \<Rightarrow> (Next, l'', out @ out'))
         | (Still_reading, l', out) \<Rightarrow> (Busy, l', out)
         | (Data_error e, l', out) \<Rightarrow> (Raise e, l', out))
      else (Next, l, []))"

fun dispatch_events :: "(nat \<Rightarrow> string) \<Rightarrow> NetworkListener \<Rightarrow> event list \<Rightarrow>
    dispatch \<times> NetworkListener \<times> listener_effect list" where
  "dispatch_events strerror l [] = (Next, l, [])"
| "dispatch_events strerror l (ev # evs) =
     (case dispatch_event strerror l ev of
        (Next, l', out) \<Rightarrow>
          (case dispatch_events strerror l' evs of (r, l'', out') \<Rightarrow> (r, l'', out @ out'))
      | (r, l', out) \<Rightarrow> (r, l', out))"

text \<open>What \<open>epoll_wait\<close> answered, and the body of the loop from there.\<close>

datatype wait_answer = Wait_error nat | Events "event list"

definition listener_body :: "(nat \<Rightarrow> string) \<Rightarrow> NetworkListener \<Rightarrow> wait_answer \<Rightarrow>
    dispatch \<times> NetworkListener \<times> listener_effect list" where
  "listener_body strerror l w =
     (case w of
        Wait_error err \<Rightarrow>
          if err = EINTR then (Next, l, []) else (Leave, l, [Message (wait_error_message strerror err)])
      | Events evs \<Rightarrow>
          (case dispatch_events strerror l evs of
             (r, l', out) \<Rightarrow> (r, l', Polled (map source_fd evs) # out)))"

text \<open>A turn of the loop has what \<open>stop_requested()\<close> and \<open>epoll_wait\<close> answered.\<close>

datatype listener_end = Listening | Listener_returned | Listener_terminated cpp_error

fun listener_loop :: "(nat \<Rightarrow> string) \<Rightarrow> NetworkListener \<Rightarrow> (bool \<times> wait_answer) list \<Rightarrow>
    listener_end \<times> NetworkListener \<times> listener_effect list" where
  "listener_loop strerror l [] = (Listening, l, [])"
| "listener_loop strerror l ((stop_requested, w) # turns) =
     (if stop_requested then (Listener_returned, l, [])
      else case listener_body strerror l w of
        (Next, l', out) \<Rightarrow>
          (case listener_loop strerror l' turns of (r, l'', out') \<Rightarrow> (r, l'', out @ out'))
      | (Busy, l', out) \<Rightarrow> (Listening, l', out)
      | (Leave, l', out) \<Rightarrow> (Listener_returned, l', out)
      | (Raise e, l', out) \<Rightarrow> (Listener_terminated e, l', out))"

definition listener_setup :: "(nat \<Rightarrow> string) \<Rightarrow> server_answers \<Rightarrow> epoll_answers \<Rightarrow> NetworkListener \<Rightarrow>
    cpp_error option \<times> NetworkListener \<times> listener_effect list" where
  "listener_setup strerror sa ea l =
     (case setup_server_socket strerror sa l of
        (Some e, l1, out) \<Rightarrow> (Some e, l1, out)
      | (None, l1, out) \<Rightarrow>
          (case setup_epoll strerror ea l1 of (r, l2, out') \<Rightarrow> (r, l2, out @ out')))"

definition listener_run :: "(nat \<Rightarrow> string) \<Rightarrow> server_answers \<Rightarrow> epoll_answers \<Rightarrow>
    (bool \<times> wait_answer) list \<Rightarrow> NetworkListener \<Rightarrow>
    listener_end \<times> NetworkListener \<times> listener_effect list" where
  "listener_run strerror sa ea turns l =
     (case listener_setup strerror sa ea l of
        (Some e, l1, out) \<Rightarrow> (Listener_terminated e, l1, out)
      | (None, l1, out) \<Rightarrow>
          (case listener_loop strerror l1 turns of (r, l2, out') \<Rightarrow> (r, l2, out @ out')))"

text \<open>
  The destructor of the listener: the members in reverse order of declaration, the clients in some
  order \<open>keys\<close> of the map.
\<close>

definition listener_destroy :: "int list \<Rightarrow> NetworkListener \<Rightarrow> listener_effect list" where
  "listener_destroy keys l =
     map Close_fd (concat (map (\<lambda>k. case l_clients l k of None \<Rightarrow> [] | Some h \<Rightarrow> sh_destroy h) keys) @
       sh_destroy (m_event_fd l) @ sh_destroy (m_epoll_fd l) @ sh_destroy (m_server_fd l))"

end
