(* ===== verification/Listener_Protocol.thy ===== *)
theory Listener_Protocol
  imports Network_Listener
begin

text \<open>
  What the listener owes the kernel and the parser, as an automaton that audits its trace of effects.
  The automaton follows the life of every descriptor and blames the first side that breaks the
  protocol: the kernel, when it hands out a descriptor that is open or reports one that is not
  registered (or one twice in a batch); the listener, when it uses or closes a descriptor that it
  does not hold, takes data from one that is not registered, or lets a descriptor go without telling
  the parser. The main lemma: the listener is never to blame.
\<close>

section \<open>The automaton\<close>

datatype fd_state = Free | Open | Nonblocking | Registered | Leaving | Closing

datatype verdict = Fine "int \<Rightarrow> fd_state" | Kernel_broke | Listener_broke

fun audit_step :: "(int \<Rightarrow> fd_state) \<Rightarrow> listener_effect \<Rightarrow> verdict" where
  "audit_step f (Opened fd) =
     (case f fd of Free \<Rightarrow> Fine (f(fd := Open)) | Closing \<Rightarrow> Listener_broke | _ \<Rightarrow> Kernel_broke)"
| "audit_step f (Opened_nonblocking fd) =
     (case f fd of Free \<Rightarrow> Fine (f(fd := Nonblocking)) | Closing \<Rightarrow> Listener_broke | _ \<Rightarrow> Kernel_broke)"
| "audit_step f (Polled fds) =
     (if distinct fds \<and> length fds \<le> MAX_EPOLL_EVENTS \<and> list_all (\<lambda>fd. f fd = Registered) fds
      then Fine f else Kernel_broke)"
| "audit_step f (Set_flags fd flags) =
     (if f fd = Open \<and> flags AND O_NONBLOCK \<noteq> 0 then Fine (f(fd := Nonblocking)) else Listener_broke)"
| "audit_step f (Epoll_add fd flags) =
     (if f fd = Nonblocking \<and> flags AND EPOLLIN \<noteq> 0 then Fine (f(fd := Registered)) else Listener_broke)"
| "audit_step f (Epoll_del fd) = (if f fd = Registered then Fine (f(fd := Leaving)) else Listener_broke)"
| "audit_step f (Close_fd fd) =
     (case f fd of Open \<Rightarrow> Fine (f(fd := Free)) | Nonblocking \<Rightarrow> Fine (f(fd := Free))
      | Leaving \<Rightarrow> Fine (f(fd := Closing)) | _ \<Rightarrow> Listener_broke)"
| "audit_step f (Enqueue c) =
     (if chunk_data c = []
      then if f (client_id c) = Closing then Fine (f(client_id c := Free)) else Listener_broke
      else if f (client_id c) = Registered then Fine f else Listener_broke)"
| "audit_step f (Drain_event fd) = (if f fd = Registered then Fine f else Listener_broke)"
| "audit_step f (Message m) = Fine f"

lemma watched: "EPOLLIN \<noteq> 0"
  by (simp add: EPOLLIN_def)

fun audit :: "(int \<Rightarrow> fd_state) \<Rightarrow> listener_effect list \<Rightarrow> verdict" where
  "audit f [] = Fine f"
| "audit f (e # es) = (case audit_step f e of Fine f' \<Rightarrow> audit f' es | v \<Rightarrow> v)"

text \<open>The trace went well so far and led to \<open>f\<close>, or the kernel broke the protocol first.\<close>

definition blameless :: "verdict \<Rightarrow> (int \<Rightarrow> fd_state) \<Rightarrow> bool" where
  "blameless v f \<longleftrightarrow> v = Fine f \<or> v = Kernel_broke"

lemma audit_append:
  "audit f (es @ es') = (case audit f es of Fine f' \<Rightarrow> audit f' es' | v \<Rightarrow> v)"
  by (induction es arbitrary: f) (auto split: verdict.splits)

section \<open>The states of the listener's descriptors\<close>

definition listening :: "NetworkListener \<Rightarrow> bool" where
  "listening l \<longleftrightarrow>
     0 \<le> m_fd (m_server_fd l) \<and> 0 \<le> m_fd (m_epoll_fd l) \<and> 0 \<le> m_fd (m_event_fd l) \<and>
     distinct [m_fd (m_server_fd l), m_fd (m_epoll_fd l), m_fd (m_event_fd l)] \<and>
     (\<forall>fd h. l_clients l fd = Some h \<longrightarrow> m_fd h = fd \<and> 0 \<le> fd \<and>
        fd \<notin> {m_fd (m_server_fd l), m_fd (m_epoll_fd l), m_fd (m_event_fd l)}) \<and>
     length (m_recv_buf l) = RECV_BUF_SIZE"

definition fd_states :: "NetworkListener \<Rightarrow> int \<Rightarrow> fd_state" where
  "fd_states l fd =
     (if fd = m_fd (m_server_fd l) \<or> fd = m_fd (m_event_fd l) then Registered
      else if fd = m_fd (m_epoll_fd l) then Open
      else if l_clients l fd = None then Free else Registered)"

lemma nonblocking_flag: "(flags OR O_NONBLOCK) AND O_NONBLOCK \<noteq> 0"
proof -
  have "bit ((flags OR O_NONBLOCK) AND O_NONBLOCK) 11"
    by (simp add: bit_simps O_NONBLOCK_def bit_numeral_rec)
  then show ?thesis by (metis bit_0_eq bot_apply bot_bool_def)
qed

lemma set_nonblocking_audit:
  "set_nonblocking strerror fd g s = (r, out) \<Longrightarrow> f fd = Open \<Longrightarrow>
   audit f out = Fine (if r = None then f(fd := Nonblocking) else f)"
  by (auto simp: set_nonblocking_def Let_def nonblocking_flag split: if_splits)

text \<open>A connection with an unused descriptor is registered, or closed when a call on it fails.\<close>

lemma accept_fresh_audit:
  assumes l: "listening l" and step: "accept_one strerror l a = (again, l', out)"
    and fresh: "0 \<le> fst (a_accept a)" "fd_states l (fst (a_accept a)) = Free"
  shows "audit (fd_states l) out = Fine (fd_states l') \<and> listening l' \<and>
    m_server_fd l' = m_server_fd l \<and> m_event_fd l' = m_event_fd l \<and>
    (\<forall>fd. l_clients l fd \<noteq> None \<longrightarrow> l_clients l' fd \<noteq> None)"
proof -
  let ?fd = "fst (a_accept a)" and ?f = "fd_states l"
  have new: "l_clients l ?fd = None" "?fd \<notin> {m_fd (m_server_fd l), m_fd (m_epoll_fd l), m_fd (m_event_fd l)}"
    using fresh(2) by (auto simp: fd_states_def split: if_splits)
  obtain r flags where nb: "set_nonblocking strerror ?fd (ac_getfl a) (ac_setfl a) = (r, flags)" by fastforce
  have flags: "audit (?f(?fd := Open)) flags = Fine (if r = None then ?f(?fd := Nonblocking) else ?f(?fd := Open))"
    using set_nonblocking_audit [OF nb, of "?f(?fd := Open)"] by simp
  let ?l = "l\<lparr>l_clients := (l_clients l)(?fd \<mapsto> \<lparr>m_fd = ?fd\<rparr>)\<rparr>"
  have undo: "?f(?fd := Free) = ?f" using fresh(2) by auto
  have reg: "?f(?fd := Registered) = fd_states ?l" using new by (auto simp: fd_states_def fun_eq_iff)
  have "listening ?l" using l new fresh(1) by (auto simp: listening_def)
  show ?thesis
  proof (cases "r = None \<and> 0 \<le> fst (a_add_client a)")
    case True
    have "\<exists>m. out = Opened ?fd # flags @ [Epoll_add ?fd (EPOLLIN OR EPOLLET), Message m]" "l' = ?l"
      using step fresh(1) True nb new(1)
      by (auto simp: accept_one_def Let_def emplace_client_def sh_ops)
    then show ?thesis using fresh(2) flags True \<open>listening ?l\<close> new(1) by (auto simp: audit_append reg watched)
  next
    case False
    have "\<exists>m. out = Opened ?fd # flags @ [Message m, Close_fd ?fd]" "l' = l"
      using step fresh(1) False nb by (auto simp: accept_one_def Let_def sh_ops split: option.splits)
    then show ?thesis using fresh(2) flags l by (cases r) (auto simp: audit_append undo)
  qed
qed

lemma accept_one_audit:
  assumes l: "listening l" and step: "accept_one strerror l a = (again, l', out)"
  shows "audit (fd_states l) out = Kernel_broke \<or>
    audit (fd_states l) out = Fine (fd_states l') \<and> listening l' \<and>
    m_server_fd l' = m_server_fd l \<and> m_event_fd l' = m_event_fd l \<and>
    (\<forall>fd. l_clients l fd \<noteq> None \<longrightarrow> l_clients l' fd \<noteq> None)"
proof -
  let ?fd = "fst (a_accept a)" and ?f = "fd_states l"
  consider (err) "?fd < 0" | (used) "0 \<le> ?fd" "?f ?fd \<noteq> Free" | (fresh) "0 \<le> ?fd" "?f ?fd = Free"
    by linarith
  then show ?thesis
  proof cases
    case err
    then show ?thesis using step l by (auto simp: accept_one_def Let_def split: if_splits)
  next
    case used
    have "?f ?fd \<noteq> Closing" "?f ?fd \<noteq> Leaving" by (auto simp: fd_states_def)
    moreover obtain rest where "out = Opened ?fd # rest"
      using step used(1) by (auto simp: accept_one_def Let_def split: if_splits prod.splits option.splits)
    ultimately show ?thesis using used(2) by (cases "?f ?fd") auto
  next
    case fresh
    then show ?thesis using accept_fresh_audit [OF l step] by blast
  qed
qed

text \<open>
  What holds after a part of the loop that started from \<open>l\<close>: the trace so far is the kernel's fault,
  or the descriptors are again as the listener's members say, and those in \<open>keep\<close> are still
  registered.
\<close>

definition good_part :: "NetworkListener \<Rightarrow> NetworkListener \<Rightarrow> listener_effect list \<Rightarrow> int set \<Rightarrow> bool" where
  "good_part l l' out keep \<longleftrightarrow>
     audit (fd_states l) out = Kernel_broke \<or>
     audit (fd_states l) out = Fine (fd_states l') \<and> listening l' \<and>
     m_server_fd l' = m_server_fd l \<and> m_event_fd l' = m_event_fd l \<and>
     (\<forall>fd \<in> keep. l_clients l fd \<noteq> None \<longrightarrow> l_clients l' fd \<noteq> None)"

lemma good_part_refl: "listening l \<Longrightarrow> good_part l l [] keep"
  by (simp add: good_part_def)

lemma good_part_trans:
  "good_part l l' out keep \<Longrightarrow> (listening l' \<Longrightarrow> good_part l' l'' out' keep) \<Longrightarrow>
   good_part l l'' (out @ out') keep"
  by (auto simp: good_part_def audit_append)

lemma good_part_message: "listening l \<Longrightarrow> good_part l l [Message m] keep"
  by (simp add: good_part_def)

lemma good_part_drain: "listening l \<Longrightarrow> good_part l l [Drain_event (m_fd (m_event_fd l)), Message m] keep"
  by (simp add: good_part_def fd_states_def)

lemma handle_accept_good:
  "handle_accept strerror l as = (left, l', out) \<Longrightarrow> listening l \<Longrightarrow> good_part l l' out keep"
proof (induction strerror l as arbitrary: left l' out rule: handle_accept.induct)
  case (2 strerror l a as)
  obtain again l1 out1 where one: "accept_one strerror l a = (again, l1, out1)" by (cases "accept_one strerror l a") auto
  have first: "good_part l l1 out1 keep"
    using accept_one_audit [OF 2(3) one] by (auto simp: good_part_def)
  show ?case
  proof (cases again)
    case True
    obtain left' l2 out2 where rest: "handle_accept strerror l1 as = (left', l2, out2)"
      by (cases "handle_accept strerror l1 as") auto
    have "listening l1 \<Longrightarrow> good_part l1 l2 out2 keep"
      using 2(1) [OF one [symmetric] refl refl True rest] .
    then show ?thesis
      using 2(2) one rest True first good_part_trans [OF first, of l2 out2] by simp
  next
    case False
    then show ?thesis using 2(2) one first by simp
  qed
qed (simp add: good_part_refl)

lemma fd_states_client:
  "listening l \<Longrightarrow> l_clients l fd \<noteq> None \<Longrightarrow> fd_states l fd = Registered"
  by (auto simp: fd_states_def listening_def)

lemma fd_states_recv [simp]: "fd_states (l\<lparr>m_recv_buf := b\<rparr>) = fd_states l"
  by (simp add: fd_states_def fun_eq_iff)

lemma listening_recv: "listening l \<Longrightarrow> listening (l\<lparr>m_recv_buf := recv_into (m_recv_buf l) bs\<rparr>)"
  by (auto simp: listening_def recv_into_def)

lemma handle_client_data_good:
  "handle_client_data strerror l fd as = (r, l', out) \<Longrightarrow> listening l \<Longrightarrow> l_clients l fd \<noteq> None \<Longrightarrow>
   audit (fd_states l) out = Fine (fd_states l) \<and> listening l' \<and> fd_states l' = fd_states l \<and>
   m_server_fd l' = m_server_fd l \<and> m_event_fd l' = m_event_fd l \<and> l_clients l' = l_clients l"
proof (induction strerror l fd as arbitrary: r l' out rule: handle_client_data.induct)
  case (2 strerror l fd a as)
  let ?l = "l\<lparr>m_recv_buf := recv_into (m_recv_buf l) (recv_bytes a)\<rparr>" and ?n = "fst (a_recv a)"
  consider (data) "0 < ?n" "?n \<le> int (length (m_recv_buf ?l))"
    | (bad) "0 < ?n" "int (length (m_recv_buf ?l)) < ?n" | (over) "?n \<le> 0"
    by linarith
  then show ?case
  proof cases
    case data
    obtain r1 l1 out1 where rest: "handle_client_data strerror ?l fd as = (r1, l1, out1)"
      by (cases "handle_client_data strerror ?l fd as") auto
    have "take (nat ?n) (m_recv_buf ?l) \<noteq> []" using data by auto
    moreover have "r = r1" "l' = l1"
      "out = Enqueue \<lparr>client_id = fd, chunk_data = take (nat ?n) (m_recv_buf ?l)\<rparr> # out1"
      using 2(2) data rest by (auto simp: Let_def)
    moreover have "audit (fd_states ?l) out1 = Fine (fd_states ?l) \<and> listening l1 \<and> fd_states l1 = fd_states ?l \<and>
        m_server_fd l1 = m_server_fd ?l \<and> m_event_fd l1 = m_event_fd ?l \<and> l_clients l1 = l_clients ?l"
      using 2(1) [OF refl refl data(1) refl _ refl rest listening_recv [OF 2(3)]] data 2(4) by simp
    ultimately show ?thesis using fd_states_client [OF 2(3,4)] by simp
  next
    case bad
    then show ?thesis using 2 listening_recv [OF 2(3)] by (auto simp: Let_def)
  next
    case over
    then show ?thesis using 2 by (auto simp: Let_def split: if_splits)
  qed
qed simp

lemma disconnect_client_good:
  assumes "listening l" and "l_clients l fd \<noteq> None" and "fd \<notin> keep"
    and "disconnect_client l fd = (l', out)"
  shows "good_part l l' out keep"
proof -
  let ?l = "l\<lparr>l_clients := (l_clients l)(fd := None)\<rparr>"
  obtain h where h: "l_clients l fd = Some h" using assms(2) by auto
  have fd: "m_fd h = fd" "0 \<le> fd" "fd \<notin> {m_fd (m_server_fd l), m_fd (m_epoll_fd l), m_fd (m_event_fd l)}"
    using assms(1) h unfolding listening_def by blast+
  have "(fd_states l)(fd := Free) = fd_states ?l" using fd(3) by (auto simp: fd_states_def fun_eq_iff)
  moreover have "fd_states l fd = Registered" using assms(1,2) by (rule fd_states_client)
  moreover have "listening ?l" using assms(1) by (auto simp: listening_def)
  moreover have "\<exists>m. out = [Epoll_del fd, Close_fd fd, Enqueue \<lparr>client_id = fd, chunk_data = []\<rparr>, Message m]"
    and "l' = ?l"
    using assms(4) h fd(1,2) by (auto simp: disconnect_client_def sh_destroy_def)
  ultimately show ?thesis using assms(3) by (auto simp: good_part_def)
qed

lemma registered_client:
  "fd_states l fd = Registered \<Longrightarrow> fd \<noteq> m_fd (m_server_fd l) \<Longrightarrow> fd \<noteq> m_fd (m_event_fd l) \<Longrightarrow>
   l_clients l fd \<noteq> None"
  by (auto simp: fd_states_def split: if_splits)

lemma dispatch_event_good:
  assumes "listening l" and "fd_states l (source_fd ev) = Registered" and "source_fd ev \<notin> keep"
    and "dispatch_event strerror l ev = (r, l', out)"
  shows "good_part l l' out keep"
proof (cases "source_fd ev = m_fd (m_event_fd l) \<or> source_fd ev = m_fd (m_server_fd l)")
  case True
  then show ?thesis
    using assms(1,4) handle_accept_good [of strerror l "ev_accepts ev"]
    by (auto simp: dispatch_event_def sh_get_def good_part_drain split: prod.splits if_splits)
next
  case False
  then have client: "l_clients l (source_fd ev) \<noteq> None" using registered_client assms(2) by blast
  obtain e l1 out1 where d: "handle_client_data strerror l (source_fd ev) (ev_recvs ev) = (e, l1, out1)"
    by (cases "handle_client_data strerror l (source_fd ev) (ev_recvs ev)") auto
  note data = handle_client_data_good [OF d assms(1) client]
  then have part: "good_part l l1 out1 keep" by (simp add: good_part_def)
  obtain l2 out2 where c: "disconnect_client l1 (source_fd ev) = (l2, out2)" by fastforce
  have gone: "good_part l l2 (out1 @ out2) keep"
    using good_part_trans [OF part] disconnect_client_good [OF _ _ assms(3) c] data client by simp
  obtain l3 out3 where c3: "disconnect_client l (source_fd ev) = (l3, out3)" by fastforce
  have "good_part l l3 out3 keep" using disconnect_client_good [OF assms(1) client assms(3) c3] .
  then show ?thesis
    using assms(1,4) False d c c3 part gone
    by (auto simp: dispatch_event_def sh_get_def good_part_refl split: if_splits data_end.splits)
qed

lemma good_part_mono: "good_part l l' out keep \<Longrightarrow> keep' \<subseteq> keep \<Longrightarrow> good_part l l' out keep'"
  by (auto simp: good_part_def)

lemma good_part_registered:
  "good_part l l' out keep \<Longrightarrow> audit (fd_states l) out \<noteq> Kernel_broke \<Longrightarrow> fd \<in> keep \<Longrightarrow>
   fd_states l fd = Registered \<Longrightarrow> fd_states l' fd = Registered"
proof -
  assume part: "good_part l l' out keep" "audit (fd_states l) out \<noteq> Kernel_broke" and fd: "fd \<in> keep"
    and reg: "fd_states l fd = Registered"
  then have l': "listening l'" "m_server_fd l' = m_server_fd l" "m_event_fd l' = m_event_fd l"
    "l_clients l fd \<noteq> None \<Longrightarrow> l_clients l' fd \<noteq> None"
    by (auto simp: good_part_def)
  show "fd_states l' fd = Registered"
  proof (cases "fd = m_fd (m_server_fd l) \<or> fd = m_fd (m_event_fd l)")
    case True
    then show ?thesis using l'(2,3) by (auto simp: fd_states_def)
  next
    case False
    then show ?thesis using registered_client [OF reg] l' fd_states_client [OF l'(1)] by blast
  qed
qed

lemma dispatch_events_good:
  "dispatch_events strerror l evs = (r, l', out) \<Longrightarrow> listening l \<Longrightarrow> distinct (map source_fd evs) \<Longrightarrow>
   list_all (\<lambda>fd. fd_states l fd = Registered) (map source_fd evs) \<Longrightarrow> good_part l l' out {}"
proof (induction evs arbitrary: l r l' out)
  case (Cons ev evs)
  let ?keep = "set (map source_fd evs)"
  obtain r1 l1 out1 where one: "dispatch_event strerror l ev = (r1, l1, out1)"
    by (cases "dispatch_event strerror l ev") auto
  have first: "good_part l l1 out1 ?keep"
    using dispatch_event_good [OF Cons.prems(2) _ _ one] Cons.prems(3,4) by simp
  show ?case
  proof (cases "r1 = Next \<and> audit (fd_states l) out1 \<noteq> Kernel_broke")
    case True
    obtain r2 l2 out2 where rest: "dispatch_events strerror l1 evs = (r2, l2, out2)"
      by (cases "dispatch_events strerror l1 evs") auto
    have "list_all (\<lambda>fd. fd_states l1 fd = Registered) (map source_fd evs)"
      using Cons.prems(4) good_part_registered [OF first] True by (auto simp: list_all_iff)
    then have "listening l1 \<Longrightarrow> good_part l1 l2 out2 {}"
      using Cons.IH [OF rest] Cons.prems(3) by simp
    then show ?thesis
      using good_part_trans [OF good_part_mono [OF first]] Cons.prems(1) one rest True by auto
  next
    case False
    then show ?thesis
      using good_part_mono [OF first, of "{}"] Cons.prems(1) one
      by (auto simp: good_part_def audit_append split: dispatch.splits prod.splits)
  qed
qed (simp add: good_part_refl)

lemma listener_body_good:
  assumes "listener_body strerror l w = (r, l', out)" and "listening l"
  shows "good_part l l' out {}"
proof (cases w)
  case (Wait_error err)
  then show ?thesis
    using assms by (auto simp: listener_body_def good_part_refl good_part_message split: if_splits)
next
  case (Events evs)
  obtain r1 l1 out1 where d: "dispatch_events strerror l evs = (r1, l1, out1)"
    by (cases "dispatch_events strerror l evs") auto
  then show ?thesis
    using assms(1) Events dispatch_events_good [OF d assms(2)]
    by (auto simp: listener_body_def good_part_def split: if_splits)
qed

lemma listener_loop_good:
  "listener_loop strerror l turns = (r, l', out) \<Longrightarrow> listening l \<Longrightarrow> good_part l l' out {}"
proof (induction turns arbitrary: l r l' out)
  case (Cons turn turns)
  obtain stop w where turn: "turn = (stop, w)" by fastforce
  obtain r1 l1 out1 where b: "listener_body strerror l w = (r1, l1, out1)"
    by (cases "listener_body strerror l w") auto
  obtain r2 l2 out2 where rest: "listener_loop strerror l1 turns = (r2, l2, out2)"
    by (cases "listener_loop strerror l1 turns") auto
  note one = listener_body_good [OF b Cons.prems(2)]
  then show ?case
    using Cons.prems turn b rest good_part_trans [OF one Cons.IH [OF rest]]
    by (auto simp: good_part_refl split: if_splits dispatch.splits)
qed (simp add: good_part_refl)

section \<open>The whole life of the listener\<close>

text \<open>The descriptors that the listener's members own.\<close>

definition held :: "NetworkListener \<Rightarrow> int set" where
  "held l = {fd. 0 \<le> fd \<and> fd \<in> {m_fd (m_server_fd l), m_fd (m_epoll_fd l), m_fd (m_event_fd l)}} \<union>
     dom (l_clients l)"

lemma fd_states_held: "listening l \<Longrightarrow> fd_states l fd \<noteq> Free \<longleftrightarrow> fd \<in> held l"
  by (auto simp: listening_def fd_states_def held_def split: if_splits)

text \<open>No two members own the same descriptor, and the keys of the map are what its handles own.\<close>

definition tidy :: "NetworkListener \<Rightarrow> bool" where
  "tidy l \<longleftrightarrow>
     distinct (filter (\<lambda>fd. 0 \<le> fd) [m_fd (m_server_fd l), m_fd (m_epoll_fd l), m_fd (m_event_fd l)]) \<and>
     (\<forall>fd h. l_clients l fd = Some h \<longrightarrow> m_fd h = fd \<and> 0 \<le> fd \<and>
        fd \<notin> {m_fd (m_server_fd l), m_fd (m_epoll_fd l), m_fd (m_event_fd l)})"

lemma listening_tidy: "listening l \<Longrightarrow> tidy l"
  by (simp add: listening_def tidy_def)

definition one_fd :: "int \<Rightarrow> fd_state \<Rightarrow> int \<Rightarrow> fd_state" where
  "one_fd s t fd = (if 0 \<le> fd \<and> fd = s then t else Free)"

lemma setup_server_socket_good:
  assumes "setup_server_socket strerror sa (NetworkListener_ctor port) = (r, l, out)"
  shows "(\<exists>t. t \<noteq> Free \<and> audit (\<lambda>_. Free) out = Fine (one_fd (m_fd (m_server_fd l)) t) \<and>
      (r = None \<longrightarrow> t = Nonblocking)) \<and>
    l = (NetworkListener_ctor port)\<lparr>m_server_fd := m_server_fd l\<rparr> \<and>
    (r = None \<longrightarrow> 0 \<le> m_fd (m_server_fd l))"
proof (cases "fst (a_socket sa) < 0")
  case True
  have "one_fd (- 1) t = (\<lambda>_. Free)" for t by (simp add: one_fd_def fun_eq_iff)
  then show ?thesis using assms True
    by (auto simp: setup_server_socket_def NetworkListener_ctor_def sh_ops)
next
  case False
  let ?fd = "fst (a_socket sa)"
  obtain nb flags where nb: "set_nonblocking strerror ?fd (a_getfl sa) (a_setfl sa) = (nb, flags)" by fastforce
  have flags: "audit ((\<lambda>_. Free)(?fd := Open)) flags =
      Fine (if nb = None then (\<lambda>_. Free)(?fd := Nonblocking) else (\<lambda>_. Free)(?fd := Open))"
    using set_nonblocking_audit [OF nb, of "(\<lambda>_. Free)(?fd := Open)"] by simp
  have f: "one_fd ?fd t = (\<lambda>_. Free)(?fd := t)" for t
    using False by (auto simp: one_fd_def)
  show ?thesis using assms False nb flags
    by (auto simp: setup_server_socket_def NetworkListener_ctor_def sh_ops Let_def audit_append f
        split: if_splits option.splits)
qed

lemma setup_epoll_good:
  assumes "setup_epoll strerror ea l = (r, l', out)"
    and "l = (NetworkListener_ctor port)\<lparr>m_server_fd := m_server_fd l\<rparr>" and "0 \<le> m_fd (m_server_fd l)"
    and "audit (one_fd (m_fd (m_server_fd l)) Nonblocking) out \<noteq> Kernel_broke"
  shows "\<exists>f. audit (one_fd (m_fd (m_server_fd l)) Nonblocking) out = Fine f \<and>
    (\<forall>fd. f fd \<noteq> Free \<longleftrightarrow> fd \<in> held l') \<and> tidy l' \<and> (r = None \<longrightarrow> listening l' \<and> f = fd_states l')"
proof -
  have l: "m_fd (m_epoll_fd l) = - 1" "m_fd (m_event_fd l) = - 1" "l_clients l = Map.empty"
    "length (m_recv_buf l) = RECV_BUF_SIZE"
    by (subst assms(2), simp add: NetworkListener_ctor_def sh_ops)+
  let ?s = "m_fd (m_server_fd l)" and ?e = "fst (a_epoll_create1 ea)" and ?v = "fst (a_eventfd ea)"
  consider (no_epoll) "?e < 0" | (no_event) "0 \<le> ?e" "?v < 0" | (both) "0 \<le> ?e" "0 \<le> ?v" by linarith
  then show ?thesis
  proof cases
    case no_epoll
    then show ?thesis using assms(1,3) l by (auto simp: setup_epoll_def held_def tidy_def one_fd_def)
  next
    case no_event
    then show ?thesis using assms(1,3,4) l
      by (auto simp: setup_epoll_def held_def tidy_def one_fd_def Let_def sh_ops split: if_splits)
  next
    case both
    obtain rest where "out = Opened ?e # Opened_nonblocking ?v # rest"
      using assms(1) both l by (auto simp: setup_epoll_def Let_def sh_ops split: if_splits)
    then have new: "?e \<noteq> ?s" "?v \<noteq> ?s" "?v \<noteq> ?e"
      using assms(3,4) both by (auto simp: one_fd_def split: if_splits)
    show ?thesis
    proof (cases "r = None")
      case True
      let ?l = "l\<lparr>m_epoll_fd := \<lparr>m_fd = ?e\<rparr>, m_event_fd := \<lparr>m_fd = ?v\<rparr>\<rparr>"
      have l': "l' = ?l" and out: "out = [Opened ?e, Opened_nonblocking ?v, Epoll_add ?s EPOLLIN, Epoll_add ?v EPOLLIN]"
        using assms(1) both l True by (auto simp: setup_epoll_def Let_def sh_ops split: if_splits)
      have ok: "listening ?l" using assms(3) both l new by (auto simp: listening_def)
      have "audit (one_fd ?s Nonblocking) out = Fine (fd_states ?l)"
        using assms(3) new l(3) by (auto simp: out fd_states_def one_fd_def fun_eq_iff watched)
      then show ?thesis using fd_states_held [OF ok] ok listening_tidy [OF ok] by (auto simp: l')
    next
      case False
      then show ?thesis using assms(1,3) both l new
        by (auto simp: setup_epoll_def held_def tidy_def one_fd_def Let_def sh_ops watched split: if_splits)
    qed
  qed
qed

lemma listener_setup_good:
  assumes "listener_setup strerror sa ea (NetworkListener_ctor port) = (r, l, out)"
    and "audit (\<lambda>_. Free) out \<noteq> Kernel_broke"
  shows "\<exists>f. audit (\<lambda>_. Free) out = Fine f \<and> (\<forall>fd. f fd \<noteq> Free \<longleftrightarrow> fd \<in> held l) \<and> tidy l \<and>
    (r = None \<longrightarrow> listening l \<and> f = fd_states l)"
proof -
  obtain r1 l1 out1 where s: "setup_server_socket strerror sa (NetworkListener_ctor port) = (r1, l1, out1)"
    by (cases "setup_server_socket strerror sa (NetworkListener_ctor port)") auto
  note s1 = setup_server_socket_good [OF s]
  let ?f = "one_fd (m_fd (m_server_fd l1))"
  obtain r2 l2 out2 where e: "setup_epoll strerror ea l1 = (r2, l2, out2)"
    by (cases "setup_epoll strerror ea l1") auto
  show ?thesis
  proof (cases r1)
    case (Some x)
    then have "l = l1" "out = out1" "r \<noteq> None" using assms(1) s by (auto simp: listener_setup_def)
    moreover have "?f t fd \<noteq> Free \<longleftrightarrow> fd \<in> held l1" if "t \<noteq> Free" for t fd
      using that by (subst (2) s1 [THEN conjunct2, THEN conjunct1])
        (auto simp: held_def one_fd_def NetworkListener_ctor_def sh_ops)
    moreover have "tidy l1"
      by (subst s1 [THEN conjunct2, THEN conjunct1]) (auto simp: tidy_def NetworkListener_ctor_def sh_ops)
    ultimately show ?thesis using s1 by blast
  next
    case None
    then have "0 \<le> m_fd (m_server_fd l1)" "l1 = (NetworkListener_ctor port)\<lparr>m_server_fd := m_server_fd l1\<rparr>"
      using s1 by auto
    moreover have "audit (?f Nonblocking) out2 \<noteq> Kernel_broke"
      using assms s s1 e None by (auto simp: listener_setup_def audit_append)
    ultimately show ?thesis
      using setup_epoll_good [OF e] assms(1) s s1 e None by (auto simp: listener_setup_def audit_append)
  qed
qed

lemma listener_run_good:
  assumes "listener_run strerror sa ea turns (NetworkListener_ctor port) = (r, l, out)"
    and "audit (\<lambda>_. Free) out \<noteq> Kernel_broke"
  shows "\<exists>f. audit (\<lambda>_. Free) out = Fine f \<and> (\<forall>fd. f fd \<noteq> Free \<longleftrightarrow> fd \<in> held l) \<and> tidy l"
proof -
  obtain r1 l1 out1 where ready: "listener_setup strerror sa ea (NetworkListener_ctor port) = (r1, l1, out1)"
    by (cases "listener_setup strerror sa ea (NetworkListener_ctor port)") auto
  obtain r2 l2 out2 where loop: "listener_loop strerror l1 turns = (r2, l2, out2)"
    by (cases "listener_loop strerror l1 turns") auto
  have "audit (\<lambda>_. Free) out1 \<noteq> Kernel_broke"
    using assms ready loop by (auto simp: listener_run_def audit_append split: option.splits)
  note s = listener_setup_good [OF ready this]
  show ?thesis
  proof (cases r1)
    case None
    then show ?thesis
      using s listener_loop_good [OF loop] assms ready loop fd_states_held listening_tidy
      by (auto simp: listener_run_def audit_append good_part_def)
  next
    case (Some e)
    then show ?thesis using s assms(1) ready by (auto simp: listener_run_def)
  qed
qed

lemma listener_destroy_closes:
  assumes "tidy l" and "distinct keys" and "set keys = dom (l_clients l)"
  shows "\<exists>fds. listener_destroy keys l = map Close_fd fds \<and> distinct fds \<and> set fds = held l"
proof -
  let ?c = "\<lambda>k. case l_clients l k of None \<Rightarrow> [] | Some h \<Rightarrow> sh_destroy h"
    and ?m = "filter (\<lambda>fd. 0 \<le> fd) [m_fd (m_server_fd l), m_fd (m_epoll_fd l), m_fd (m_event_fd l)]"
  have "concat (map ?c ks) = ks" if "set ks \<subseteq> set keys" for ks
    using that
  proof (induction ks)
    case (Cons k ks)
    then obtain h where h: "l_clients l k = Some h" using assms(3) by auto
    moreover have "m_fd h = k" "0 \<le> k" using assms(1) h by (auto simp: tidy_def)
    ultimately show ?case using Cons by (auto simp: sh_destroy_def)
  qed simp
  then have c: "concat (map ?c keys) = keys" by simp
  have m: "sh_destroy (m_event_fd l) @ sh_destroy (m_epoll_fd l) @ sh_destroy (m_server_fd l) = rev ?m"
    by (simp add: sh_destroy_def)
  have "set keys \<inter> set ?m = {}" using assms(1,3) by (auto simp: tidy_def)
  then have "distinct (keys @ rev ?m)" using assms(1,2) by (auto simp: tidy_def)
  moreover have "set (keys @ rev ?m) = held l" using assms(3) by (auto simp: held_def)
  moreover have "listener_destroy keys l = map Close_fd (keys @ rev ?m)"
    unfolding listener_destroy_def c m ..
  ultimately show ?thesis by blast
qed

text \<open>The loop is left for an event of the eventfd or a failure of \<open>epoll_wait\<close>.\<close>

lemma event_fd_kept:
  "accept_one strerror l a = (again, l', out) \<Longrightarrow> m_event_fd l' = m_event_fd l"
  "disconnect_client l fd = (l', out) \<Longrightarrow> m_event_fd l' = m_event_fd l"
  by (auto simp: accept_one_def emplace_client_def disconnect_client_def Let_def
      split: if_splits option.splits prod.splits)

lemma handle_accept_event_fd: "handle_accept strerror l as = (left, l', out) \<Longrightarrow> m_event_fd l' = m_event_fd l"
proof (induction as arbitrary: l left l' out)
  case (Cons a as)
  then show ?case by (auto simp: Let_def dest!: event_fd_kept(1) split: prod.splits if_splits)
qed simp

lemma handle_client_data_event_fd:
  "handle_client_data strerror l fd as = (r, l', out) \<Longrightarrow> m_event_fd l' = m_event_fd l"
  by (induction as arbitrary: l r l' out) (auto simp: Let_def split: prod.splits if_splits)

lemma dispatch_event_Leave:
  assumes "dispatch_event strerror l ev = (r, l', out)"
  shows "m_event_fd l' = m_event_fd l" and "r = Leave \<Longrightarrow> source_fd ev = sh_get (m_event_fd l)"
  using assms
  by (auto simp: dispatch_event_def split: if_splits prod.splits data_end.splits
      dest!: handle_accept_event_fd handle_client_data_event_fd event_fd_kept(2))

lemma dispatch_events_Leave:
  "dispatch_events strerror l evs = (Leave, l', out) \<Longrightarrow> \<exists>ev\<in>set evs. source_fd ev = sh_get (m_event_fd l)"
proof (induction evs arbitrary: l l' out)
  case (Cons ev evs)
  obtain r1 l1 out1 where one: "dispatch_event strerror l ev = (r1, l1, out1)"
    by (cases "dispatch_event strerror l ev") auto
  show ?case
    using Cons.prems Cons.IH [of l1] one dispatch_event_Leave [OF one]
    by (auto split: dispatch.splits prod.splits)
qed simp

lemma listener_body_Leave:
  "listener_body strerror l w = (Leave, l', out) \<Longrightarrow>
   (\<exists>err. w = Wait_error err \<and> err \<noteq> EINTR \<and> out = [Message (wait_error_message strerror err)]) \<or>
   (\<exists>evs. w = Events evs \<and> (\<exists>ev\<in>set evs. source_fd ev = sh_get (m_event_fd l)))"
  by (auto simp: listener_body_def split: wait_answer.splits if_splits prod.splits dest: dispatch_events_Leave)

section \<open>Chunks\<close>

text \<open>The chunks that a trace pushes to the raw queue.\<close>

fun chunks_of :: "listener_effect list \<Rightarrow> DataChunk list" where
  "chunks_of [] = []"
| "chunks_of (Enqueue c # es) = c # chunks_of es"
| "chunks_of (_ # es) = chunks_of es"

lemma chunks_of_append [simp]: "chunks_of (es @ es') = chunks_of es @ chunks_of es'"
  by (induction es rule: chunks_of.induct) simp_all

fun small :: "listener_effect \<Rightarrow> bool" where
  "small (Enqueue c) = (length (chunk_data c) \<le> RECV_BUF_SIZE)"
| "small _ = True"

lemma set_nonblocking_small: "list_all small (snd (set_nonblocking strerror fd g s))"
  by (simp add: set_nonblocking_def Let_def)

lemma list_all_small_Close: "list_all small (map Close_fd fds)"
  by (simp add: list_all_iff)

lemma accept_one_small:
  "accept_one strerror l a = (again, l', out) \<Longrightarrow> list_all small out \<and> m_recv_buf l' = m_recv_buf l"
  using set_nonblocking_small [of strerror "fst (a_accept a)" "ac_getfl a" "ac_setfl a"]
  by (auto simp: accept_one_def Let_def sh_ops emplace_client_def split: if_splits option.splits prod.splits)

lemma handle_accept_small:
  "handle_accept strerror l as = (left, l', out) \<Longrightarrow> list_all small out \<and> m_recv_buf l' = m_recv_buf l"
proof (induction strerror l as arbitrary: left l' out rule: handle_accept.induct)
  case (2 strerror l a as)
  obtain again l1 out1 where one: "accept_one strerror l a = (again, l1, out1)" by (cases "accept_one strerror l a") auto
  obtain left' l2 out2 where rest: "handle_accept strerror l1 as = (left', l2, out2)"
    by (cases "handle_accept strerror l1 as") auto
  show ?case
    using 2(1) [OF one [symmetric] refl refl _ rest] 2(2) one rest accept_one_small [OF one]
    by (auto split: if_splits)
qed simp

lemma recv_into_length [simp]: "length (recv_into buf bs) = length buf"
  by (simp add: recv_into_def)

lemma handle_client_data_small:
  "handle_client_data strerror l fd as = (r, l', out) \<Longrightarrow> length (m_recv_buf l) = RECV_BUF_SIZE \<Longrightarrow>
   list_all small out \<and> length (m_recv_buf l') = RECV_BUF_SIZE"
proof (induction strerror l fd as arbitrary: r l' out rule: handle_client_data.induct)
  case (2 strerror l fd a as)
  let ?l = "l\<lparr>m_recv_buf := recv_into (m_recv_buf l) (recv_bytes a)\<rparr>" and ?n = "fst (a_recv a)"
  obtain r1 l1 out1 where rest: "handle_client_data strerror ?l fd as = (r1, l1, out1)"
    by (cases "handle_client_data strerror ?l fd as") auto
  have "list_all small out1 \<and> length (m_recv_buf l1) = RECV_BUF_SIZE"
    if "0 < ?n" "?n \<le> int (length (m_recv_buf ?l))"
    using 2(1) [OF refl refl that(1) refl _ refl rest] that 2(3) by simp
  then show ?case using 2(2,3) rest by (auto simp: Let_def not_less split: if_splits)
qed simp

lemma disconnect_client_small:
  "disconnect_client l fd = (l', out) \<Longrightarrow> list_all small out \<and> m_recv_buf l' = m_recv_buf l"
  by (auto simp: disconnect_client_def list_all_small_Close split: option.splits)

lemma dispatch_event_small:
  assumes "dispatch_event strerror l ev = (r, l', out)" and "length (m_recv_buf l) = RECV_BUF_SIZE"
  shows "list_all small out \<and> length (m_recv_buf l') = RECV_BUF_SIZE"
proof -
  note facts = handle_accept_small disconnect_client_small handle_client_data_small
  show ?thesis
    using assms
    by (auto simp: dispatch_event_def split: prod.splits if_splits data_end.splits dest!: facts)
qed

lemma dispatch_events_small:
  "dispatch_events strerror l evs = (r, l', out) \<Longrightarrow> length (m_recv_buf l) = RECV_BUF_SIZE \<Longrightarrow>
   list_all small out \<and> length (m_recv_buf l') = RECV_BUF_SIZE"
proof (induction evs arbitrary: l r l' out)
  case (Cons ev evs)
  obtain r1 l1 out1 where one: "dispatch_event strerror l ev = (r1, l1, out1)"
    by (cases "dispatch_event strerror l ev") auto
  show ?case
    using Cons.prems(1) one Cons.IH [of l1] dispatch_event_small [OF one Cons.prems(2)]
    by (auto split: dispatch.splits prod.splits)
qed simp

lemma listener_body_small:
  "listener_body strerror l w = (r, l', out) \<Longrightarrow> length (m_recv_buf l) = RECV_BUF_SIZE \<Longrightarrow>
   list_all small out \<and> length (m_recv_buf l') = RECV_BUF_SIZE"
  using dispatch_events_small [of strerror l]
  by (auto simp: listener_body_def split: wait_answer.splits prod.splits if_splits)

lemma listener_loop_small:
  "listener_loop strerror l turns = (r, l', out) \<Longrightarrow> length (m_recv_buf l) = RECV_BUF_SIZE \<Longrightarrow>
   list_all small out"
proof (induction turns arbitrary: l r l' out)
  case (Cons turn turns)
  obtain stop w r1 l1 out1 where turn: "turn = (stop, w)" and b: "listener_body strerror l w = (r1, l1, out1)"
    by (metis prod.exhaust)
  show ?case
    using Cons.prems Cons.IH [of l1] turn b listener_body_small [OF b]
    by (auto split: if_splits dispatch.splits prod.splits)
qed simp

lemma setup_small:
  "setup_server_socket strerror sa l = (e, l', out) \<Longrightarrow> list_all small out \<and> m_recv_buf l' = m_recv_buf l"
  "setup_epoll strerror ea l = (e, l', out) \<Longrightarrow> list_all small out \<and> m_recv_buf l' = m_recv_buf l"
  using set_nonblocking_small [of strerror "fst (a_socket sa)" "a_getfl sa" "a_setfl sa"]
  by (auto simp: setup_server_socket_def setup_epoll_def Let_def sh_ops list_all_small_Close
      split: if_splits option.splits prod.splits)

lemma listener_setup_small:
  "listener_setup strerror sa ea l = (r, l', out) \<Longrightarrow> list_all small out \<and> m_recv_buf l' = m_recv_buf l"
  by (auto simp: listener_setup_def dest!: setup_small split: prod.splits option.splits)

lemma listener_run_small:
  "list_all small (snd (snd (listener_run strerror sa ea turns (NetworkListener_ctor port))))"
proof -
  have "length (m_recv_buf (NetworkListener_ctor port)) = RECV_BUF_SIZE" by (simp add: NetworkListener_ctor_def)
  then show ?thesis
    by (auto simp: listener_run_def dest!: listener_setup_small listener_loop_small
        split: prod.splits option.splits)
qed

text \<open>An answer of \<open>recv\<close> that delivers data, as POSIX promises it.\<close>

definition delivers :: "recv_answer \<Rightarrow> bool" where
  "delivers a \<longleftrightarrow> recv_bytes a \<noteq> [] \<and> fst (a_recv a) = int (length (recv_bytes a)) \<and>
     length (recv_bytes a) \<le> RECV_BUF_SIZE"

lemma take_recv_into:
  "length bs \<le> length buf \<Longrightarrow> take (length bs) (recv_into buf bs) = bs"
  by (simp add: recv_into_def min_def)

lemma relays:
  "list_all delivers as \<Longrightarrow> length (m_recv_buf l) = RECV_BUF_SIZE \<Longrightarrow>
   \<exists>b. handle_client_data strerror l fd (as @ as') =
     (case handle_client_data strerror (l\<lparr>m_recv_buf := b\<rparr>) fd as' of
        (r, l', out) \<Rightarrow> (r, l', map (\<lambda>a. Enqueue \<lparr>client_id = fd, chunk_data = recv_bytes a\<rparr>) as @ out)) \<and>
     length b = RECV_BUF_SIZE"
proof (induction as arbitrary: l)
  case Nil
  then show ?case by (intro exI [of _ "m_recv_buf l"]) (auto split: prod.split)
next
  case (Cons a as)
  let ?b = "recv_into (m_recv_buf l) (recv_bytes a)"
  obtain b where b: "handle_client_data strerror (l\<lparr>m_recv_buf := ?b\<rparr>) fd (as @ as') =
     (case handle_client_data strerror (l\<lparr>m_recv_buf := b\<rparr>) fd as' of
        (r, l', out) \<Rightarrow> (r, l', map (\<lambda>a. Enqueue \<lparr>client_id = fd, chunk_data = recv_bytes a\<rparr>) as @ out))"
     "length b = RECV_BUF_SIZE"
    using Cons.IH [of "l\<lparr>m_recv_buf := ?b\<rparr>"] Cons.prems by auto
  have "take (length (recv_bytes a)) ?b = recv_bytes a" "0 < length (recv_bytes a)"
    "length (recv_bytes a) \<le> length ?b" "fst (a_recv a) = int (length (recv_bytes a))"
    using Cons.prems by (auto simp: delivers_def take_recv_into)
  then have "handle_client_data strerror l fd ((a # as) @ as') =
     (case handle_client_data strerror (l\<lparr>m_recv_buf := b\<rparr>) fd as' of
        (r, l', out) \<Rightarrow> (r, l', map (\<lambda>a. Enqueue \<lparr>client_id = fd, chunk_data = recv_bytes a\<rparr>) (a # as) @ out))"
    using b by (simp add: Let_def split: prod.split)
  then show ?case using b(2) by blast
qed

text \<open>
  Complete turns of the loop that go on: the listener and the effects after them. A run continues from
  there.
\<close>

fun completed :: "(nat \<Rightarrow> string) \<Rightarrow> NetworkListener \<Rightarrow> wait_answer list \<Rightarrow>
    (NetworkListener \<times> listener_effect list) option" where
  "completed strerror l [] = Some (l, [])"
| "completed strerror l (w # ws) =
     (case listener_body strerror l w of
        (Next, l', out) \<Rightarrow> map_option (\<lambda>(l'', out'). (l'', out @ out')) (completed strerror l' ws)
      | _ \<Rightarrow> None)"

lemma completed_loop:
  "completed strerror l ws = Some (l', out) \<Longrightarrow>
   listener_loop strerror l (map (Pair False) ws @ turns) =
     (case listener_loop strerror l' turns of (r, l'', out') \<Rightarrow> (r, l'', out @ out'))"
  by (induction ws arbitrary: l out) (auto split: prod.splits dispatch.splits)

lemma completed_snoc:
  "completed strerror l ws = Some (l', out) \<Longrightarrow> listener_body strerror l' w = (Next, l'', out') \<Longrightarrow>
   completed strerror l (ws @ [w]) = Some (l'', out @ out')"
  by (induction ws arbitrary: l out) (auto split: prod.splits dispatch.splits)

text \<open>A server on descriptors 3 to 5 that accepts one client, reads from it and is told to stop.\<close>

definition kernel_server :: server_answers where
  "kernel_server = \<lparr>a_socket = (3, 0), a_setsockopt = (0, 0), a_getfl = (2, 0), a_setfl = (0, 0),
     a_bind = (0, 0), a_listen = (0, 0)\<rparr>"

definition kernel_epoll :: epoll_answers where
  "kernel_epoll = \<lparr>a_epoll_create1 = (4, 0), a_eventfd = (5, 0), a_add_server = (0, 0), a_add_event = (0, 0)\<rparr>"

definition kernel_accepts :: "accept_answer list" where
  "kernel_accepts =
     [\<lparr>a_accept = (6, 0), ac_getfl = (2, 0), ac_setfl = (0, 0), a_add_client = (0, 0), addr_str = ''127.0.0.1''\<rparr>,
      \<lparr>a_accept = (- 1, EAGAIN), ac_getfl = (0, 0), ac_setfl = (0, 0), a_add_client = (0, 0), addr_str = ''''\<rparr>]"

definition kernel_turns :: "(bool \<times> wait_answer) list" where
  "kernel_turns =
     [(False, Events [\<lparr>source_fd = 3, ev_flags = 1, ev_accepts = kernel_accepts, ev_recvs = []\<rparr>]),
      (False, Wait_error EINTR),
      (False, Events [\<lparr>source_fd = 6, ev_flags = 1, ev_accepts = [],
         ev_recvs = [\<lparr>a_recv = (2, 0), recv_bytes = [0xAA, 0x55]\<rparr>, \<lparr>a_recv = (- 1, EAGAIN), recv_bytes = []\<rparr>]\<rparr>]),
      (False, Events [\<lparr>source_fd = 5, ev_flags = 1, ev_accepts = [], ev_recvs = []\<rparr>])]"

lemmas listener_eval = listener_run_def listener_setup_def setup_server_socket_def setup_epoll_def set_nonblocking_def
  NetworkListener_ctor_def sh_ops accept_one_def emplace_client_def dispatch_event_def listener_body_def Let_def
  kernel_server_def kernel_epoll_def kernel_accepts_def kernel_turns_def
  EINTR_def EAGAIN_def EWOULDBLOCK_def EPOLLIN_def EPOLLERR_def EPOLLHUP_def EPOLLET_def RECV_BUF_SIZE_def O_NONBLOCK_def

lemma recv_two: "recv_into (replicate 4096 0) [a, b] = a # b # replicate 4094 0"
  by (simp add: recv_into_def)

lemma sample_listener:
  "\<exists>l out. listener_run strerror kernel_server kernel_epoll kernel_turns (NetworkListener_ctor 9000) =
     (Listener_returned, l, out) \<and> dom (l_clients l) = {6} \<and>
   audit (\<lambda>_. Free) out = Fine ((\<lambda>_. Free)(4 := Open, 3 := Registered, 5 := Registered, 6 := Registered))"
  by (simp add: listener_eval recv_two MAX_EPOLL_EVENTS_def)

text \<open>The calls of the setup in order, with the message of the exception when they fail.\<close>

definition setup_calls :: "server_answers \<Rightarrow> epoll_answers \<Rightarrow> u16 \<Rightarrow> (answer \<times> string) list" where
  "setup_calls sa ea port =
     [(a_socket sa, ''Failed to create socket''), (a_setsockopt sa, ''setsockopt SO_REUSEADDR failed''),
      (a_getfl sa, ''fcntl F_GETFL failed''), (a_setfl sa, ''fcntl F_SETFL O_NONBLOCK failed''),
      (a_bind sa, bind_failed_message port), (a_listen sa, ''Failed to listen''),
      (a_epoll_create1 ea, ''epoll_create1 failed''), (a_eventfd ea, ''eventfd failed''),
      (a_add_server ea, ''epoll_ctl add server_fd failed''), (a_add_event ea, ''epoll_ctl add event_fd failed'')]"

text \<open>The listener after a setup without failures.\<close>

definition ready_listener :: "server_answers \<Rightarrow> epoll_answers \<Rightarrow> u16 \<Rightarrow> NetworkListener" where
  "ready_listener sa ea port = (NetworkListener_ctor port)
     \<lparr>m_server_fd := \<lparr>m_fd = fst (a_socket sa)\<rparr>, m_epoll_fd := \<lparr>m_fd = fst (a_epoll_create1 ea)\<rparr>,
      m_event_fd := \<lparr>m_fd = fst (a_eventfd ea)\<rparr>\<rparr>"

section \<open>Properties\<close>

text \<open>
  C14: whatever the kernel answers, in the setup and in any number of turns of the event loop, the
  listener is never the first to break the protocol of descriptors: it uses, registers and closes
  only descriptors it holds, closes none twice, registers clients only after they were made
  non-blocking, enqueues data only of registered clients, and after closing a client enqueues the
  empty chunk for it before that descriptor can be handed out again. As long as the kernel keeps to
  the protocol too, the open descriptors are exactly those that the listener's members own.
\<close>

theorem listener_never_to_blame:
  "case audit (\<lambda>_. Free) (snd (snd (listener_run strerror sa ea turns (NetworkListener_ctor port)))) of
     Fine f \<Rightarrow> \<forall>fd. (f fd = Free) =
       (fd \<notin> held (fst (snd (listener_run strerror sa ea turns (NetworkListener_ctor port)))))
   | Kernel_broke \<Rightarrow> True
   | Listener_broke \<Rightarrow> False"
proof -
  obtain r l out where run: "listener_run strerror sa ea turns (NetworkListener_ctor port) = (r, l, out)"
    by (cases "listener_run strerror sa ea turns (NetworkListener_ctor port)") auto
  then show ?thesis using listener_run_good [OF run] by (auto split: verdict.split)
qed

text \<open>
  C30: when the listener is destroyed after any such run in which the kernel kept to the protocol, its
  destructor closes every descriptor that is still open, each once, and no other.
\<close>

theorem listener_releases_descriptors:
  assumes "listener_run strerror sa ea turns (NetworkListener_ctor port) = (r, l, out)"
    and "audit (\<lambda>_. Free) out = Fine f" and "distinct keys" and "set keys = dom (l_clients l)"
  shows "\<exists>fds. listener_destroy keys l = map Close_fd fds \<and> distinct fds \<and>
    (\<forall>fd. (fd \<in> set fds) = (f fd \<noteq> Free))"
  using listener_run_good [OF assms(1)] assms(2) listener_destroy_closes [OF _ assms(3,4)] by auto

theorem listener_releases_descriptors_witness:
  "\<exists>l fds. listener_destroy [6] l = map Close_fd fds \<and> distinct fds \<and>
     (\<forall>fd. (fd \<in> set fds) =
        (((\<lambda>_. Free)(4 := Open, 3 := Registered, 5 := Registered, 6 := Registered)) fd \<noteq> Free))"
proof -
  obtain l out where
    run: "listener_run (\<lambda>_. ''error'') kernel_server kernel_epoll kernel_turns (NetworkListener_ctor 9000) =
      (Listener_returned, l, out)" and clients: "dom (l_clients l) = {6}" and
    fine: "audit (\<lambda>_. Free) out = Fine ((\<lambda>_. Free)(4 := Open, 3 := Registered, 5 := Registered, 6 := Registered))"
    using sample_listener by blast
  have "distinct [6 :: int]" "set [6] = dom (l_clients l)" using clients by simp_all
  then show ?thesis using listener_releases_descriptors [OF run fine] by blast
qed

text \<open>
  C29: a ready client is drained. The data of every \<open>recv\<close> up to the first that delivers none is
  enqueued, one chunk per call, in order and unchanged; the client stays connected exactly when that
  last call would block, and an error is reported.
\<close>

theorem handle_client_data_drains:
  assumes "list_all delivers as" and "length (m_recv_buf l) = RECV_BUF_SIZE" and "fst (a_recv a) \<le> 0"
  shows "\<exists>b. handle_client_data strerror l fd (as @ a # later) =
    (if fst (a_recv a) < 0 \<and> snd (a_recv a) = EAGAIN then Alive else Gone, l\<lparr>m_recv_buf := b\<rparr>,
     map (\<lambda>a. Enqueue \<lparr>client_id = fd, chunk_data = recv_bytes a\<rparr>) as @
     (if fst (a_recv a) < 0 \<and> snd (a_recv a) \<noteq> EAGAIN
      then [Message (recv_error_message strerror fd (snd (a_recv a)))] else []))"
proof -
  obtain b where "handle_client_data strerror l fd (as @ a # later) =
     (case handle_client_data strerror (l\<lparr>m_recv_buf := b\<rparr>) fd (a # later) of
        (r, l', out) \<Rightarrow> (r, l', map (\<lambda>a. Enqueue \<lparr>client_id = fd, chunk_data = recv_bytes a\<rparr>) as @ out))"
    using relays [OF assms(1,2)] by blast
  then show ?thesis using assms(3) by (intro exI [of _ b]) (auto simp: Let_def EWOULDBLOCK_def)
qed

theorem handle_client_data_drains_witness:
  "\<exists>b. handle_client_data (\<lambda>_. ''error'') (NetworkListener_ctor 9000) 6
     ([\<lparr>a_recv = (2, 0), recv_bytes = [0xAA, 0x55]\<rparr>] @ \<lparr>a_recv = (0, 0), recv_bytes = []\<rparr> # []) =
   (Gone, (NetworkListener_ctor 9000)\<lparr>m_recv_buf := b\<rparr>,
    [Enqueue \<lparr>client_id = 6, chunk_data = [0xAA, 0x55]\<rparr>])"
  using handle_client_data_drains [of "[\<lparr>a_recv = (2, 0), recv_bytes = [0xAA, 0x55]\<rparr>]"
      "NetworkListener_ctor 9000" "\<lparr>a_recv = (0, 0), recv_bytes = []\<rparr>" "\<lambda>_. ''error''" 6 "[]"]
  by (simp add: delivers_def NetworkListener_ctor_def RECV_BUF_SIZE_def del: handle_client_data.simps)

text \<open>
  C31: the setup stops at the first call that fails. If a call of the setup returns a negative value,
  the thread function ends with a \<open>std::system_error\<close> that carries the \<open>errno\<close> and the message of the
  first such call; otherwise the event loop runs with the three descriptors it obtained.
\<close>

theorem listener_setup_errors:
  "case find (\<lambda>call. fst (fst call) < 0) (setup_calls sa ea port) of
     Some (a, w) \<Rightarrow> fst (listener_run strerror sa ea turns (NetworkListener_ctor port)) =
       Listener_terminated (system_error (int (snd a)) (w @ '': '' @ strerror (snd a)))
   | None \<Rightarrow> fst (listener_run strerror sa ea turns (NetworkListener_ctor port)) =
       fst (listener_loop strerror (ready_listener sa ea port) turns)"
  by (auto simp: setup_calls_def ready_listener_def listener_run_def listener_setup_def setup_server_socket_def setup_epoll_def set_nonblocking_def
      NetworkListener_ctor_def sys_error_def sh_ops Let_def split: prod.split)

end
