(* ===== verification/Command_Line.thy ===== *)
theory Command_Line
  imports Prelude
begin

text \<open>
  The command line of \<open>src/main.cpp\<close>: the loop over \<open>argv\<close> and what it uses of \<open>std::atoi\<close>. The value of
  a numeral that does not fit an \<open>int\<close> is undefined.
\<close>

section \<open>The loop over the arguments\<close>

definition is_space :: "char \<Rightarrow> bool" where
  "is_space c \<longleftrightarrow> c = CHR '' '' \<or> 9 \<le> (of_char c :: nat) \<and> (of_char c :: nat) \<le> 13"

definition is_digit :: "char \<Rightarrow> bool" where
  "is_digit c \<longleftrightarrow> 48 \<le> (of_char c :: nat) \<and> (of_char c :: nat) \<le> 57"

fun numeral_value :: "nat \<Rightarrow> string \<Rightarrow> nat" where
  "numeral_value acc [] = acc"
| "numeral_value acc (c # cs) =
     (if is_digit c then numeral_value (10 * acc + (of_char c - 48)) cs else acc)"

definition atoi :: "string \<Rightarrow> int res" where
  "atoi s =
     (let s = dropWhile is_space s;
          v = (case s of
                 [] \<Rightarrow> 0
               | c # cs \<Rightarrow>
                   if c = CHR ''-'' then - int (numeral_value 0 cs)
                   else if c = CHR ''+'' then int (numeral_value 0 cs)
                   else int (numeral_value 0 s)) in
      if - (2 ^ 31) \<le> v \<and> v < 2 ^ 31 then Inr v else Inl (Undefined ''atoi out of range''))"

definition log_file_option :: string where
  "log_file_option = ''--log-file''"

fun parse_arguments :: "u16 \<times> string \<Rightarrow> string list \<Rightarrow> (u16 \<times> string) res" where
  "parse_arguments (port, log_file_path) [] = Inr (port, log_file_path)"
| "parse_arguments (port, log_file_path) (argument # rest) =
     (if argument = log_file_option \<and> rest \<noteq> []
      then parse_arguments (port, hd rest) (tl rest)
      else bind_res (atoi argument) (\<lambda>v. parse_arguments (of_int v, log_file_path) rest))"

definition main_options :: "string list \<Rightarrow> (u16 \<times> string) res" where
  "main_options args = parse_arguments (9000, ''log/counter_drone.log'') args"

section \<open>Numerals\<close>

lemma numeral_value_append:
  "list_all is_digit xs \<Longrightarrow> numeral_value acc (xs @ ys) = numeral_value (numeral_value acc xs) ys"
  by (induction xs arbitrary: acc) simp_all

lemma digit_char:
  fixes d :: nat
  assumes "d < 10"
  shows "is_digit (char_of (48 + d))" and "of_char (char_of (48 + d) :: char) - 48 = d"
  using assms by (auto simp: is_digit_def of_char_of)

lemma to_string_value: "list_all is_digit (to_string n) \<and> numeral_value 0 (to_string n) = n"
proof (induction n rule: to_string.induct)
  case (1 n)
  show ?case
  proof (cases "n < 10")
    case True
    then show ?thesis using digit_char [of n] by (subst to_string.simps, subst (2) to_string.simps) simp
  next
    case False
    have s: "to_string n = to_string (n div 10) @ [char_of (48 + n mod 10)]"
      using False by (subst to_string.simps) simp
    show ?thesis
      unfolding s using 1 False digit_char [of "n mod 10"]
      by (simp add: numeral_value_append list_all_append)
  qed
qed

lemma to_string_head: "\<exists>c cs. to_string n = c # cs \<and> is_digit c"
  using to_string_value [of n] by (cases "to_string n") (auto simp: to_string.simps [of n] split: if_splits)

lemma digit_not_special: "is_digit c \<Longrightarrow> \<not> is_space c \<and> c \<noteq> CHR ''-'' \<and> c \<noteq> CHR ''+''"
  by (auto simp: is_digit_def is_space_def)

lemma atoi_to_string: "n < 2 ^ 31 \<Longrightarrow> atoi (to_string n) = Inr (int n)"
proof -
  assume n: "n < 2 ^ 31"
  obtain c cs where s: "to_string n = c # cs" "is_digit c" using to_string_head by blast
  then show ?thesis
    using n to_string_value [of n] digit_not_special [OF s(2)] by (simp add: atoi_def Let_def)
qed

lemma to_string_not_option: "to_string n \<noteq> log_file_option"
  using to_string_head [of n] by (auto simp: log_file_option_def is_digit_def)

section \<open>Properties\<close>

text \<open>
  C38: a decimal numeral below \<open>2 ^ 31\<close> sets the port to its value modulo \<open>2 ^ 16\<close>, and
  \<open>--log-file\<close> followed by a path sets the log file, in either order; without arguments the port is
  9000. A trailing \<open>--log-file\<close> is read as a port, and the port becomes 0.
\<close>

theorem command_line_options:
  assumes "n < 2 ^ 31"
  shows "main_options [to_string n, log_file_option, path] = Inr (of_nat n, path) \<and>
    main_options [log_file_option, path, to_string n] = Inr (of_nat n, path) \<and>
    main_options [] = Inr (9000, ''log/counter_drone.log'') \<and>
    main_options [to_string n, log_file_option] = Inr (0, ''log/counter_drone.log'')"
proof -
  have "atoi log_file_option = Inr 0"
    by (simp add: log_file_option_def atoi_def is_space_def is_digit_def Let_def)
  then show ?thesis using assms by (simp add: main_options_def atoi_to_string to_string_not_option)
qed

theorem command_line_options_witness:
  "main_options [''70000'', ''--log-file'', ''x.log''] = Inr (4464, ''x.log'')"
proof -
  have "to_string 70000 = ''70000''" by (simp add: to_string.simps char_of_def bit_Suc_0_iff)
  then show ?thesis
    using command_line_options [of 70000 "''x.log''"] by (simp add: log_file_option_def)
qed

end
