(* ===== verification/Queue_Refinement.thy ===== *)
theory Queue_Refinement
  imports Thread_Safe_Queue
begin

text \<open>
  Why the program may be read with atomic queue operations. The monitor of \<open>Thread_Safe_Queue\<close> has
  threads that sleep on condition variables and have to be woken; the channel of this theory has none:
  a call takes effect in one step, as soon as its critical section would return. Every run of the
  monitor is a run of the channel, and in the way the program uses its queues (unbounded, with one
  consumer) the monitor can follow every step of the channel, so that nothing sleeps that could go on.
\<close>

section \<open>The channel\<close>

text \<open>The state is that of a monitor in which no thread sleeps.\<close>

inductive channel_step :: "('a op \<Rightarrow> bool) \<Rightarrow> 'a monitor \<Rightarrow> 'a monitor \<Rightarrow> bool" for allowed where
  call: "i < length (threads s) \<Longrightarrow> threads s ! i = Idle \<Longrightarrow> allowed c \<Longrightarrow>
     channel_step allowed s (set_thread i (Ready c) s)"
| push: "i < length (threads s) \<Longrightarrow> threads s ! i = Ready (Push x st) \<Longrightarrow>
     tsq_push (queue s) x (stopped (stops s) st) (stopped (stops s) st) = Some (inserted, q) \<Longrightarrow>
     channel_step allowed s (s\<lparr>queue := q, threads := (threads s)[i := Idle],
       pushed := pushed s @ (if inserted then [x] else [])\<rparr>)"
| pop: "i < length (threads s) \<Longrightarrow> threads s ! i = Ready (Pop st) \<Longrightarrow>
     tsq_pop (queue s) (stopped (stops s) st) = Some (r, q) \<Longrightarrow>
     channel_step allowed s (s\<lparr>queue := q, threads := (threads s)[i := Idle],
       popped := popped s @ (case r of None \<Rightarrow> [] | Some x \<Rightarrow> [x])\<rparr>)"
| stop: "channel_step allowed s (s\<lparr>stops := insert k (stops s)\<rparr>)"

text \<open>The channel that a monitor implements: its sleeping threads count as calling.\<close>

definition awake :: "'a monitor \<Rightarrow> 'a monitor" where
  "awake s = s\<lparr>threads := map wake (threads s)\<rparr>"

section \<open>Every monitor step is a run of the channel\<close>

lemma notify_wakes: "notify_one on_cv ts ts' \<Longrightarrow> map wake ts' = map wake ts"
proof (induction rule: notify_one.induct)
  case (one i ts)
  have "wake (wake (ts ! i)) = wake (ts ! i)" by (cases "ts ! i") simp_all
  then show ?case using one(1) by (simp add: map_update list_update_same_conv)
qed simp

lemma wake_stop_wakes [simp]: "wake (stop_wakes k ts t) = wake t"
  by (cases t) (simp_all add: stop_wakes_def)

lemma awake_set_thread: "awake (set_thread i t s) = set_thread i (wake t) (awake s)"
  by (simp add: awake_def set_thread_def map_update)

lemma awake_request_stop: "awake (request_stop k s) = (awake s)\<lparr>stops := insert k (stops s)\<rparr>"
  by (simp add: awake_def request_stop_def comp_def)

lemma awake_simps [simp]:
  "queue (awake s) = queue s" "stops (awake s) = stops s" "pushed (awake s) = pushed s"
  "popped (awake s) = popped s" "length (threads (awake s)) = length (threads s)"
  "i < length (threads s) \<Longrightarrow> threads (awake s) ! i = wake (threads s ! i)"
  by (simp_all add: awake_def)

lemma awake_updates:
  "awake ((set_thread i Idle s)\<lparr>queue := q\<rparr>) = (awake s)\<lparr>queue := q, threads := (threads (awake s))[i := Idle]\<rparr>"
  "awake (s\<lparr>queue := q, threads := ts, pushed := xs\<rparr>) = (awake s)\<lparr>queue := q, threads := map wake ts, pushed := xs\<rparr>"
  "awake (s\<lparr>queue := q, threads := ts, popped := xs\<rparr>) = (awake s)\<lparr>queue := q, threads := map wake ts, popped := xs\<rparr>"
  by (cases s; simp add: awake_def set_thread_def map_update)+

lemma awake_unchanged:
  "(awake s)\<lparr>queue := q, threads := ts, pushed := pushed s\<rparr> = (awake s)\<lparr>queue := q, threads := ts\<rparr>"
  "(awake s)\<lparr>queue := q, threads := ts, popped := popped s\<rparr> = (awake s)\<lparr>queue := q, threads := ts\<rparr>"
  by (cases s; simp add: awake_def)+

lemma map_wake_awake: "(map wake (threads s))[i := Idle] = (threads (awake s))[i := Idle]"
  by (simp add: awake_def)

lemma set_thread_awake: "i < length (threads s) \<Longrightarrow> wake (threads s ! i) = t \<Longrightarrow> set_thread i t (awake s) = awake s"
  by (auto simp: set_thread_def awake_def list_update_same_conv)

lemma mstep_channel: "mstep allowed s s' \<Longrightarrow> (channel_step allowed)\<^sup>*\<^sup>* (awake s) (awake s')"
proof (induction rule: mstep.induct)
  case (call i s c)
  then show ?case
    using channel_step.call [of i "awake s" allowed c] by (auto simp: awake_set_thread)
next
  case (push_races_stop i s x k q)
  let ?s = "(awake s)\<lparr>stops := insert k (stops s)\<rparr>"
  have "channel_step allowed (awake s) ?s" using channel_step.stop [of allowed "awake s" k] by simp
  moreover have "channel_step allowed ?s (?s\<lparr>queue := q, threads := (threads ?s)[i := Idle], pushed := pushed ?s @ []\<rparr>)"
    using push_races_stop channel_step.push [of i ?s x "Some k" False q allowed] by (simp add: tsq_push_simps split: if_splits)
  moreover have "?s\<lparr>queue := q, threads := (threads ?s)[i := Idle], pushed := pushed ?s @ []\<rparr> =
      awake (request_stop k ((set_thread i Idle s)\<lparr>queue := q\<rparr>))"
    by (simp add: awake_def request_stop_def set_thread_def comp_def map_update)
  ultimately show ?case by (metis rtranclp.rtrancl_into_rtrancl r_into_rtranclp)
next
  case (push_refused i s x st q)
  then show ?case using channel_step.push [of i "awake s" x st False q allowed]
    by (auto simp: awake_updates awake_unchanged)
next
  case (push_done i s x st q ts)
  then show ?case using channel_step.push [of i "awake s" x st True q allowed] notify_wakes [OF push_done(4)]
    by (auto simp: awake_updates map_update map_wake_awake)
next
  case (pop_stopped i s st q)
  then show ?case using channel_step.pop [of i "awake s" st None q allowed]
    by (auto simp: awake_updates awake_unchanged)
next
  case (pop_done i s st x q ts)
  then show ?case using channel_step.pop [of i "awake s" st "Some x" q allowed] notify_wakes [OF pop_done(4)]
    by (auto simp: awake_updates map_update map_wake_awake)
next
  case (stop s k)
  then show ?case using channel_step.stop [of allowed "awake s" k] by (auto simp: awake_request_stop)
qed (simp_all add: awake_set_thread set_thread_awake)

interpretation channel: simulation "mstep allowed" "channel_step allowed" awake for allowed
  by unfold_locales (rule mstep_channel)

section \<open>With one consumer, every channel step is a monitor step\<close>

fun in_pop :: "'a status \<Rightarrow> bool" where
  "in_pop (Ready (Pop st)) = True"
| "in_pop (Waiting (Pop st)) = True"
| "in_pop _ = False"

lemma many_in_pop: "many in_pop ts = many popping ts + many on_not_empty ts"
proof (induction ts)
  case (Cons t ts)
  then show ?case by (cases t rule: in_pop.cases) (simp_all add: many_Cons)
qed (simp add: many_Nil)

text \<open>Nobody sleeps in the \<open>push\<close> of an unbounded queue.\<close>

definition no_push_waits :: "'a monitor \<Rightarrow> bool" where
  "no_push_waits s \<longleftrightarrow> m_max_size (queue s) = 0 \<and> list_all (\<lambda>t. \<not> on_not_full t) (threads s)"

lemma no_push_waits_step: "mstep allowed s s' \<Longrightarrow> no_push_waits s \<Longrightarrow> no_push_waits s'"
proof (induction rule: mstep.induct)
  case (push_done i s x st q ts)
  have "\<not> on_not_full t \<Longrightarrow> \<not> on_not_full (wake t)" for t :: "'a status" by (cases t) auto
  then show ?case using push_done
    by (auto simp: no_push_waits_def tsq_push_cases intro!: notify_preserves [OF push_done(4)] list_all_update)
next
  case (pop_done i s st x q ts)
  have "\<not> on_not_full t \<Longrightarrow> \<not> on_not_full (wake t)" for t :: "'a status" by (cases t) auto
  then show ?case using pop_done
    by (auto simp: no_push_waits_def tsq_pop_cases intro!: notify_preserves [OF pop_done(4)] list_all_update)
next
  case (call i s c)
  then show ?case by (auto simp: no_push_waits_def monitor_simps intro!: list_all_update)
next
  case (stop s k)
  then show ?case by (auto simp: no_push_waits_def monitor_simps list_all_iff dest: stop_wakes_status)
next
  case (push_races_stop i s x k q)
  then show ?case
    by (auto simp: no_push_waits_def monitor_simps tsq_push_cases list_all_iff dest!: stop_wakes_status
        dest: set_update_subset_insert [THEN subsetD])
qed (auto simp: no_push_waits_def monitor_simps tsq_push_cases tsq_pop_cases has_room_def intro!: list_all_update)

lemma reachable_no_push_waits:
  "(mstep allowed)\<^sup>*\<^sup>* (idle_monitor 0 n) s \<Longrightarrow> no_push_waits s"
proof (induction rule: rtranclp_induct)
  case base
  then show ?case by (simp add: no_push_waits_def idle_monitor_def ThreadSafeQueue_ctor_def list_all_length)
qed (rule no_push_waits_step)

lemma notify_exists: "\<exists>ts'. notify_one on_cv ts ts'"
  by (cases "list_all (\<lambda>t. \<not> on_cv t) ts") (blast intro: notify_one.none, auto simp: list_all_length intro: notify_one.one)

lemma wake_Ready: "wake t = Ready c \<longleftrightarrow> t = Ready c \<or> t = Waiting c"
  by (cases t) auto

lemma wake_Idle: "wake t = Idle \<longleftrightarrow> t = Idle"
  by (cases t) auto

text \<open>A consumer without rivals is awake whenever its critical section would return.\<close>

lemma lone_consumer_awake:
  assumes reach: "(mstep allowed)\<^sup>*\<^sup>* (idle_monitor m n) s" and one: "many in_pop (threads s) \<le> 1"
    and i: "i < length (threads s)" and "wake (threads s ! i) = Ready (Pop st)"
    and "tsq_pop (queue s) (stopped (stops s) st) \<noteq> None"
  shows "threads s ! i = Ready (Pop st)"
proof (rule ccontr)
  assume "threads s ! i \<noteq> Ready (Pop st)"
  then have w: "threads s ! i = Waiting (Pop st)" using assms(4) by (simp add: wake_Ready)
  then have "\<not> stopped (stops s) st"
    using reachable_inv [OF reach] i by (auto simp: stop_inv_def list_all_length dest: spec [of _ i])
  then have "m_queue (queue s) \<noteq> []" using assms(5) by (auto simp: tsq_pop_simps)
  moreover have "0 < many on_not_empty (threads s)" using w i by (auto intro: many_pos)
  ultimately have "0 < many popping (threads s)"
    using reachable_inv [OF reach] by (auto simp: pop_wake_inv_def simp flip: length_greater_0_conv)
  then show False using \<open>0 < many on_not_empty (threads s)\<close> one by (simp add: many_in_pop)
qed

lemma channel_mstep:
  assumes step: "channel_step allowed (awake s) a" and reach: "(mstep allowed)\<^sup>*\<^sup>* (idle_monitor 0 n) s"
    and one: "many in_pop (threads s) \<le> 1"
  shows "\<exists>s'. mstep allowed s s' \<and> awake s' = a"
  using step
proof cases
  case (call i c)
  then show ?thesis using mstep.call [of i s allowed c]
    by (intro exI [of _ "set_thread i (Ready c) s"]) (simp add: wake_Idle awake_set_thread)
next
  case (push i x st inserted q)
  have "\<not> on_not_full (threads s ! i)"
    using reachable_no_push_waits [OF reach] push(2) by (simp add: no_push_waits_def list_all_length)
  then have r: "i < length (threads s)" "threads s ! i = Ready (Push x st)"
    using push by (auto simp: wake_Ready)
  obtain ts where ts: "notify_one on_not_empty ((threads s)[i := Idle]) ts" using notify_exists by blast
  show ?thesis
  proof (cases inserted)
    case True
    then show ?thesis using mstep.push_done [OF r _ ts] push(1,4) notify_wakes [OF ts]
      by (intro exI [of _ "s\<lparr>queue := q, threads := ts, pushed := pushed s @ [x]\<rparr>"]) (simp add: awake_updates map_update map_wake_awake)
  next
    case False
    then show ?thesis using mstep.push_refused [OF r] push(1,4)
      by (intro exI [of _ "(set_thread i Idle s)\<lparr>queue := q\<rparr>"]) (simp add: awake_updates awake_unchanged)
  qed
next
  case (pop i st r q)
  then have i: "i < length (threads s)" "threads s ! i = Ready (Pop st)"
    using lone_consumer_awake [OF reach one, of i st] by auto
  obtain ts where ts: "notify_one on_not_full ((threads s)[i := Idle]) ts" using notify_exists by blast
  show ?thesis
  proof (cases r)
    case (Some x)
    then show ?thesis using mstep.pop_done [OF i _ ts] pop(1,4) notify_wakes [OF ts]
      by (intro exI [of _ "s\<lparr>queue := q, threads := ts, popped := popped s @ [x]\<rparr>"]) (simp add: awake_updates map_update map_wake_awake)
  next
    case None
    then show ?thesis using mstep.pop_stopped [OF i] pop(1,4)
      by (intro exI [of _ "(set_thread i Idle s)\<lparr>queue := q\<rparr>"]) (simp add: awake_updates awake_unchanged)
  qed
next
  case (stop k)
  then show ?thesis using mstep.stop [of allowed s k] by (intro exI [of _ "request_stop k s"]) (simp add: awake_request_stop)
qed

section \<open>Property\<close>

text \<open>
  C13: the queues of the program behave like channels with atomic operations. In every reachable state of
  an unbounded queue with at most one thread in \<open>pop\<close>, the monitor has done what the channel can do, what
  it can do next the channel can do, and, the other way round, every call whose critical section would
  return can take effect in one step of the monitor: no thread is asleep that the channel would
  let proceed.
\<close>

theorem queue_calls_are_atomic:
  assumes "(mstep allowed)\<^sup>*\<^sup>* (idle_monitor 0 n) s" and "many in_pop (threads s) \<le> 1"
  shows "(channel_step allowed)\<^sup>*\<^sup>* (idle_monitor 0 n) (awake s) \<and>
    (\<forall>s'. mstep allowed s s' \<longrightarrow> (channel_step allowed)\<^sup>*\<^sup>* (awake s) (awake s')) \<and>
    (\<forall>a. channel_step allowed (awake s) a \<longrightarrow> (\<exists>s'. mstep allowed s s' \<and> awake s' = a))"
proof -
  have "awake (idle_monitor 0 n) = idle_monitor 0 n" by (simp add: awake_def idle_monitor_def)
  then show ?thesis
    using channel.run_simulated [OF assms(1)] channel.step_simulated channel_mstep [OF _ assms] by metis
qed

definition lone_consumer :: "nat act list" where
  "lone_consumer = [Call 0 (Pop (Some 1)), Section 0 0, Call 1 (Push 5 None)]"

definition lone_run :: "nat monitor" where
  "lone_run = \<lparr>queue = \<lparr>m_queue = [], m_max_size = 0\<rparr>,
     threads = [Waiting (Pop (Some 1)), Ready (Push 5 None)], stops = {}, pushed = [], popped = []\<rparr>"

lemma lone_reached: "(mstep (\<lambda>_. True))\<^sup>*\<^sup>* (idle_monitor 0 2) lone_run"
  by (rule schedule_reaches [of _ lone_consumer])
    (simp_all add: lone_consumer_def lone_run_def schedule_eval numeral_2_eq_2 split: act.split)

theorem queue_calls_are_atomic_witness:
  "\<exists>s'. mstep (\<lambda>_. True) lone_run s' \<and> pushed s' = [5] \<and> m_queue (queue s') = [5]"
proof -
  let ?a = "(awake lone_run)\<lparr>queue := \<lparr>m_queue = [5], m_max_size = 0\<rparr>, threads := [Ready (Pop (Some 1)), Idle],
      pushed := [5]\<rparr>"
  have "channel_step (\<lambda>_. True) (awake lone_run) ?a"
    using channel_step.push [of 1 "awake lone_run" 5 None True "\<lparr>m_queue = [5], m_max_size = 0\<rparr>" "\<lambda>_. True"]
    by (simp add: lone_run_def awake_def tsq_push_def)
  moreover have "many in_pop (threads lone_run) \<le> 1" by (simp add: lone_run_def many_def)
  ultimately obtain s' where "mstep (\<lambda>_. True) lone_run s'" "awake s' = ?a"
    using queue_calls_are_atomic [OF lone_reached] by blast
  moreover from this have "queue s' = \<lparr>m_queue = [5], m_max_size = 0\<rparr>" "pushed s' = [5]"
    using awake_simps(1,3) [of s'] by simp_all
  ultimately show ?thesis by auto
qed

end
