(* ===== verification/Pipeline.thy ===== *)
theory Pipeline
  imports Parser_Properties Business_Logic Async_Logger Listener_Protocol Command_Line Queue_Refinement
begin

text \<open>
  The running program of \<open>src/main.cpp\<close>: the listener, the parser, the business logic and the logger as
  threads over the three shared queues, the handler of SIGINT, and the main thread, which waits for
  the signal and then stops and joins the threads in order. A thread's private computation is that of
  its own theory; a step of the program is one operation on shared state by one thread, and the
  threads interleave in any way.
\<close>

section \<open>State\<close>

text \<open>
  Where each thread is. The listener is at one of these points when all effects of its previous
  computation (\<open>listener_todo\<close>) have been performed. It is at \<open>L_batch\<close> in the middle of a batch of
  events: the descriptors and flags of the events that are not done, the first of them in its accept or
  receive loop. A crashed thread has let an exception escape, which ends the process by
  \<open>std::terminate\<close>.
\<close>

datatype listener_pc = L_start | L_register | L_check | L_wait | L_batch "(int \<times> u32) list"
  | L_return | L_done | L_crashed

datatype parser_pc = P_start | P_check | P_pop | P_emit "effect list" | P_exit | P_done | P_crashed

datatype business_pc = B_start | B_check | B_pop | B_emit "string list" | B_exit | B_done

datatype logger_pc = G_check | G_pop | G_drain | G_done

datatype main_pc = M_wait | M_stop_listener | M_wake | M_join_listener | M_join_parser | M_join_business
  | M_goodbye | M_join_logger | M_done

datatype thread = Listener | Parser | Business

text \<open>
  \<open>event_count\<close> is the kernel's counter of the eventfd, \<open>waker_registered\<close> says whether the listener's
  \<open>stop_callback\<close> is registered with its stop state. The last group of fields records history: the
  effects the listener and the parser have performed, the chunks and packets that the consumers took,
  and the messages (with the thread they come from) pushed to the log queue and written from it.
\<close>

record server =
  raw_queue :: "DataChunk ThreadSafeQueue"
  parsed_queue :: "Telemetry ThreadSafeQueue"
  log_queue :: "string ThreadSafeQueue"
  the_listener :: NetworkListener
  listener_at :: listener_pc
  listener_todo :: "listener_effect list"
  event_count :: nat
  waker_registered :: bool
  the_parser :: StreamingParser
  parser_at :: parser_pc
  the_business :: BusinessLogic
  business_at :: business_pc
  the_logger :: AsyncLogger
  logger_at :: logger_pc
  main_at :: main_pc
  main_said :: "string list"
  g_shutdown_requested :: bool
  listener_stop :: bool
  parser_stop :: bool
  business_stop :: bool
  logger_stop :: bool
  heard :: "listener_effect list"
  performed :: "effect list"
  chunks_out :: "DataChunk list"
  packets_out :: "Telemetry list"
  logged :: "(thread \<times> string) list"
  written :: "string list"

definition start_server :: "u16 \<Rightarrow> AsyncLogger \<Rightarrow> string list \<Rightarrow> server" where
  "start_server port lg greeting =
     \<lparr>raw_queue = ThreadSafeQueue_ctor 0, parsed_queue = ThreadSafeQueue_ctor 0,
      log_queue = ThreadSafeQueue_ctor 0,
      the_listener = NetworkListener_ctor port, listener_at = L_start, listener_todo = [],
      event_count = 0, waker_registered = False,
      the_parser = initial_parser, parser_at = P_start,
      the_business = BusinessLogic_ctor, business_at = B_start,
      the_logger = lg, logger_at = G_check, main_at = M_wait, main_said = greeting,
      g_shutdown_requested = False, listener_stop = False, parser_stop = False, business_stop = False,
      logger_stop = False,
      heard = [], performed = [], chunks_out = [], packets_out = [], logged = [], written = []\<rparr>"

text \<open>
  The start of \<open>main\<close>: the options, the banner, the log file, and then the threads. \<open>atoi\<close> or the
  constructor of the logger may end the program before any thread was started.
\<close>

definition main_banner :: "u16 \<Rightarrow> string \<Rightarrow> string" where
  "main_banner port log_file_path =
     ''=== Counter-Drone Communication Layer ==='' @ newline @
     ''Starting on port '' @ to_string (unat port) @ ''  (logging to '' @ log_file_path @ '')'' @
     ''  (Ctrl+C to stop)'' @ newline @ newline"

definition main_start ::
  "(string \<Rightarrow> cpp_error option) \<Rightarrow> (string \<Rightarrow> nat + string) \<Rightarrow> (nat \<Rightarrow> string) \<Rightarrow> string list \<Rightarrow> server res" where
  "main_start create_parents open_append strerror args =
     bind_res (main_options args) (\<lambda>(port, log_file_path).
     bind_res (AsyncLogger_file_ctor create_parents open_append strerror log_file_path) (\<lambda>async_logger.
     Inr (start_server port async_logger [main_banner port log_file_path])))"

section \<open>Steps\<close>

text \<open>Pushes to the three queues, which are unbounded and whose callers pass no stop token.\<close>

definition push_raw :: "DataChunk \<Rightarrow> server \<Rightarrow> server option" where
  "push_raw c s = map_option (\<lambda>q. s\<lparr>raw_queue := q\<rparr>) (tsq_send (raw_queue s) c)"

definition push_parsed :: "Telemetry \<Rightarrow> server \<Rightarrow> server option" where
  "push_parsed t s = map_option (\<lambda>q. s\<lparr>parsed_queue := q\<rparr>) (tsq_send (parsed_queue s) t)"

definition push_log :: "thread \<Rightarrow> string \<Rightarrow> server \<Rightarrow> server option" where
  "push_log src m s =
     map_option (\<lambda>q. s\<lparr>log_queue := q, logged := logged s @ [(src, m)]\<rparr>) (tsq_send (log_queue s) m)"

text \<open>
  The callback that the listener registers writes 1 to the eventfd; reading the eventfd resets its
  counter. The other effects of the listener concern only descriptors of its own.
\<close>

definition shutdown_waker :: "server \<Rightarrow> server" where
  "shutdown_waker s = s\<lparr>event_count := event_count s + 1\<rparr>"

definition listener_perform :: "listener_effect \<Rightarrow> server \<Rightarrow> server option" where
  "listener_perform e s =
     (case e of
        Enqueue c \<Rightarrow> push_raw c s
      | Message m \<Rightarrow> push_log Listener m s
      | Drain_event fd \<Rightarrow> Some (s\<lparr>event_count := 0\<rparr>)
      | _ \<Rightarrow> Some s)"

text \<open>
  What \<open>epoll_wait\<close> may answer: an error, or between 1 and 64 events (the timeout is infinite), and an
  event of the eventfd only while its counter is positive.
\<close>

definition epoll_allows :: "server \<Rightarrow> wait_answer \<Rightarrow> bool" where
  "epoll_allows s w =
     (case w of
        Wait_error err \<Rightarrow> True
      | Events evs \<Rightarrow> evs \<noteq> [] \<and> length evs \<le> MAX_EPOLL_EVENTS \<and>
          list_all (\<lambda>ev. source_fd ev = sh_get (m_event_fd (the_listener s)) \<longrightarrow> 0 < event_count s) evs)"

text \<open>
  The accept loop and the receive loop go on as long as the kernel has another connection or more
  bytes, so a batch is handled in as many steps as it takes: what is left of it when the answers so far
  leave an event in its loop, and where the listener goes from the events that it has dispatched.
\<close>

definition event_key :: "event \<Rightarrow> int \<times> u32" where
  "event_key ev = (source_fd ev, ev_flags ev)"

fun unfinished :: "(nat \<Rightarrow> string) \<Rightarrow> NetworkListener \<Rightarrow> event list \<Rightarrow> (int \<times> u32) list" where
  "unfinished strerror l [] = []"
| "unfinished strerror l (ev # evs) =
     (case dispatch_event strerror l ev of
        (Next, l', out) \<Rightarrow> unfinished strerror l' evs
      | _ \<Rightarrow> map event_key (ev # evs))"

definition events_of :: "wait_answer \<Rightarrow> event list" where
  "events_of w = (case w of Wait_error err \<Rightarrow> [] | Events evs \<Rightarrow> evs)"

definition after_dispatch :: "dispatch \<Rightarrow> (int \<times> u32) list \<Rightarrow> listener_pc" where
  "after_dispatch r left =
     (case r of Next \<Rightarrow> L_check | Busy \<Rightarrow> L_batch left | Leave \<Rightarrow> L_return | Raise e \<Rightarrow> L_crashed)"

text \<open>
  One step of the listener's thread, with the kernel's answers where it asks for them. The
  constructor of \<open>stop_callback\<close> registers the callback or, when the stop was requested before, calls
  it; its destructor deregisters it. In the middle of a batch the kernel answers further calls of the
  running loop (at least one), and of the events after it when the loop ends.
\<close>

record kernel =
  for_server :: server_answers
  for_epoll :: epoll_answers
  for_wait :: wait_answer
  for_batch :: "event list"

definition listener_turn :: "(nat \<Rightarrow> string) \<Rightarrow> kernel \<Rightarrow> server \<Rightarrow> server option" where
  "listener_turn strerror k s =
     (case listener_todo s of
        e # todo \<Rightarrow> listener_perform e (s\<lparr>listener_todo := todo, heard := heard s @ [e]\<rparr>)
      | [] \<Rightarrow>
         (case listener_at s of
            L_start \<Rightarrow>
              (case listener_setup strerror (for_server k) (for_epoll k) (the_listener s) of
                 (r, l, out) \<Rightarrow> Some (s\<lparr>the_listener := l, listener_todo := out,
                   listener_at := if r = None then L_register else L_crashed\<rparr>))
          | L_register \<Rightarrow>
              Some (if listener_stop s then shutdown_waker (s\<lparr>listener_at := L_check\<rparr>)
                    else s\<lparr>listener_at := L_check, waker_registered := True\<rparr>)
          | L_check \<Rightarrow> Some (s\<lparr>listener_at := if listener_stop s then L_return else L_wait\<rparr>)
          | L_wait \<Rightarrow>
              if epoll_allows s (for_wait k) then
                (case listener_body strerror (the_listener s) (for_wait k) of
                   (r, l, out) \<Rightarrow> Some (s\<lparr>the_listener := l, listener_todo := out, listener_at :=
                      after_dispatch r (unfinished strerror (the_listener s) (events_of (for_wait k)))\<rparr>))
              else None
          | L_batch left \<Rightarrow>
              if map event_key (for_batch k) = left then
                (case dispatch_events strerror (the_listener s) (for_batch k) of
                   (r, l, out) \<Rightarrow>
                     if r = Busy \<and> out = [] then None
                     else Some (s\<lparr>the_listener := l, listener_todo := out, listener_at :=
                       after_dispatch r (unfinished strerror (the_listener s) (for_batch k))\<rparr>))
              else None
          | L_return \<Rightarrow> Some (s\<lparr>listener_at := L_done, waker_registered := False\<rparr>)
          | L_done \<Rightarrow> None
          | L_crashed \<Rightarrow> None))"

definition parser_hello :: string where
  "parser_hello = ''[StreamingParser] Running'' @ newline"

definition business_hello :: string where
  "business_hello = ''[BusinessLogic] Running'' @ newline"

definition parser_goodbye :: "u64 \<Rightarrow> string" where
  "parser_goodbye failures =
     ''[StreamingParser] Shutting down (CRC failures: '' @ to_string (unat failures) @ '')'' @ newline"

definition parser_turn :: "endian \<Rightarrow> server \<Rightarrow> server option" where
  "parser_turn native s =
     (case parser_at s of
        P_start \<Rightarrow> push_log Parser parser_hello (s\<lparr>parser_at := P_check\<rparr>)
      | P_check \<Rightarrow> Some (s\<lparr>parser_at := if parser_stop s then P_exit else P_pop\<rparr>)
      | P_pop \<Rightarrow>
          (case tsq_pop (raw_queue s) (parser_stop s) of
             None \<Rightarrow> None
           | Some (None, q) \<Rightarrow> Some (s\<lparr>raw_queue := q, parser_at := P_exit\<rparr>)
           | Some (Some c, q) \<Rightarrow>
               (case handle_chunk native (the_parser s) c of
                  (e, p, out) \<Rightarrow>
                    Some (s\<lparr>raw_queue := q, the_parser := p, chunks_out := chunks_out s @ [c],
                      parser_at := if e = None then P_emit out else P_crashed\<rparr>)))
      | P_emit [] \<Rightarrow> Some (s\<lparr>parser_at := P_check\<rparr>)
      | P_emit (e # es) \<Rightarrow>
          let s = s\<lparr>parser_at := P_emit es, performed := performed s @ [e]\<rparr> in
          (case e of Parsed t \<Rightarrow> push_parsed t s | Log m \<Rightarrow> push_log Parser m s)
      | P_exit \<Rightarrow>
          push_log Parser (parser_goodbye (m_crc_failures (the_parser s))) (s\<lparr>parser_at := P_done\<rparr>)
      | P_done \<Rightarrow> None
      | P_crashed \<Rightarrow> None)"

text \<open>\<open>now\<close> is what \<open>Clock::now()\<close> returns in this step, where the code reads the clock.\<close>

definition business_turn :: "int \<Rightarrow> server \<Rightarrow> server option" where
  "business_turn now s =
     (case business_at s of
        B_start \<Rightarrow>
          push_log Business business_hello
            (s\<lparr>business_at := B_check,
               the_business := (the_business s)\<lparr>m_start_time := now, m_last_report_time := now\<rparr>\<rparr>)
      | B_check \<Rightarrow> Some (s\<lparr>business_at := if business_stop s then B_exit else B_pop\<rparr>)
      | B_pop \<Rightarrow>
          (case tsq_pop (parsed_queue s) (business_stop s) of
             None \<Rightarrow> None
           | Some (None, q) \<Rightarrow> Some (s\<lparr>parsed_queue := q, business_at := B_exit\<rparr>)
           | Some (Some t, q) \<Rightarrow>
               (case handle_telemetry (the_business s) t now of
                  (b, out) \<Rightarrow> Some (s\<lparr>parsed_queue := q, the_business := b,
                    packets_out := packets_out s @ [t], business_at := B_emit out\<rparr>)))
      | B_emit [] \<Rightarrow> Some (s\<lparr>business_at := B_check\<rparr>)
      | B_emit (m # ms) \<Rightarrow> push_log Business m (s\<lparr>business_at := B_emit ms\<rparr>)
      | B_exit \<Rightarrow> push_log Business (summary_message (the_business s) now) (s\<lparr>business_at := B_done\<rparr>)
      | B_done \<Rightarrow> None)"

definition logger_turn :: "server \<Rightarrow> server option" where
  "logger_turn s =
     (let write = (\<lambda>m q pc. Some (s\<lparr>log_queue := q, the_logger := write_message (the_logger s) m,
            written := written s @ [m], logger_at := pc\<rparr>)) in
      case logger_at s of
        G_check \<Rightarrow> Some (s\<lparr>logger_at := if logger_stop s then G_drain else G_pop\<rparr>)
      | G_pop \<Rightarrow>
          (case tsq_pop (log_queue s) (logger_stop s) of
             None \<Rightarrow> None
           | Some (None, q) \<Rightarrow> Some (s\<lparr>log_queue := q, logger_at := G_drain\<rparr>)
           | Some (Some m, q) \<Rightarrow> write m q G_check)
      | G_drain \<Rightarrow>
          (case tsq_pop (log_queue s) True of
             None \<Rightarrow> None
           | Some (None, q) \<Rightarrow> Some (s\<lparr>log_queue := q, logger_at := G_done\<rparr>)
           | Some (Some m, q) \<Rightarrow> write m q G_drain)
      | G_done \<Rightarrow> None)"

text \<open>
  The main thread: it polls the flag that the handler of SIGINT sets (a poll that finds it unset changes
  nothing), then requests the stop of the listener, which first sets the stop state and then calls the
  callback if one is registered. Each join is followed by the stop request for the next thread. The
  logger is joined last, by the destructor of its \<open>jthread\<close>, after the farewell. Main prints to stdout
  itself.
\<close>

definition signal_handler :: "server \<Rightarrow> server" where
  "signal_handler s = s\<lparr>g_shutdown_requested := True\<rparr>"

definition sigint_message :: string where
  "sigint_message = newline @ ''[Main] SIGINT received '' @ em_dash @
     '' initiating graceful shutdown...'' @ newline"

definition goodbye_message :: string where
  "goodbye_message = ''[Main] All threads joined. Goodbye.'' @ newline"

definition main_turn :: "server \<Rightarrow> server option" where
  "main_turn s =
     (case main_at s of
        M_wait \<Rightarrow>
          if g_shutdown_requested s
          then Some (s\<lparr>main_at := M_stop_listener, main_said := main_said s @ [sigint_message]\<rparr>) else None
      | M_stop_listener \<Rightarrow> Some (s\<lparr>main_at := M_wake, listener_stop := True\<rparr>)
      | M_wake \<Rightarrow>
          Some ((if waker_registered s then shutdown_waker s else s)\<lparr>main_at := M_join_listener\<rparr>)
      | M_join_listener \<Rightarrow>
          if listener_at s = L_done then Some (s\<lparr>main_at := M_join_parser, parser_stop := True\<rparr>) else None
      | M_join_parser \<Rightarrow>
          if parser_at s = P_done then Some (s\<lparr>main_at := M_join_business, business_stop := True\<rparr>) else None
      | M_join_business \<Rightarrow>
          if business_at s = B_done then Some (s\<lparr>main_at := M_goodbye, logger_stop := True\<rparr>) else None
      | M_goodbye \<Rightarrow> Some (s\<lparr>main_at := M_join_logger, main_said := main_said s @ [goodbye_message]\<rparr>)
      | M_join_logger \<Rightarrow> if logger_at s = G_done then Some (s\<lparr>main_at := M_done\<rparr>) else None
      | M_done \<Rightarrow> None)"

text \<open>
  An exception that escapes a thread ends the process once the effects before it are performed: no
  thread takes another step.
\<close>

definition terminated :: "server \<Rightarrow> bool" where
  "terminated s \<longleftrightarrow> listener_at s = L_crashed \<and> listener_todo s = [] \<or> parser_at s = P_crashed"

text \<open>A signal that finds the flag set changes nothing and is not a step.\<close>

inductive server_step :: "endian \<Rightarrow> (nat \<Rightarrow> string) \<Rightarrow> server \<Rightarrow> server \<Rightarrow> bool" for native strerror where
  listener: "listener_turn strerror k s = Some s' \<Longrightarrow> \<not> terminated s \<Longrightarrow> server_step native strerror s s'"
| parser: "parser_turn native s = Some s' \<Longrightarrow> \<not> terminated s \<Longrightarrow> server_step native strerror s s'"
| business: "business_turn now s = Some s' \<Longrightarrow> \<not> terminated s \<Longrightarrow> server_step native strerror s s'"
| logger: "logger_turn s = Some s' \<Longrightarrow> \<not> terminated s \<Longrightarrow> server_step native strerror s s'"
| main: "main_turn s = Some s' \<Longrightarrow> \<not> terminated s \<Longrightarrow> server_step native strerror s s'"
| sigint: "\<not> g_shutdown_requested s \<Longrightarrow> \<not> terminated s \<Longrightarrow> server_step native strerror s (signal_handler s)"

end
