(* ===== verification/Pipeline_Invariants.thy ===== *)
theory Pipeline_Invariants
  imports Pipeline
begin

text \<open>
  Invariants of the running program: what the queues hold, how each thread's state follows from what
  it took, in which order the threads are stopped, that a stop request reaches the listener, and what
  each thread has said.
\<close>

section \<open>Projections of effects\<close>

fun packets_of :: "effect list \<Rightarrow> Telemetry list" where
  "packets_of [] = []"
| "packets_of (Parsed t # es) = t # packets_of es"
| "packets_of (Log m # es) = packets_of es"

fun logs_of :: "effect list \<Rightarrow> string list" where
  "logs_of [] = []"
| "logs_of (Log m # es) = m # logs_of es"
| "logs_of (Parsed t # es) = logs_of es"

fun messages_of :: "listener_effect list \<Rightarrow> string list" where
  "messages_of [] = []"
| "messages_of (Message m # es) = m # messages_of es"
| "messages_of (_ # es) = messages_of es"

lemma packets_of_append [simp]: "packets_of (es @ es') = packets_of es @ packets_of es'"
  by (induction es rule: packets_of.induct) simp_all

lemma logs_of_append [simp]: "logs_of (es @ es') = logs_of es @ logs_of es'"
  by (induction es rule: logs_of.induct) simp_all

lemma messages_of_append [simp]: "messages_of (es @ es') = messages_of es @ messages_of es'"
  by (induction es rule: messages_of.induct) simp_all

lemma small_chunks_fit: "list_all small es \<Longrightarrow> list_all chunk_fits (chunks_of es)"
  by (induction es rule: chunks_of.induct)
    (simp_all add: chunk_fits_def RECV_BUF_SIZE_def DEFAULT_CAPACITY_def)

fun event_after :: "listener_effect \<Rightarrow> nat \<Rightarrow> nat" where
  "event_after (Drain_event fd) n = 0"
| "event_after _ n = n"

lemma event_after_le: "event_after e n \<le> n"
  by (cases e) simp_all

text \<open>What each thread said, in its own order.\<close>

definition said :: "thread \<Rightarrow> server \<Rightarrow> string list" where
  "said src s = map snd (filter (\<lambda>x. fst x = src) (logged s))"

section \<open>A batch in several steps\<close>

text \<open>
  A loop that the answers so far have left running goes on with further answers as it would have with
  all of them at once.
\<close>

lemma after_dispatch_simps [simp]:
  "after_dispatch Next left = L_check" "after_dispatch Busy left = L_batch left"
  "after_dispatch Leave left = L_return" "after_dispatch (Raise e) left = L_crashed"
  "after_dispatch r left \<notin> {L_start, L_register, L_wait, L_done}"
  by (simp_all add: after_dispatch_def split: dispatch.split)

lemma after_dispatch_iff:
  "after_dispatch r left = L_check \<longleftrightarrow> r = Next" "after_dispatch r left = L_return \<longleftrightarrow> r = Leave"
  "after_dispatch r left = L_batch ks \<longleftrightarrow> r = Busy \<and> ks = left" "after_dispatch r left = L_crashed \<longleftrightarrow> (\<exists>e. r = Raise e)"
  by (auto simp: after_dispatch_def split: dispatch.splits)

lemma handle_accept_resume:
  "handle_accept strerror l as = (False, l1, out) \<Longrightarrow>
   m_event_fd l1 = m_event_fd l \<and> m_server_fd l1 = m_server_fd l \<and>
   handle_accept strerror l (as @ bs) = (case handle_accept strerror l1 bs of (left, l2, out') \<Rightarrow> (left, l2, out @ out'))"
proof (induction as arbitrary: l out)
  case (Cons a as)
  have "m_event_fd l' = m_event_fd l \<and> m_server_fd l' = m_server_fd l"
    if "accept_one strerror l a = (again, l', o1)" for again l' o1
    using that by (auto simp: accept_one_def emplace_client_def Let_def split: if_splits option.splits prod.splits)
  then show ?case using Cons by (auto simp: Let_def split: prod.splits if_splits)
qed simp

lemma handle_client_data_resume:
  "handle_client_data strerror l fd as = (Still_reading, l1, out) \<Longrightarrow>
   m_event_fd l1 = m_event_fd l \<and> m_server_fd l1 = m_server_fd l \<and>
   handle_client_data strerror l fd (as @ bs) =
     (case handle_client_data strerror l1 fd bs of (r, l2, out') \<Rightarrow> (r, l2, out @ out'))"
  by (induction as arbitrary: l out) (auto simp: Let_def split: prod.splits if_splits)

definition joined :: "event \<Rightarrow> event \<Rightarrow> event" where
  "joined ev ev' = ev\<lparr>ev_accepts := ev_accepts ev @ ev_accepts ev', ev_recvs := ev_recvs ev @ ev_recvs ev'\<rparr>"

lemma dispatch_event_resume:
  assumes "dispatch_event strerror l ev = (Busy, l1, out)" and "event_key ev' = event_key ev"
  shows "dispatch_event strerror l (joined ev ev') =
    (case dispatch_event strerror l1 ev' of (r, l2, out') \<Rightarrow> (r, l2, out @ out'))"
proof (cases "source_fd ev = sh_get (m_server_fd l)")
  case True
  then show ?thesis
    using assms handle_accept_resume [of strerror l "ev_accepts ev" l1 out "ev_accepts ev'"]
    by (auto simp: dispatch_event_def joined_def event_key_def split: if_splits prod.splits)
next
  case False
  then have "handle_client_data strerror l (source_fd ev) (ev_recvs ev) = (Still_reading, l1, out)"
    using assms(1) by (auto simp: dispatch_event_def split: if_splits prod.splits data_end.splits)
  then show ?thesis
    using assms False handle_client_data_resume [of strerror l "source_fd ev" "ev_recvs ev" l1 out "ev_recvs ev'"]
    by (auto simp: dispatch_event_def joined_def event_key_def split: if_splits prod.splits data_end.splits)
qed

lemma event_key_joined [simp]: "event_key (joined ev ev') = event_key ev"
  by (simp add: event_key_def joined_def)

lemma dispatch_events_resume:
  assumes "dispatch_events strerror l evs = (Busy, l1, out)" and "map event_key evs' = unfinished strerror l evs"
    and "dispatch_events strerror l1 evs' = (r, l2, out')"
  shows "\<exists>evs2. map event_key evs2 = map event_key evs \<and> dispatch_events strerror l evs2 = (r, l2, out @ out') \<and>
    (r = Busy \<longrightarrow> unfinished strerror l evs2 = unfinished strerror l1 evs')"
  using assms(1,2)
proof (induction evs arbitrary: l out)
  case (Cons ev evs)
  obtain r0 l0 out0 where one: "dispatch_event strerror l ev = (r0, l0, out0)" by (metis surj_pair)
  show ?case
  proof (cases "r0 = Next")
    case True
    obtain out1 where "dispatch_events strerror l0 evs = (Busy, l1, out1)" "out = out0 @ out1"
      using Cons.prems(1) one True by (auto split: prod.splits)
    moreover from this obtain evs2 where "map event_key evs2 = map event_key evs"
      "dispatch_events strerror l0 evs2 = (r, l2, out1 @ out')"
      "r = Busy \<longrightarrow> unfinished strerror l0 evs2 = unfinished strerror l1 evs'"
      using Cons.IH [of l0 out1] Cons.prems(2) one True by auto
    ultimately show ?thesis using one True by (intro exI [of _ "ev # evs2"]) simp
  next
    case False
    then have busy: "r0 = Busy" "l0 = l1" "out0 = out" and "map event_key evs' = map event_key (ev # evs)"
      using Cons.prems one by (auto split: dispatch.splits)
    then obtain ev' rest where evs': "evs' = ev' # rest" "event_key ev' = event_key ev"
        "map event_key rest = map event_key evs"
      by (auto simp: map_eq_Cons_conv)
    then show ?thesis
      using dispatch_event_resume [of strerror l ev l1 out ev'] one busy assms(3)
      by (intro exI [of _ "joined ev ev' # rest"])
        (auto split: prod.splits dispatch.splits)
  qed
qed simp

lemma listener_body_resume:
  assumes "listener_body strerror l (Events evs) = (Busy, l1, out)" and "map event_key evs' = unfinished strerror l evs"
    and "dispatch_events strerror l1 evs' = (r, l2, out')"
  shows "\<exists>evs2. listener_body strerror l (Events evs2) = (r, l2, out @ out') \<and>
    (r = Busy \<longrightarrow> unfinished strerror l evs2 = unfinished strerror l1 evs')"
proof -
  obtain out1 where out1: "dispatch_events strerror l evs = (Busy, l1, out1)" "out = Polled (map source_fd evs) # out1"
    using assms(1) by (auto simp: listener_body_def split: prod.splits)
  obtain evs2 where evs2: "map event_key evs2 = map event_key evs"
      "dispatch_events strerror l evs2 = (r, l2, out1 @ out')"
      "r = Busy \<longrightarrow> unfinished strerror l evs2 = unfinished strerror l1 evs'"
    using dispatch_events_resume [OF out1(1) assms(2,3)] by blast
  have "source_fd = fst \<circ> event_key" by (simp add: fun_eq_iff event_key_def)
  then have "map source_fd evs2 = map source_fd evs" using evs2(1) by (metis map_map)
  then show ?thesis using evs2 out1(2) by (intro exI [of _ evs2]) (simp add: listener_body_def)
qed

section \<open>What the turns change\<close>

lemma tsq_send_unbounded:
  "m_max_size q = 0 \<Longrightarrow> tsq_send q x = Some (q\<lparr>m_queue := m_queue q @ [x]\<rparr>)"
  by (simp add: tsq_send_def tsq_push_simps has_room_def)

lemmas pushes = push_raw_def push_parsed_def push_log_def tsq_send_unbounded

text \<open>Equal in everything that the listener's turns do not touch, and in what the others do not touch.\<close>

definition same_workers :: "server \<Rightarrow> server \<Rightarrow> bool" where
  "same_workers s s' \<longleftrightarrow>
     parsed_queue s' = parsed_queue s \<and> the_parser s' = the_parser s \<and> parser_at s' = parser_at s \<and>
     the_business s' = the_business s \<and> business_at s' = business_at s \<and>
     the_logger s' = the_logger s \<and> logger_at s' = logger_at s \<and> performed s' = performed s \<and>
     chunks_out s' = chunks_out s \<and> packets_out s' = packets_out s \<and> written s' = written s"

definition same_listener :: "server \<Rightarrow> server \<Rightarrow> bool" where
  "same_listener s s' \<longleftrightarrow>
     the_listener s' = the_listener s \<and> listener_at s' = listener_at s \<and> listener_todo s' = listener_todo s \<and>
     heard s' = heard s \<and> waker_registered s' = waker_registered s"

definition same_stops :: "server \<Rightarrow> server \<Rightarrow> bool" where
  "same_stops s s' \<longleftrightarrow>
     main_at s' = main_at s \<and> main_said s' = main_said s \<and> g_shutdown_requested s' = g_shutdown_requested s \<and>
     listener_stop s' = listener_stop s \<and> parser_stop s' = parser_stop s \<and>
     business_stop s' = business_stop s \<and> logger_stop s' = logger_stop s"

lemmas frames = same_workers_def same_listener_def same_stops_def

text \<open>A turn of the listener performs an effect or, with none left, goes on by itself.\<close>

lemma tsq_send_eq: "tsq_send q x = Some q' \<Longrightarrow> q' = q\<lparr>m_queue := m_queue q @ [x]\<rparr>"
  by (auto simp: tsq_send_def tsq_push_simps split: if_splits)

lemma listener_perform_eq:
  "listener_perform e s = Some s' \<Longrightarrow>
   s' = s\<lparr>raw_queue := (raw_queue s)\<lparr>m_queue := m_queue (raw_queue s) @ chunks_of [e]\<rparr>,
     log_queue := (log_queue s)\<lparr>m_queue := m_queue (log_queue s) @ messages_of [e]\<rparr>,
     logged := logged s @ map (Pair Listener) (messages_of [e]),
     event_count := event_after e (event_count s)\<rparr>"
  by (cases e) (auto simp: listener_perform_def push_raw_def push_log_def dest: tsq_send_eq)

lemma listener_perform_turn:
  assumes "listener_todo s = e # todo" and "listener_turn strerror k s = Some s'"
  shows "s' = s\<lparr>listener_todo := todo, heard := heard s @ [e],
     raw_queue := (raw_queue s)\<lparr>m_queue := m_queue (raw_queue s) @ chunks_of [e]\<rparr>,
     log_queue := (log_queue s)\<lparr>m_queue := m_queue (log_queue s) @ messages_of [e]\<rparr>,
     logged := logged s @ map (Pair Listener) (messages_of [e]),
     event_count := event_after e (event_count s)\<rparr>"
  using assms listener_perform_eq [of e "s\<lparr>listener_todo := todo, heard := heard s @ [e]\<rparr>" s']
  by (simp add: listener_turn_def)

lemma listener_act_frame:
  assumes "listener_todo s = []" and "listener_turn strerror k s = Some s'"
  shows "same_workers s s'" and "same_stops s s'" and "raw_queue s' = raw_queue s"
    and "log_queue s' = log_queue s" and "logged s' = logged s" and "heard s' = heard s"
  using assms
  by (auto simp: listener_turn_def frames shutdown_waker_def
      split: listener_pc.splits prod.splits if_splits)

lemma parser_turn_frame:
  assumes "parser_turn native s = Some s'"
  shows "same_listener s s'" and "same_stops s s'" and "event_count s' = event_count s" and "parser_at s \<noteq> P_done"
    and "the_business s' = the_business s \<and> business_at s' = business_at s \<and> packets_out s' = packets_out s"
    and "the_logger s' = the_logger s \<and> logger_at s' = logger_at s \<and> written s' = written s"
    and "said Listener s' = said Listener s" and "said Business s' = said Business s"
    and "parser_at s' = P_exit \<or> parser_at s' = P_done \<Longrightarrow> parser_stop s \<or> parser_at s = P_exit"
  using assms
  by (auto simp: parser_turn_def push_parsed_def push_log_def said_def frames Let_def tsq_pop_cases
      split: parser_pc.splits option.splits prod.splits list.splits effect.splits if_splits)

lemma business_turn_frame:
  assumes "business_turn now s = Some s'"
  shows "same_listener s s'" and "same_stops s s'" and "event_count s' = event_count s" and "business_at s \<noteq> B_done"
    and "the_parser s' = the_parser s \<and> parser_at s' = parser_at s \<and> performed s' = performed s \<and>
      chunks_out s' = chunks_out s \<and> raw_queue s' = raw_queue s"
    and "the_logger s' = the_logger s \<and> logger_at s' = logger_at s \<and> written s' = written s"
    and "said Listener s' = said Listener s" and "said Parser s' = said Parser s"
    and "business_at s' = B_exit \<or> business_at s' = B_done \<Longrightarrow> business_stop s \<or> business_at s = B_exit"
  using assms
  by (auto simp: business_turn_def push_log_def said_def frames tsq_pop_cases
      split: business_pc.splits option.splits prod.splits list.splits if_splits)

lemma logger_turn_frame:
  assumes "logger_turn s = Some s'"
  shows "same_listener s s'" and "same_stops s s'" and "event_count s' = event_count s" and "logger_at s \<noteq> G_done"
    and "the_parser s' = the_parser s \<and> parser_at s' = parser_at s \<and> performed s' = performed s \<and>
      chunks_out s' = chunks_out s \<and> raw_queue s' = raw_queue s \<and> parsed_queue s' = parsed_queue s"
    and "the_business s' = the_business s \<and> business_at s' = business_at s \<and> packets_out s' = packets_out s"
    and "logged s' = logged s"
    and "logger_at s' = G_drain \<or> logger_at s' = G_done \<Longrightarrow> logger_stop s \<or> logger_at s = G_drain"
    and "logger_at s' = G_done \<Longrightarrow> m_queue (log_queue s') = []"
  using assms
  by (auto simp: logger_turn_def Let_def tsq_pop_cases frames
      split: logger_pc.splits option.splits prod.splits if_splits)

lemma main_turn_frame:
  assumes "main_turn s = Some s'"
  shows "same_listener s s'" and "same_workers s s'" and "raw_queue s' = raw_queue s" and "log_queue s' = log_queue s"
    and "logged s' = logged s" and "g_shutdown_requested s' = g_shutdown_requested s"
  using assms by (auto simp: main_turn_def frames shutdown_waker_def split: main_pc.splits if_splits)

lemma sigint_frame:
  "same_listener s (signal_handler s)" "same_workers s (signal_handler s)"
  "raw_queue (signal_handler s) = raw_queue s" "log_queue (signal_handler s) = log_queue s"
  "logged (signal_handler s) = logged s" "main_at (signal_handler s) = main_at s"
  by (simp_all add: signal_handler_def frames)

section \<open>Queues\<close>

text \<open>What the queues hold lies between what was pushed and what was taken.\<close>

definition queues_inv :: "string \<Rightarrow> server \<Rightarrow> bool" where
  "queues_inv printed s \<longleftrightarrow>
     m_max_size (raw_queue s) = 0 \<and> m_max_size (parsed_queue s) = 0 \<and> m_max_size (log_queue s) = 0 \<and>
     chunks_of (heard s) = chunks_out s @ m_queue (raw_queue s) \<and>
     packets_of (performed s) = packets_out s @ m_queue (parsed_queue s) \<and>
     map snd (logged s) = written s @ m_queue (log_queue s) \<and>
     to_stdout (the_logger s) = printed @ concat (written s)"

lemma queues_listener:
  assumes turn: "listener_turn strerror k s = Some s'" and inv: "queues_inv w s"
  shows "queues_inv w s'"
proof (cases "listener_todo s")
  case Nil
  then show ?thesis using listener_act_frame [OF Nil turn] inv by (simp add: queues_inv_def same_workers_def)
next
  case (Cons e todo)
  then show ?thesis using listener_perform_turn [OF Cons turn] inv by (simp add: queues_inv_def comp_def)
qed

lemma queues_parser: "parser_turn native s = Some s' \<Longrightarrow> queues_inv w s \<Longrightarrow> queues_inv w s'"
  by (auto simp: parser_turn_def queues_inv_def pushes Let_def tsq_pop_cases
      split: parser_pc.splits option.splits prod.splits list.splits effect.splits)

lemma queues_business: "business_turn now s = Some s' \<Longrightarrow> queues_inv w s \<Longrightarrow> queues_inv w s'"
  by (auto simp: business_turn_def queues_inv_def pushes Let_def tsq_pop_cases
      split: business_pc.splits option.splits prod.splits list.splits)

lemma queues_logger: "logger_turn s = Some s' \<Longrightarrow> queues_inv w s \<Longrightarrow> queues_inv w s'"
  by (auto simp: logger_turn_def queues_inv_def Let_def tsq_pop_cases
      split: logger_pc.splits option.splits prod.splits)

lemma queues_main: "main_turn s = Some s' \<Longrightarrow> queues_inv w s \<Longrightarrow> queues_inv w s'"
  using main_turn_frame [of s s'] by (simp add: queues_inv_def frames)

lemma queues_sigint: "queues_inv w s \<Longrightarrow> queues_inv w (signal_handler s)"
  by (simp add: queues_inv_def signal_handler_def)

lemma queues_step: "server_step native strerror s s' \<Longrightarrow> queues_inv w s \<Longrightarrow> queues_inv w s'"
  by (induction rule: server_step.induct)
    (blast intro: queues_listener queues_parser queues_business queues_logger queues_main queues_sigint)+

section \<open>The listener's thread\<close>

text \<open>
  The listener that has performed \<open>heard\<close> and is about to perform \<open>listener_todo\<close> is the one of a run of
  \<open>listener_run\<close> for the answers that the kernel gave.
\<close>

definition listener_alive :: "(nat \<Rightarrow> string) \<Rightarrow> u16 \<Rightarrow> NetworkListener \<Rightarrow> listener_effect list \<Rightarrow> bool" where
  "listener_alive strerror port l es \<longleftrightarrow>
     (\<exists>sa ea l0 out0 ws out1.
        listener_setup strerror sa ea (NetworkListener_ctor port) = (None, l0, out0) \<and>
        completed strerror l0 ws = Some (l, out1) \<and> es = out0 @ out1)"

definition listener_ran ::
  "(nat \<Rightarrow> string) \<Rightarrow> u16 \<Rightarrow> (listener_end \<Rightarrow> bool) \<Rightarrow> NetworkListener \<Rightarrow> listener_effect list \<Rightarrow> bool" where
  "listener_ran strerror port P l es \<longleftrightarrow>
     (\<exists>sa ea turns r. listener_run strerror sa ea turns (NetworkListener_ctor port) = (r, l, es) \<and> P r)"

text \<open>In the middle of a batch that was begun by the listener \<open>l0\<close>, with \<open>left\<close> still to do.\<close>

definition listener_batch ::
  "(nat \<Rightarrow> string) \<Rightarrow> u16 \<Rightarrow> (int \<times> u32) list \<Rightarrow> NetworkListener \<Rightarrow> listener_effect list \<Rightarrow> bool" where
  "listener_batch strerror port left l es \<longleftrightarrow>
     (\<exists>l0 es0 evs out. listener_alive strerror port l0 es0 \<and>
        listener_body strerror l0 (Events evs) = (Busy, l, out) \<and> unfinished strerror l0 evs = left \<and> es = es0 @ out)"

definition listener_link :: "(nat \<Rightarrow> string) \<Rightarrow> u16 \<Rightarrow> server \<Rightarrow> bool" where
  "listener_link strerror port s \<longleftrightarrow>
     (case listener_at s of
        L_start \<Rightarrow> the_listener s = NetworkListener_ctor port \<and> heard s = [] \<and> listener_todo s = []
      | L_return \<Rightarrow> listener_ran strerror port (\<lambda>r. r = Listener_returned) (the_listener s) (heard s @ listener_todo s)
      | L_done \<Rightarrow> listener_ran strerror port (\<lambda>r. r = Listener_returned) (the_listener s) (heard s @ listener_todo s)
      | L_crashed \<Rightarrow> listener_ran strerror port (\<lambda>r. r \<noteq> Listening \<and> r \<noteq> Listener_returned)
          (the_listener s) (heard s @ listener_todo s)
      | L_batch left \<Rightarrow> listener_batch strerror port left (the_listener s) (heard s @ listener_todo s)
      | _ \<Rightarrow> listener_alive strerror port (the_listener s) (heard s @ listener_todo s))"

lemma listener_alive_turn:
  assumes "listener_alive strerror port l es" and "listener_body strerror l w = (r, l', out)"
  shows "r = Next \<Longrightarrow> listener_alive strerror port l' (es @ out)"
    and "r = Leave \<Longrightarrow> listener_ran strerror port (\<lambda>r. r = Listener_returned) l' (es @ out)"
    and "r = Raise e \<Longrightarrow> listener_ran strerror port (\<lambda>r. r \<noteq> Listening \<and> r \<noteq> Listener_returned) l' (es @ out)"
    and "r = Busy \<Longrightarrow> listener_ran strerror port (\<lambda>r. r = Listening) l' (es @ out)"
proof -
  obtain sa ea l0 out0 ws out1 where ready: "listener_setup strerror sa ea (NetworkListener_ctor port) = (None, l0, out0)"
    and ws: "completed strerror l0 ws = Some (l, out1)" and es: "es = out0 @ out1"
    using assms(1) unfolding listener_alive_def by blast
  show "listener_alive strerror port l' (es @ out)" if "r = Next"
    unfolding listener_alive_def using ready completed_snoc [OF ws, of w l' out] assms(2) that
    by (intro exI [of _ sa] exI [of _ ea] exI [of _ l0] exI [of _ out0] exI [of _ "ws @ [w]"] exI [of _ "out1 @ out"])
      (simp add: es)
  note loop = completed_loop [OF ws, of "[(False, w)]"]
  have run: "listener_run strerror sa ea (map (Pair False) ws @ [(False, w)]) (NetworkListener_ctor port) =
      (case r of Next \<Rightarrow> Listening | Busy \<Rightarrow> Listening | Leave \<Rightarrow> Listener_returned | Raise e \<Rightarrow> Listener_terminated e,
       l', es @ out)"
    using ready loop assms(2) by (simp add: listener_run_def es split: dispatch.split)
  show "listener_ran strerror port (\<lambda>r. r = Listener_returned) l' (es @ out)" if "r = Leave"
    unfolding listener_ran_def using run that by (intro exI) (rule conjI, assumption, simp)
  show "listener_ran strerror port (\<lambda>r. r \<noteq> Listening \<and> r \<noteq> Listener_returned) l' (es @ out)" if "r = Raise e"
    unfolding listener_ran_def using run that by (intro exI) (rule conjI, assumption, simp)
  show "listener_ran strerror port (\<lambda>r. r = Listening) l' (es @ out)" if "r = Busy"
    unfolding listener_ran_def using run that by (intro exI) (rule conjI, assumption, simp)
qed

text \<open>A batch that began with \<open>l0\<close> and has come to \<open>r\<close>.\<close>

lemma listener_link_body:
  assumes alive: "listener_alive strerror port l0 es0"
    and body: "listener_body strerror l0 w = (r, the_listener s, out)" and "heard s @ listener_todo s = es0 @ out"
    and at: "listener_at s = after_dispatch r left" and left: "r = Busy \<Longrightarrow> left = unfinished strerror l0 (events_of w)"
  shows "listener_link strerror port s"
proof (cases r)
  case Busy
  then obtain evs where w: "w = Events evs" using body by (cases w) (auto simp: listener_body_def split: if_splits)
  have "left = unfinished strerror l0 evs" using left Busy by (simp add: w events_of_def)
  then show ?thesis
    unfolding listener_link_def at Busy listener_batch_def using alive body assms(3) by (auto simp: w Busy)
qed (use listener_alive_turn [OF alive body] assms(3) at in \<open>simp_all add: listener_link_def\<close>)

lemma listener_alive_stopped:
  assumes "listener_alive strerror port l es"
  shows "listener_ran strerror port (\<lambda>r. r = Listener_returned) l es"
proof -
  obtain sa ea l0 out0 ws out1 where ready: "listener_setup strerror sa ea (NetworkListener_ctor port) = (None, l0, out0)"
    and ws: "completed strerror l0 ws = Some (l, out1)" and es: "es = out0 @ out1"
    using assms unfolding listener_alive_def by blast
  have "listener_run strerror sa ea (map (Pair False) ws @ [(True, Wait_error 0)]) (NetworkListener_ctor port) =
      (Listener_returned, l, es)"
    using ready completed_loop [OF ws, of "[(True, Wait_error 0)]"] by (simp add: listener_run_def es)
  then show ?thesis unfolding listener_ran_def by metis
qed

lemma listener_link_setup:
  assumes link: "listener_link strerror port s" and todo: "listener_todo s = []" and at: "listener_at s = L_start"
    and turn: "listener_turn strerror k s = Some s'"
  shows "listener_link strerror port s'"
proof -
  obtain r l out where ready:
    "listener_setup strerror (for_server k) (for_epoll k) (NetworkListener_ctor port) = (r, l, out)"
    by (cases "listener_setup strerror (for_server k) (for_epoll k) (NetworkListener_ctor port)") auto
  have s': "the_listener s' = l" "heard s' @ listener_todo s' = out"
    "listener_at s' = (if r = None then L_register else L_crashed)"
    using link turn todo at ready by (auto simp: listener_link_def listener_turn_def)
  show ?thesis
  proof (cases r)
    case None
    then have "listener_alive strerror port l out"
      unfolding listener_alive_def using ready
      by (intro exI [of _ "for_server k"] exI [of _ "for_epoll k"] exI [of _ l] exI [of _ out] exI [of _ "[]"]) simp
    then show ?thesis using None s' by (simp add: listener_link_def)
  next
    case (Some e)
    then have "listener_run strerror (for_server k) (for_epoll k) [] (NetworkListener_ctor port) =
        (Listener_terminated e, l, out)"
      using ready by (simp add: listener_run_def)
    then have "listener_ran strerror port (\<lambda>r. r \<noteq> Listening \<and> r \<noteq> Listener_returned) l out"
      unfolding listener_ran_def by (intro exI) (rule conjI, assumption, simp)
    then show ?thesis using Some s' by (simp add: listener_link_def)
  qed
qed

lemma listener_link_act:
  assumes link: "listener_link strerror port s" and todo: "listener_todo s = []"
    and turn: "listener_turn strerror k s = Some s'"
  shows "listener_link strerror port s'"
proof (cases "listener_at s")
  case L_start
  then show ?thesis by (rule listener_link_setup [OF link todo _ turn])
next
  case L_wait
  obtain r l out where body: "listener_body strerror (the_listener s) (for_wait k) = (r, l, out)"
    by (cases "listener_body strerror (the_listener s) (for_wait k)") auto
  have alive: "listener_alive strerror port (the_listener s) (heard s)"
    using link L_wait todo by (simp add: listener_link_def)
  have s': "the_listener s' = l" "heard s' = heard s" "listener_todo s' = out"
    "listener_at s' = after_dispatch r (unfinished strerror (the_listener s) (events_of (for_wait k)))"
    using turn todo L_wait body by (auto simp: listener_turn_def split: if_splits)
  show ?thesis by (rule listener_link_body [OF alive _ _ s'(4)]) (simp_all add: s' body)
next
  case (L_batch left)
  from link obtain l0 es0 evs out0 where b: "listener_alive strerror port l0 es0"
      "listener_body strerror l0 (Events evs) = (Busy, the_listener s, out0)" "unfinished strerror l0 evs = left"
      "heard s = es0 @ out0"
    using todo by (auto simp: listener_link_def listener_batch_def L_batch)
  obtain r l out where d: "dispatch_events strerror (the_listener s) (for_batch k) = (r, l, out)" by (metis surj_pair)
  have s': "the_listener s' = l" "heard s' = heard s" "listener_todo s' = out" "map event_key (for_batch k) = left"
    "listener_at s' = after_dispatch r (unfinished strerror (the_listener s) (for_batch k))"
    using turn todo L_batch d by (auto simp: listener_turn_def split: if_splits)
  obtain evs2 where evs2: "listener_body strerror l0 (Events evs2) = (r, l, out0 @ out)"
      "r = Busy \<longrightarrow> unfinished strerror l0 evs2 = unfinished strerror (the_listener s) (for_batch k)"
    using listener_body_resume [OF b(2) _ d] b(3) s'(4) by auto
  show ?thesis
    by (rule listener_link_body [OF b(1) _ _ s'(5), of "Events evs2" "out0 @ out"])
      (use evs2 b(4) s' in \<open>simp_all add: events_of_def\<close>)
next
  case L_check
  then have "listener_alive strerror port (the_listener s) (heard s)"
    using link todo by (simp add: listener_link_def)
  then show ?thesis
    using listener_alive_stopped [of strerror port "the_listener s" "heard s"] turn todo L_check
    by (auto simp: listener_link_def listener_turn_def)
qed (use link turn todo in \<open>auto simp: listener_link_def listener_turn_def shutdown_waker_def split: if_splits\<close>)

lemma listener_link_step:
  assumes "server_step native strerror s s'" and "listener_link strerror port s"
  shows "listener_link strerror port s'"
  using assms
proof (induction rule: server_step.induct)
  case (listener k s s')
  show ?case
  proof (cases "listener_todo s")
    case Nil
    then show ?thesis using listener_link_act listener by blast
  next
    case (Cons e todo)
    then show ?thesis
      using listener_perform_turn [OF Cons listener(1)] listener(3)
      by (simp add: listener_link_def split: listener_pc.splits)
  qed
qed (auto simp: listener_link_def same_listener_def cong: listener_pc.case_cong
    dest: parser_turn_frame(1) business_turn_frame(1) logger_turn_frame(1) main_turn_frame(1)
    simp: signal_handler_def)

lemma listener_link_ran:
  assumes "listener_link strerror port s"
  shows "heard s @ listener_todo s = [] \<or>
    listener_ran strerror port (\<lambda>r. True) (the_listener s) (heard s @ listener_todo s)"
proof -
  have weaker: "listener_ran strerror port P l es \<Longrightarrow> listener_ran strerror port (\<lambda>r. True) l es" for P l es
    unfolding listener_ran_def by blast
  have "listener_ran strerror port (\<lambda>r. True) l es" if "listener_batch strerror port left l es" for left l es
    using that weaker listener_alive_turn(4) unfolding listener_batch_def by blast
  then show ?thesis
    using assms weaker listener_alive_stopped
    by (auto simp: listener_link_def split: listener_pc.splits) blast+
qed

lemma heard_fits:
  assumes "listener_link strerror port s"
  shows "list_all chunk_fits (chunks_of (heard s @ listener_todo s))"
proof (rule small_chunks_fit)
  show "list_all small (heard s @ listener_todo s)"
    using listener_link_ran [OF assms]
  proof
    assume "listener_ran strerror port (\<lambda>r. True) (the_listener s) (heard s @ listener_todo s)"
    then obtain sa ea turns r where "listener_run strerror sa ea turns (NetworkListener_ctor port) =
        (r, the_listener s, heard s @ listener_todo s)"
      unfolding listener_ran_def by blast
    then show ?thesis using listener_run_small [of strerror sa ea turns port] by simp
  qed simp
qed

section \<open>The parser's thread\<close>

fun pending :: "parser_pc \<Rightarrow> effect list" where
  "pending (P_emit es) = es"
| "pending _ = []"

definition parser_link :: "endian \<Rightarrow> server \<Rightarrow> bool" where
  "parser_link native s \<longleftrightarrow>
     the_parser s = fst (run_steps (parser_step native) initial_parser (chunks_out s)) \<and>
     performed s @ pending (parser_at s) =
       concat (map snd (snd (run_steps (parser_step native) initial_parser (chunks_out s)))) \<and>
     parser_at s \<noteq> P_crashed"

lemma handle_chunk_no_error:
  assumes "parser_inv p" and "chunk_fits c"
  shows "fst (handle_chunk native p c) = None"
proof -
  obtain e p' out where h: "handle_chunk native p c = (e, p', out)" by (metis prod_cases3)
  have "stream_step (parser_abs p) c = (parser_abs p', (e, out))"
    using parser_step_simulates [OF assms, of native] by (simp add: parser_step_def h)
  then have "e = None" by (cases "parser_abs p") (auto simp: split_def Let_def split: if_splits)
  then show ?thesis by (simp add: h)
qed

lemma run_steps_snoc:
  "fst (run_steps f s (xs @ [x])) = fst (f (fst (run_steps f s xs)) x)"
  "snd (run_steps f s (xs @ [x])) = snd (run_steps f s xs) @ [snd (f (fst (run_steps f s xs)) x)]"
  by (simp_all add: run_steps_append split_def Let_def)

lemma parser_link_pop:
  assumes link: "parser_link native s" and at: "parser_at s = P_pop"
    and pop: "tsq_pop (raw_queue s) (parser_stop s) = Some (Some c, q)"
    and inv: "queues_inv w s" and fits: "list_all chunk_fits (chunks_of (heard s))"
    and step: "parser_turn native s = Some s'"
  shows "parser_link native s'"
proof -
  obtain e p out where h: "handle_chunk native (the_parser s) c = (e, p, out)" by (metis prod_cases3)
  have "chunks_of (heard s) = chunks_out s @ c # m_queue q"
    using inv pop by (auto simp: queues_inv_def tsq_pop_cases)
  then have "list_all chunk_fits (chunks_out s)" "chunk_fits c" using fits by auto
  then have "e = None"
    using handle_chunk_no_error [of "after_chunks native (chunks_out s)" c native]
      after_chunks_inv [of "chunks_out s" native] h link
    by (simp add: parser_link_def after_chunks_def)
  then show ?thesis
    using link at pop step h
    by (auto simp: parser_turn_def parser_link_def run_steps_snoc parser_step_def)
qed

lemma parser_link_parser:
  assumes link: "parser_link native s" and step: "parser_turn native s = Some s'"
    and inv: "queues_inv w s" and fits: "list_all chunk_fits (chunks_of (heard s))"
  shows "parser_link native s'"
proof (cases "\<exists>c q. parser_at s = P_pop \<and> tsq_pop (raw_queue s) (parser_stop s) = Some (Some c, q)")
  case True
  then show ?thesis using parser_link_pop link step inv fits by blast
next
  case False
  moreover have "m_max_size (parsed_queue s) = 0" "m_max_size (log_queue s) = 0"
    using inv by (simp_all add: queues_inv_def)
  ultimately show ?thesis
    using link step
    by (auto simp: parser_turn_def parser_link_def pushes Let_def
        split: parser_pc.splits option.splits list.splits effect.splits if_splits)
qed

text \<open>A turn of the listener in one lemma, for the invariants that do not look at the listener.\<close>

lemma listener_turn_frame:
  assumes turn: "listener_turn strerror k s = Some s'"
  shows "same_workers s s'" and "same_stops s s'"
    and "said Parser s' = said Parser s" and "said Business s' = said Business s"
    and "said Listener s = messages_of (heard s) \<Longrightarrow> said Listener s' = messages_of (heard s')"
proof -
  have "same_workers s s' \<and> same_stops s s' \<and> said Parser s' = said Parser s \<and> said Business s' = said Business s \<and>
    (said Listener s = messages_of (heard s) \<longrightarrow> said Listener s' = messages_of (heard s'))"
  proof (cases "listener_todo s")
    case Nil
    then show ?thesis using listener_act_frame [OF Nil turn] by (simp add: said_def)
  next
    case (Cons e todo)
    then show ?thesis
      by (subst (1 2 3 4 5 6) listener_perform_turn [OF Cons turn])
        (simp add: frames said_def filter_map comp_def)
  qed
  then show "same_workers s s'" "same_stops s s'" "said Parser s' = said Parser s" "said Business s' = said Business s"
    "said Listener s = messages_of (heard s) \<Longrightarrow> said Listener s' = messages_of (heard s')"
    by blast+
qed

lemma parser_link_others:
  assumes "parser_link native s"
  shows "listener_turn strerror k s = Some s' \<Longrightarrow> parser_link native s'"
    and "business_turn now s = Some s' \<Longrightarrow> parser_link native s'"
    and "logger_turn s = Some s' \<Longrightarrow> parser_link native s'"
    and "main_turn s = Some s' \<Longrightarrow> parser_link native s'"
    and "parser_link native (signal_handler s)"
  using assms listener_turn_frame(1) [of strerror k s s'] business_turn_frame(5) [of now s s']
    logger_turn_frame(5) [of s s'] main_turn_frame(2) [of s s'] sigint_frame(2) [of s]
  by (simp_all add: parser_link_def same_workers_def)

lemma parser_link_step:
  "server_step native strerror s s' \<Longrightarrow> queues_inv w s \<Longrightarrow> list_all chunk_fits (chunks_of (heard s)) \<Longrightarrow>
   parser_link native s \<Longrightarrow> parser_link native s'"
  by (induction rule: server_step.induct) (blast intro: parser_link_others parser_link_parser)+

section \<open>The business logic's thread\<close>

definition business_link :: "server \<Rightarrow> bool" where
  "business_link s \<longleftrightarrow>
     map_of (m_drones (the_business s)) = latest (packets_out s) \<and>
     m_packets_processed (the_business s) = of_nat (length (packets_out s)) \<and>
     unique_keys (the_business s)"

lemma business_link_business:
  assumes "business_link s" and "business_turn now s = Some s'"
  shows "business_link s'"
proof (cases "\<exists>t q. business_at s = B_pop \<and> tsq_pop (parsed_queue s) (business_stop s) = Some (Some t, q)")
  case True
  then obtain t q where pop: "business_at s = B_pop" "tsq_pop (parsed_queue s) (business_stop s) = Some (Some t, q)"
    by blast
  obtain b out where h: "handle_telemetry (the_business s) t now = (b, out)" by fastforce
  show ?thesis using assms pop h handle_telemetry_effect [OF h]
    by (auto simp: business_turn_def business_link_def latest_def)
next
  case False
  then show ?thesis using assms
    by (auto simp: business_turn_def business_link_def push_log_def unique_keys_def
        split: business_pc.splits option.splits list.splits)
qed

lemma business_link_step:
  assumes "server_step native strerror s s'" and "business_link s"
  shows "business_link s'"
  using assms
proof (induction rule: server_step.induct)
  case (business now s s')
  then show ?case by (blast intro: business_link_business)
qed (auto simp: business_link_def same_workers_def signal_handler_def
    dest: listener_turn_frame(1) parser_turn_frame(5) logger_turn_frame(6) main_turn_frame(2))

section \<open>Order of the shutdown\<close>

fun past :: "main_pc \<Rightarrow> nat" where
  "past M_wait = 0"
| "past M_stop_listener = 1"
| "past M_wake = 2"
| "past M_join_listener = 3"
| "past M_join_parser = 4"
| "past M_join_business = 5"
| "past M_goodbye = 6"
| "past M_join_logger = 7"
| "past M_done = 8"

text \<open>The stop flags tell how far main has come.\<close>

definition flags_inv :: "server \<Rightarrow> bool" where
  "flags_inv s \<longleftrightarrow>
     listener_stop s = (2 \<le> past (main_at s)) \<and> parser_stop s = (4 \<le> past (main_at s)) \<and>
     business_stop s = (5 \<le> past (main_at s)) \<and> logger_stop s = (6 \<le> past (main_at s)) \<and>
     (1 \<le> past (main_at s) \<longrightarrow> g_shutdown_requested s)"

text \<open>Main is past a join only when the thread has returned.\<close>

definition joined_inv :: "server \<Rightarrow> bool" where
  "joined_inv s \<longleftrightarrow>
     (4 \<le> past (main_at s) \<longrightarrow> listener_at s = L_done) \<and> (5 \<le> past (main_at s) \<longrightarrow> parser_at s = P_done) \<and>
     (6 \<le> past (main_at s) \<longrightarrow> business_at s = B_done) \<and> (8 \<le> past (main_at s) \<longrightarrow> logger_at s = G_done)"

text \<open>The workers leave their loops only when they were stopped, and the logger not before the queue is empty.\<close>

definition points_inv :: "server \<Rightarrow> bool" where
  "points_inv s \<longleftrightarrow>
     (listener_at s = L_wait \<or> listener_at s = L_done \<longrightarrow> listener_todo s = []) \<and>
     (parser_at s = P_exit \<or> parser_at s = P_done \<longrightarrow> parser_stop s) \<and>
     (business_at s = B_exit \<or> business_at s = B_done \<longrightarrow> business_stop s) \<and>
     (logger_at s = G_drain \<or> logger_at s = G_done \<longrightarrow> logger_stop s) \<and>
     (logger_at s = G_done \<longrightarrow> m_queue (log_queue s) = [])"

definition order_inv :: "server \<Rightarrow> bool" where
  "order_inv s \<longleftrightarrow> flags_inv s \<and> joined_inv s \<and> points_inv s"

lemma flags_step:
  assumes "server_step native strerror s s'" and "flags_inv s"
  shows "flags_inv s'"
  using assms
proof (induction rule: server_step.induct)
  case (main s s')
  then show ?case
    by (cases "main_at s") (simp_all add: main_turn_def flags_inv_def shutdown_waker_def split: if_splits, auto)
qed (simp_all add: flags_inv_def signal_handler_def same_stops_def listener_turn_frame(2) [unfolded same_stops_def]
    parser_turn_frame(2) [unfolded same_stops_def] business_turn_frame(2) [unfolded same_stops_def]
    logger_turn_frame(2) [unfolded same_stops_def])

lemma listener_not_done: "listener_turn strerror k s = Some s' \<Longrightarrow> points_inv s \<Longrightarrow> listener_at s \<noteq> L_done"
  by (auto simp: listener_turn_def points_inv_def)

lemma joined_step:
  assumes "server_step native strerror s s'" and "flags_inv s" and "joined_inv s" and "points_inv s"
  shows "joined_inv s'"
  using assms
proof (induction rule: server_step.induct)
  case (listener k s s')
  then have "\<not> 4 \<le> past (main_at s)" using listener_not_done by (auto simp: joined_inv_def)
  then show ?case using listener_turn_frame(2) [OF listener(1)] by (simp add: joined_inv_def same_stops_def)
next
  case (parser s s')
  then show ?case using parser_turn_frame(1,2,4,5,6) [OF parser(1)] by (simp add: joined_inv_def frames)
next
  case (business now s s')
  then show ?case using business_turn_frame(1,2,4,5,6) [OF business(1)] by (simp add: joined_inv_def frames)
next
  case (logger s s')
  then show ?case using logger_turn_frame(1,2,4,5,6) [OF logger(1)] by (simp add: joined_inv_def frames)
next
  case (main s s')
  then show ?case
    by (cases "main_at s") (simp_all add: main_turn_def joined_inv_def shutdown_waker_def split: if_splits, auto)
next
  case (sigint s)
  then show ?case by (simp add: joined_inv_def signal_handler_def)
qed

lemma points_listener:
  assumes turn: "listener_turn strerror k s = Some s'" and inv: "order_inv s"
  shows "points_inv s'"
proof -
  have f: "same_workers s s'" "same_stops s s'" using listener_turn_frame [OF turn] by blast+
  have "\<not> 4 \<le> past (main_at s)"
    using inv listener_not_done [OF turn] by (auto simp: order_inv_def joined_inv_def)
  then have "logger_at s \<noteq> G_done" using inv by (auto simp: order_inv_def points_inv_def flags_inv_def)
  moreover have "listener_at s' = L_wait \<or> listener_at s' = L_done \<longrightarrow> listener_todo s' = []"
  proof (cases "listener_todo s")
    case Nil
    then show ?thesis using turn after_dispatch_simps(5)
      by (auto simp: listener_turn_def shutdown_waker_def split: listener_pc.splits prod.splits if_splits)
  next
    case (Cons e todo)
    then have "listener_at s' = listener_at s" using listener_perform_turn [OF Cons turn] by simp
    then show ?thesis using Cons inv by (auto simp: order_inv_def points_inv_def)
  qed
  ultimately show ?thesis using inv f by (simp add: order_inv_def points_inv_def frames)
qed

lemma main_stops:
  "main_turn s = Some s' \<Longrightarrow> (parser_stop s \<longrightarrow> parser_stop s') \<and> (business_stop s \<longrightarrow> business_stop s') \<and>
     (logger_stop s \<longrightarrow> logger_stop s')"
  by (auto simp: main_turn_def shutdown_waker_def split: main_pc.splits if_splits)

lemma order_step:
  assumes "server_step native strerror s s'" and "order_inv s"
  shows "order_inv s'"
proof -
  have "points_inv s'" using assms
  proof (induction rule: server_step.induct)
    case (listener k s s')
    then show ?case by (blast intro: points_listener)
  next
    case (parser s s')
    then have "logger_at s \<noteq> G_done" "parser_at s' = P_exit \<or> parser_at s' = P_done \<longrightarrow> parser_stop s"
      using parser_turn_frame(4,9) [OF parser(1)]
      by (auto simp: order_inv_def joined_inv_def points_inv_def flags_inv_def)
    then show ?case using parser(3) parser_turn_frame(1,2,5,6) [OF parser(1)]
      by (simp add: order_inv_def points_inv_def frames)
  next
    case (business now s s')
    then have "logger_at s \<noteq> G_done" "business_at s' = B_exit \<or> business_at s' = B_done \<longrightarrow> business_stop s"
      using business_turn_frame(4,9) [OF business(1)]
      by (auto simp: order_inv_def joined_inv_def points_inv_def flags_inv_def)
    then show ?case using business(3) business_turn_frame(1,2,5,6) [OF business(1)]
      by (simp add: order_inv_def points_inv_def frames)
  next
    case (logger s s')
    then have "logger_at s' = G_drain \<or> logger_at s' = G_done \<longrightarrow> logger_stop s"
      using logger_turn_frame(8) [OF logger(1)] by (auto simp: order_inv_def points_inv_def)
    then show ?case using logger(3) logger_turn_frame(1,2,5,6,9) [OF logger(1)]
      by (simp add: order_inv_def points_inv_def frames)
  next
    case (main s s')
    then show ?case using main_turn_frame [OF main(1)] main_stops [OF main(1)]
      by (simp add: order_inv_def points_inv_def frames)
  next
    case (sigint s)
    then show ?case by (simp add: order_inv_def points_inv_def signal_handler_def)
  qed
  then show ?thesis using assms flags_step joined_step unfolding order_inv_def by blast
qed

section \<open>The stop request reaches the listener\<close>

text \<open>The listener is in its loop, and of the events that it has taken one of the eventfd has a reason.\<close>

definition looping :: "listener_pc \<Rightarrow> bool" where
  "looping pc = (case pc of L_check \<Rightarrow> True | L_wait \<Rightarrow> True | L_batch left \<Rightarrow> True | _ \<Rightarrow> False)"

definition taken :: "listener_pc \<Rightarrow> int list" where
  "taken pc = (case pc of L_batch left \<Rightarrow> map fst left | _ \<Rightarrow> [])"

lemma looping_simps [simp]:
  "looping L_check" "looping L_wait" "looping (L_batch left)" "\<not> looping L_start" "\<not> looping L_register"
  "\<not> looping L_return" "\<not> looping L_done" "\<not> looping L_crashed"
  by (simp_all add: looping_def)

lemma taken_simps [simp]: "taken (L_batch left) = map fst left" "taken L_check = []" "taken L_wait = []"
  "taken L_return = []" "taken L_done = []" "taken L_crashed = []" "taken L_start = []" "taken L_register = []"
  by (simp_all add: taken_def)

definition wake_inv :: "server \<Rightarrow> bool" where
  "wake_inv s \<longleftrightarrow>
     (looping (listener_at s) \<and> \<not> listener_stop s \<longrightarrow> waker_registered s) \<and>
     (sh_get (m_event_fd (the_listener s)) \<in> set (taken (listener_at s)) \<longrightarrow> listener_stop s) \<and>
     (listener_at s = L_wait \<and> main_at s = M_wake \<longrightarrow> waker_registered s) \<and>
     (listener_at s = L_wait \<and> 3 \<le> past (main_at s) \<longrightarrow> 0 < event_count s) \<and>
     (0 < event_count s \<longrightarrow> listener_stop s)"

lemma dispatch_events_event_fd:
  "dispatch_events strerror l evs = (r, l', out) \<Longrightarrow> m_event_fd l' = m_event_fd l"
proof (induction evs arbitrary: l r l' out)
  case (Cons ev evs)
  obtain r1 l1 out1 where "dispatch_event strerror l ev = (r1, l1, out1)" by (metis surj_pair)
  then show ?case
    using Cons.prems Cons.IH [of l1] dispatch_event_Leave(1) [of strerror l ev r1 l1 out1]
    by (auto split: dispatch.splits prod.splits)
qed simp

lemma listener_body_event_fd:
  "listener_body strerror l w = (r, l', out) \<Longrightarrow> m_event_fd l' = m_event_fd l"
  by (auto simp: listener_body_def split: wait_answer.splits if_splits prod.splits dest!: dispatch_events_event_fd)

lemma unfinished_sources: "fst ` set (unfinished strerror l evs) \<subseteq> source_fd ` set evs"
proof (induction evs arbitrary: l)
  case (Cons ev evs)
  obtain r1 l1 out1 where "dispatch_event strerror l ev = (r1, l1, out1)" by (metis surj_pair)
  then show ?case using Cons.IH [of l1] by (cases r1) (auto simp: event_key_def)
qed simp

lemma wake_dispatched:
  assumes "wake_inv s" and "looping (listener_at s)" and "m_event_fd l = m_event_fd (the_listener s)"
    and "sh_get (m_event_fd (the_listener s)) \<in> fst ` set left \<Longrightarrow> listener_stop s"
  shows "wake_inv (s\<lparr>the_listener := l, listener_todo := out, listener_at := after_dispatch r left\<rparr>)"
  using assms by (cases r) (auto simp: wake_inv_def)

lemma wake_listener:
  assumes turn: "listener_turn strerror k s = Some s'" and order: "order_inv s" and inv: "wake_inv s"
  shows "wake_inv s'"
proof (cases "listener_todo s")
  case Nil
  have stop: "main_at s = M_wake \<Longrightarrow> listener_stop s" "3 \<le> past (main_at s) \<Longrightarrow> listener_stop s"
    using order by (auto simp: order_inv_def flags_inv_def)
  show ?thesis
  proof (cases "listener_at s")
    case L_wait
    then obtain r l out where s': "epoll_allows s (for_wait k)"
        "listener_body strerror (the_listener s) (for_wait k) = (r, l, out)"
        "s' = s\<lparr>the_listener := l, listener_todo := out,
           listener_at := after_dispatch r (unfinished strerror (the_listener s) (events_of (for_wait k)))\<rparr>"
      using turn Nil by (auto simp: listener_turn_def split: if_splits prod.splits)
    have "listener_stop s" if "sh_get (m_event_fd (the_listener s)) \<in> source_fd ` set (events_of (for_wait k))"
      using s'(1) inv that
      by (auto simp: epoll_allows_def wake_inv_def events_of_def list_all_iff split: wait_answer.splits)
    then show ?thesis
      unfolding s'(3) using wake_dispatched [OF inv _ listener_body_event_fd [OF s'(2)]] L_wait unfinished_sources
      by (simp add: subset_iff)
  next
    case (L_batch left)
    then obtain r l out where s': "map event_key (for_batch k) = left"
        "dispatch_events strerror (the_listener s) (for_batch k) = (r, l, out)"
        "s' = s\<lparr>the_listener := l, listener_todo := out,
           listener_at := after_dispatch r (unfinished strerror (the_listener s) (for_batch k))\<rparr>"
      using turn Nil by (auto simp: listener_turn_def split: if_splits prod.splits)
    have "listener_stop s" if "sh_get (m_event_fd (the_listener s)) \<in> source_fd ` set (for_batch k)"
      using inv that by (auto simp: wake_inv_def L_batch event_key_def simp flip: s'(1))
    then show ?thesis
      unfolding s'(3) using wake_dispatched [OF inv _ dispatch_events_event_fd [OF s'(2)]] L_batch unfinished_sources
      by (simp add: subset_iff)
  qed (use turn inv stop Nil in \<open>auto simp: listener_turn_def wake_inv_def shutdown_waker_def split: prod.splits if_splits\<close>)
next
  case (Cons e todo)
  then have "listener_at s \<noteq> L_wait" using order by (auto simp: order_inv_def points_inv_def)
  then show ?thesis
    using listener_perform_turn [OF Cons turn] inv event_after_le [of e "event_count s"]
    by (auto simp: wake_inv_def)
qed

lemma wake_main:
  assumes turn: "main_turn s = Some s'" and flags: "flags_inv s" and inv: "wake_inv s"
  shows "wake_inv s'"
  using assms
  by (cases "main_at s") (auto simp: main_turn_def wake_inv_def flags_inv_def shutdown_waker_def split: if_splits)

lemma wake_step:
  assumes "server_step native strerror s s'" and "order_inv s" and "wake_inv s"
  shows "wake_inv s'"
  using assms
proof (induction rule: server_step.induct)
  case (listener k s s')
  then show ?case by (blast intro: wake_listener)
next
  case (main s s')
  then show ?case using wake_main by (simp add: order_inv_def)
next
  case (sigint s)
  then show ?case by (simp add: wake_inv_def signal_handler_def)
next
  case (parser s s')
  then show ?case using parser_turn_frame(1-3) [OF parser(1)] by (simp add: wake_inv_def frames)
next
  case (business now s s')
  then show ?case using business_turn_frame(1-3) [OF business(1)] by (simp add: wake_inv_def frames)
next
  case (logger s s')
  then show ?case using logger_turn_frame(1-3) [OF logger(1)] by (simp add: wake_inv_def frames)
qed

end
