(* ===== verification/Pipeline_Reachable.thy ===== *)
theory Pipeline_Reachable
  imports Pipeline_Invariants "HOL-Library.Infinite_Set"
begin

text \<open>
  What holds in every reachable state of the program, that its runs come to an end once the stop was
  requested unless the network feeds a loop of the listener for ever, and that a step is always
  possible until then.
\<close>

section \<open>Why the listener returns\<close>

text \<open>The listener leaves its loop because of a stop request or a failure of \<open>epoll_wait\<close>.\<close>

definition leave_inv :: "(nat \<Rightarrow> string) \<Rightarrow> server \<Rightarrow> bool" where
  "leave_inv strerror s \<longleftrightarrow>
     (listener_at s = L_return \<or> listener_at s = L_done \<longrightarrow> listener_stop s \<or>
        (\<exists>err. err \<noteq> EINTR \<and> Message (wait_error_message strerror err) \<in> set (heard s @ listener_todo s)))"

lemma leave_listener:
  assumes turn: "listener_turn strerror k s = Some s'" and wake: "wake_inv s" and inv: "leave_inv strerror s"
  shows "leave_inv strerror s'"
proof (cases "listener_todo s")
  case Nil
  show ?thesis
  proof (cases "listener_at s = L_wait")
    case True
    have "listener_stop s \<or> (\<exists>err. err \<noteq> EINTR \<and> Message (wait_error_message strerror err) \<in> set out)"
      if "listener_body strerror (the_listener s) (for_wait k) = (Leave, l, out)" "epoll_allows s (for_wait k)" for l out
      using listener_body_Leave [OF that(1)] that(2) wake
      by (auto simp: epoll_allows_def wake_inv_def list_all_iff)
    then show ?thesis using turn Nil True after_dispatch_simps(5)
      by (auto simp: listener_turn_def leave_inv_def after_dispatch_iff split: if_splits prod.splits)
  next
    case False
    have "listener_stop s"
      if "dispatch_events strerror (the_listener s) (for_batch k) = (Leave, l, out)"
        "listener_at s = L_batch (map event_key (for_batch k))" for l out
      using dispatch_events_Leave [OF that(1)] that(2) wake
      by (auto simp: wake_inv_def event_key_def) (metis imageI)
    with False show ?thesis using turn inv Nil after_dispatch_simps(5)
      by (auto simp: listener_turn_def leave_inv_def shutdown_waker_def after_dispatch_iff
          split: listener_pc.splits prod.splits if_splits)
  qed
next
  case (Cons e todo)
  then show ?thesis using listener_perform_turn [OF Cons turn] inv by (simp add: leave_inv_def)
qed

lemma leave_step:
  assumes "server_step native strerror s s'" and "wake_inv s" and "leave_inv strerror s"
  shows "leave_inv strerror s'"
  using assms
proof (induction rule: server_step.induct)
  case (listener k s s')
  then show ?case by (blast intro: leave_listener)
next
  case (main s s')
  have "listener_stop s \<longrightarrow> listener_stop s'"
    using main(1) by (auto simp: main_turn_def shutdown_waker_def split: main_pc.splits if_splits)
  then show ?case using main main_turn_frame(1) [OF main(1)] by (auto simp: leave_inv_def frames)
next
  case (sigint s)
  then show ?case by (simp add: leave_inv_def signal_handler_def)
next
  case (parser s s')
  then show ?case using parser_turn_frame(1,2) [OF parser(1)] by (simp add: leave_inv_def frames)
next
  case (business now s s')
  then show ?case using business_turn_frame(1,2) [OF business(1)] by (simp add: leave_inv_def frames)
next
  case (logger s s')
  then show ?case using logger_turn_frame(1,2) [OF logger(1)] by (simp add: leave_inv_def frames)
qed

section \<open>What the threads have said\<close>

fun pending_messages :: "business_pc \<Rightarrow> string list" where
  "pending_messages (B_emit ms) = ms"
| "pending_messages _ = []"

definition parser_said :: "server \<Rightarrow> bool" where
  "parser_said s \<longleftrightarrow> (parser_at s = P_start \<longrightarrow> performed s = []) \<and> said Parser s =
     (if parser_at s = P_start then [] else [parser_hello]) @ logs_of (performed s) @
     (if parser_at s = P_done then [parser_goodbye (m_crc_failures (the_parser s))] else [])"

definition business_said :: "server \<Rightarrow> bool" where
  "business_said s \<longleftrightarrow>
     filter is_alert (said Business s) @ filter is_alert (pending_messages (business_at s)) =
       concat (map check_alerts (packets_out s)) \<and>
     (business_at s = B_done \<longrightarrow> (\<exists>now ms. said Business s = ms @ [summary_message (the_business s) now]))"

lemma not_alert: "\<not> is_alert business_hello" "\<not> is_alert (summary_message b now)"
  by (simp_all add: is_alert_def summary_message_def business_hello_def)

lemma parser_said_parser: "parser_turn native s = Some s' \<Longrightarrow> parser_said s \<Longrightarrow> parser_said s'"
proof (cases "parser_at s")
  case (P_emit es)
  assume "parser_turn native s = Some s'" and "parser_said s"
  then show "parser_said s'"
    by (cases es)
      (auto simp: P_emit parser_turn_def parser_said_def said_def push_parsed_def push_log_def Let_def
        split: effect.splits)
next
  case P_check
  assume "parser_turn native s = Some s'" and "parser_said s"
  then show "parser_said s'"
    by (auto simp: P_check parser_turn_def parser_said_def said_def split: if_splits)
qed (auto simp: parser_turn_def parser_said_def said_def push_log_def split: option.splits prod.splits if_splits)

lemma business_said_business: "business_turn now s = Some s' \<Longrightarrow> business_said s \<Longrightarrow> business_said s'"
proof (cases "business_at s")
  case (B_emit ms)
  assume "business_turn now s = Some s'" and "business_said s"
  then show "business_said s'"
    by (cases ms) (auto simp: B_emit business_turn_def business_said_def said_def push_log_def)
next
  case B_check
  assume "business_turn now s = Some s'" and "business_said s"
  then show "business_said s'"
    by (auto simp: B_check business_turn_def business_said_def said_def split: if_splits)
qed (auto simp: business_turn_def business_said_def said_def push_log_def not_alert handle_telemetry_effect(4)
    split: option.splits prod.splits)

definition said_inv :: "server \<Rightarrow> bool" where
  "said_inv s \<longleftrightarrow> said Listener s = messages_of (heard s) \<and> parser_said s \<and> business_said s"

lemma said_step:
  assumes "server_step native strerror s s'" and "said_inv s"
  shows "said_inv s'"
  using assms
proof (induction rule: server_step.induct)
  case (listener k s s')
  then show ?case using listener_turn_frame [OF listener(1)]
    by (simp add: said_inv_def parser_said_def business_said_def frames)
next
  case (parser s s')
  then show ?case using parser_turn_frame [OF parser(1)] parser_said_parser [OF parser(1)]
    by (simp add: said_inv_def business_said_def frames)
next
  case (business now s s')
  then show ?case using business_turn_frame [OF business(1)] business_said_business [OF business(1)]
    by (simp add: said_inv_def parser_said_def frames)
next
  case (logger s s')
  then show ?case using logger_turn_frame [OF logger(1)]
    by (simp add: said_inv_def parser_said_def business_said_def frames said_def)
next
  case (main s s')
  then show ?case using main_turn_frame [OF main(1)]
    by (simp add: said_inv_def parser_said_def business_said_def frames said_def)
next
  case (sigint s)
  then show ?case by (simp add: said_inv_def parser_said_def business_said_def said_def signal_handler_def)
qed

text \<open>What main has printed by the time it is at each point.\<close>

definition main_prints :: "string list \<Rightarrow> server \<Rightarrow> bool" where
  "main_prints greeting s \<longleftrightarrow> main_said s = greeting @
     (if 1 \<le> past (main_at s) then [sigint_message] else []) @
     (if 7 \<le> past (main_at s) then [goodbye_message] else [])"

lemma main_step:
  assumes "server_step native strerror s s'" and "main_prints greeting s"
  shows "main_prints greeting s'"
  using assms
proof (induction rule: server_step.induct)
  case (main s s')
  then show ?case
    by (cases "main_at s") (simp_all add: main_turn_def main_prints_def shutdown_waker_def split: if_splits, auto)
qed (simp_all add: main_prints_def signal_handler_def listener_turn_frame(2) [unfolded same_stops_def]
    parser_turn_frame(2) [unfolded same_stops_def] business_turn_frame(2) [unfolded same_stops_def]
    logger_turn_frame(2) [unfolded same_stops_def])

section \<open>The invariant of the program\<close>

definition server_inv ::
  "endian \<Rightarrow> (nat \<Rightarrow> string) \<Rightarrow> u16 \<Rightarrow> string \<Rightarrow> string list \<Rightarrow> server \<Rightarrow> bool" where
  "server_inv native strerror port printed greeting s \<longleftrightarrow>
     main_prints greeting s \<and> queues_inv printed s \<and> listener_link strerror port s \<and>
     parser_link native s \<and> business_link s \<and> order_inv s \<and> wake_inv s \<and> leave_inv strerror s \<and> said_inv s"

lemma start_inv: "server_inv native strerror port (to_stdout lg) greeting (start_server port lg greeting)"
  by (simp add: server_inv_def main_prints_def queues_inv_def listener_link_def parser_link_def
      business_link_def order_inv_def flags_inv_def joined_inv_def points_inv_def wake_inv_def leave_inv_def
      said_inv_def parser_said_def business_said_def said_def start_server_def ThreadSafeQueue_ctor_def
      BusinessLogic_ctor_def latest_def unique_keys_def)

lemma server_inv_step:
  assumes step: "server_step native strerror s s'" and inv: "server_inv native strerror port printed greeting s"
  shows "server_inv native strerror port printed greeting s'"
proof -
  have "list_all chunk_fits (chunks_of (heard s))"
    using heard_fits [of strerror port s] inv by (simp add: server_inv_def)
  then show ?thesis
    using inv main_step [OF step] queues_step [OF step] listener_link_step [OF step] parser_link_step [OF step]
      business_link_step [OF step] order_step [OF step] wake_step [OF step] leave_step [OF step] said_step [OF step]
    unfolding server_inv_def by metis
qed

lemma server_reachable:
  "(server_step native strerror)\<^sup>*\<^sup>* (start_server port lg greeting) s \<Longrightarrow>
   server_inv native strerror port (to_stdout lg) greeting s"
  by (induction rule: rtranclp_induct) (blast intro: start_inv server_inv_step)+

section \<open>Termination\<close>

fun listener_rank :: "listener_pc \<Rightarrow> nat" where
  "listener_rank L_start = 6"
| "listener_rank L_register = 5"
| "listener_rank L_wait = 4"
| "listener_rank (L_batch left) = 3"
| "listener_rank L_check = 2"
| "listener_rank L_return = 1"
| "listener_rank L_done = 0"
| "listener_rank L_crashed = 0"

fun parser_rank :: "parser_pc \<Rightarrow> nat" where
  "parser_rank P_start = 5"
| "parser_rank P_check = 4"
| "parser_rank P_pop = 3"
| "parser_rank (P_emit es) = 5 + length es"
| "parser_rank P_exit = 2"
| "parser_rank P_done = 0"
| "parser_rank P_crashed = 0"

fun business_rank :: "business_pc \<Rightarrow> nat" where
  "business_rank B_start = 5"
| "business_rank B_check = 4"
| "business_rank B_pop = 3"
| "business_rank (B_emit ms) = 5 + length ms"
| "business_rank B_exit = 2"
| "business_rank B_done = 0"

fun logger_rank :: "logger_pc \<Rightarrow> nat" where
  "logger_rank G_check = 3"
| "logger_rank G_pop = 2"
| "logger_rank G_drain = 1"
| "logger_rank G_done = 0"

fun batch_left :: "listener_pc \<Rightarrow> nat" where
  "batch_left (L_batch left) = length left"
| "batch_left _ = 0"

text \<open>
  Work moves downstream: each thread adds only to queues and counters later in this list than the
  one it takes from. The listener, once stopped, handles at most one more batch of events.
\<close>

definition work_left :: "(server \<times> server) set" where
  "work_left = measures
     [\<lambda>s. if g_shutdown_requested s then 0 else 1, \<lambda>s. 8 - past (main_at s),
      \<lambda>s. listener_rank (listener_at s), \<lambda>s. batch_left (listener_at s), \<lambda>s. length (listener_todo s),
      \<lambda>s. length (m_queue (raw_queue s)), \<lambda>s. parser_rank (parser_at s),
      \<lambda>s. length (m_queue (parsed_queue s)), \<lambda>s. business_rank (business_at s),
      \<lambda>s. length (m_queue (log_queue s)), \<lambda>s. logger_rank (logger_at s)]"

lemma wf_work_left: "wf work_left"
  by (simp add: work_left_def)

inductive worker_step :: "endian \<Rightarrow> server \<Rightarrow> server \<Rightarrow> bool" for native where
  parser: "parser_turn native s = Some s' \<Longrightarrow> \<not> terminated s \<Longrightarrow> worker_step native s s'"
| business: "business_turn now s = Some s' \<Longrightarrow> \<not> terminated s \<Longrightarrow> worker_step native s s'"
| logger: "logger_turn s = Some s' \<Longrightarrow> \<not> terminated s \<Longrightarrow> worker_step native s s'"

lemma parser_decreases: "parser_turn native s = Some s' \<Longrightarrow> (s', s) \<in> work_left"
  by (auto simp: parser_turn_def work_left_def push_parsed_def push_log_def Let_def tsq_pop_cases
      split: parser_pc.splits option.splits prod.splits list.splits effect.splits if_splits)

lemma business_decreases: "business_turn now s = Some s' \<Longrightarrow> (s', s) \<in> work_left"
  by (auto simp: business_turn_def work_left_def push_log_def tsq_pop_cases
      split: business_pc.splits option.splits prod.splits list.splits if_splits)

lemma logger_decreases: "logger_turn s = Some s' \<Longrightarrow> (s', s) \<in> work_left"
  by (auto simp: logger_turn_def work_left_def Let_def tsq_pop_cases
      split: logger_pc.splits option.splits prod.splits if_splits)

lemma main_decreases: "main_turn s = Some s' \<Longrightarrow> (s', s) \<in> work_left"
  by (cases "main_at s") (auto simp: main_turn_def work_left_def shutdown_waker_def split: if_splits)

text \<open>
  The exception: the accept or receive loop at the head of a batch goes on because the kernel gave it
  another connection or more bytes of its client.
\<close>

fun fed :: "int \<Rightarrow> listener_effect \<Rightarrow> bool" where
  "fed fd (Opened fd') = True"
| "fed fd (Enqueue c) = (client_id c = fd)"
| "fed fd _ = False"

definition feeds :: "server \<Rightarrow> server \<Rightarrow> bool" where
  "feeds s s' \<longleftrightarrow> listener_todo s = [] \<and>
     (\<exists>fd flags left. listener_at s = L_batch ((fd, flags) # left) \<and> listener_at s' = listener_at s \<and>
        (\<exists>e\<in>set (listener_todo s'). fed fd e))"

lemma accept_one_fed: "accept_one strerror l a = (True, l', out) \<Longrightarrow> \<exists>e\<in>set out. fed fd e"
  by (auto simp: accept_one_def Let_def split: if_splits option.splits prod.splits)

lemma handle_accept_fed:
  "handle_accept strerror l as = (False, l', out) \<Longrightarrow> out = [] \<or> (\<exists>e\<in>set out. fed fd e)"
  by (cases as) (auto simp: Let_def split: prod.splits if_splits dest: accept_one_fed [where fd = fd])

lemma handle_client_data_fed:
  "handle_client_data strerror l fd as = (Still_reading, l', out) \<Longrightarrow> out = [] \<or> (\<exists>e\<in>set out. fed fd e)"
  by (cases as) (auto simp: Let_def split: prod.splits if_splits)

lemma dispatch_event_fed:
  "dispatch_event strerror l ev = (Busy, l', out) \<Longrightarrow> out = [] \<or> (\<exists>e\<in>set out. fed (source_fd ev) e)"
  by (auto simp: dispatch_event_def split: if_splits prod.splits data_end.splits
      dest: handle_accept_fed [where fd = "source_fd ev"] handle_client_data_fed)

lemma length_unfinished: "length (unfinished strerror l evs) \<le> length evs"
proof (induction evs arbitrary: l)
  case (Cons ev evs)
  obtain r1 l1 out1 where "dispatch_event strerror l ev = (r1, l1, out1)" by (metis surj_pair)
  then show ?case using Cons.IH [of l1] by (cases r1) simp_all
qed simp

lemma dispatch_events_fed:
  assumes "dispatch_events strerror l evs = (Busy, l', out)" and "out \<noteq> []"
    and "length (unfinished strerror l evs) = length evs"
  obtains ev evs' where "evs = ev # evs'" "unfinished strerror l evs = map event_key evs"
    "\<exists>e\<in>set out. fed (source_fd ev) e"
proof (cases evs)
  case (Cons ev evs')
  obtain r1 l1 out1 where one: "dispatch_event strerror l ev = (r1, l1, out1)" by (metis surj_pair)
  have "r1 \<noteq> Next" using assms(3) one length_unfinished [of strerror l1 evs'] by (auto simp: Cons)
  then have "r1 = Busy" "out1 = out" "unfinished strerror l evs = map event_key evs"
    using assms(1) one by (auto simp: Cons split: dispatch.splits)
  then show thesis using that [OF Cons] dispatch_event_fed [of strerror l ev l1 out] one assms(2) by blast
qed (use assms(1) in simp)

lemma batch_decreases:
  assumes "listener_todo s = []" and at: "listener_at s = L_batch left" and "listener_turn strerror k s = Some s'"
    and "\<not> feeds s s'"
  shows "(s', s) \<in> work_left"
proof -
  obtain r l out where d: "dispatch_events strerror (the_listener s) (for_batch k) = (r, l, out)" by (metis surj_pair)
  let ?left = "unfinished strerror (the_listener s) (for_batch k)"
  have s': "s' = s\<lparr>the_listener := l, listener_todo := out, listener_at := after_dispatch r ?left\<rparr>"
    "map event_key (for_batch k) = left" "\<not> (r = Busy \<and> out = [])"
    using assms(1-3) d by (auto simp: listener_turn_def split: if_splits)
  have "length ?left < length (for_batch k)" if r: "r = Busy"
  proof (rule ccontr)
    assume "\<not> length ?left < length (for_batch k)"
    then have "length ?left = length (for_batch k)" using length_unfinished [of strerror "the_listener s" "for_batch k"] by simp
    then obtain ev evs' where ev: "for_batch k = ev # evs'" "?left = map event_key (for_batch k)"
        "\<exists>e\<in>set out. fed (source_fd ev) e"
      using dispatch_events_fed [OF d [unfolded r]] s'(3) r by metis
    have "listener_at s = L_batch ((source_fd ev, ev_flags ev) # map event_key evs')"
      using at s'(2) ev(1) by (simp add: event_key_def)
    moreover have "listener_at s' = listener_at s" "listener_todo s' = out"
      using at s'(2) ev(2) r unfolding s'(1) by simp_all
    ultimately have "feeds s s'" using assms(1) ev(3) unfolding feeds_def by blast
    then show False using assms(4) by simp
  qed
  then show ?thesis using at s'(2) by (cases r) (auto simp: s'(1) work_left_def)
qed

lemma listener_decreases:
  assumes turn: "listener_turn strerror k s = Some s'" and "listener_stop s" and "\<not> feeds s s'"
  shows "(s', s) \<in> work_left"
proof (cases "listener_todo s")
  case Nil
  then show ?thesis using assms batch_decreases [OF Nil _ turn]
    by (cases "listener_at s")
      (auto simp: listener_turn_def work_left_def shutdown_waker_def after_dispatch_def
        split: prod.splits if_splits dispatch.splits)
next
  case (Cons e todo)
  then show ?thesis using listener_perform_turn [OF Cons turn] by (simp add: work_left_def)
qed

lemma step_decreases:
  assumes "server_step native strerror s s'" and "listener_stop s" and "\<not> feeds s s'"
  shows "(s', s) \<in> work_left"
  using assms
proof (induction rule: server_step.induct)
  case (sigint s)
  then show ?case by (simp add: work_left_def signal_handler_def)
qed (blast intro: listener_decreases parser_decreases business_decreases logger_decreases main_decreases)+

lemma stop_persists: "server_step native strerror s s' \<Longrightarrow> listener_stop s \<Longrightarrow> listener_stop s'"
proof (induction rule: server_step.induct)
  case (main s s')
  then show ?case by (auto simp: main_turn_def shutdown_waker_def split: main_pc.splits if_splits)
qed (simp_all add: signal_handler_def listener_turn_frame(2) [unfolded same_stops_def]
    parser_turn_frame(2) [unfolded same_stops_def] business_turn_frame(2) [unfolded same_stops_def]
    logger_turn_frame(2) [unfolded same_stops_def])

interpretation stopping:
  decreasing_system "\<lambda>s s'. server_step native strerror s s' \<and> listener_stop s \<and> \<not> feeds s s'" work_left
  by unfold_locales (use wf_work_left step_decreases in blast)+

interpretation workers: decreasing_system "worker_step native" work_left
  by unfold_locales
    (use wf_work_left parser_decreases business_decreases logger_decreases in \<open>auto elim: worker_step.cases\<close>)

text \<open>The listener's position once it was told to stop: it changes only downwards.\<close>

definition position_less :: "(listener_pc \<times> listener_pc) set" where
  "position_less = measures [listener_rank, batch_left]"

lemma position_step:
  assumes "server_step native strerror s s'" and "listener_stop s" and "listener_at s' \<noteq> listener_at s"
  shows "(listener_at s', listener_at s) \<in> position_less"
  using assms
proof (induction rule: server_step.induct)
  case (listener k s s')
  then have todo: "listener_todo s = []" using listener_perform_turn [OF _ listener(1)] by (cases "listener_todo s") auto
  have "\<not> feeds s s'" using listener(4) by (auto simp: feeds_def)
  then have "(s', s) \<in> work_left" using listener_decreases listener(1,3) by blast
  then show ?case
    using listener_act_frame [OF todo listener(1)] todo by (simp add: work_left_def position_less_def frames)
qed (auto dest: parser_turn_frame(1) business_turn_frame(1) logger_turn_frame(1) main_turn_frame(1)
    simp: same_listener_def signal_handler_def)

text \<open>
  A run that goes on for ever after the stop request has come to one accept or receive loop, which the
  kernel feeds again and again.
\<close>

lemma infinite_shutdown:
  assumes "listener_stop (f 0)" and step: "\<And>i. server_step native strerror (f i) (f (Suc i))"
  shows "\<exists>n fd flags left. (\<forall>i. listener_at (f (n + i)) = L_batch ((fd, flags) # left)) \<and>
    (\<exists>\<^sub>\<infinity>i. feeds (f i) (f (Suc i)))"
proof -
  have stop: "listener_stop (f i)" for i
    by (induction i) (use assms(1) stop_persists [OF step] in simp_all)
  have often: "\<exists>\<^sub>\<infinity>i. feeds (f i) (f (Suc i))"
  proof (rule ccontr)
    assume "\<not> (\<exists>\<^sub>\<infinity>i. feeds (f i) (f (Suc i)))"
    then obtain m where m: "\<And>i. m \<le> i \<Longrightarrow> \<not> feeds (f i) (f (Suc i))"
      unfolding INFM_nat_le by blast
    have "\<exists>g. g 0 = f m \<and> (\<forall>i. server_step native strerror (g i) (g (Suc i)) \<and> listener_stop (g i) \<and>
        \<not> feeds (g i) (g (Suc i)))"
      using step stop m by (intro exI [of _ "\<lambda>i. f (m + i)"]) simp
    then show False using stopping.no_infinite_run [of "f m" native strerror] by blast
  qed
  have "wf position_less" by (simp add: position_less_def)
  then obtain n where n: "\<And>y. (y, listener_at (f n)) \<in> position_less \<Longrightarrow> y \<notin> range (\<lambda>i. listener_at (f i))"
    using wfE_min [of position_less _ "range (\<lambda>i. listener_at (f i))"] by (metis (no_types, lifting) imageE rangeI)
  have same: "listener_at (f (n + i)) = listener_at (f n)" for i
  proof (induction i)
    case (Suc i)
    then show ?case using position_step [OF step stop, of "n + i"] n by (metis add_Suc_right rangeI)
  qed simp
  obtain j where "n \<le> j" "feeds (f j) (f (Suc j))" using often unfolding INFM_nat_le by blast
  then obtain fd flags left where "listener_at (f n) = L_batch ((fd, flags) # left)"
    using same [of "j - n"] by (auto simp: feeds_def)
  then show ?thesis using same often by auto
qed

section \<open>Progress\<close>

lemma queues_unbounded:
  "server_inv native strerror port printed greeting s \<Longrightarrow>
   m_max_size (raw_queue s) = 0 \<and> m_max_size (parsed_queue s) = 0 \<and> m_max_size (log_queue s) = 0"
  by (simp add: server_inv_def queues_inv_def)

lemma listener_performs:
  assumes "listener_todo s = e # todo" and "m_max_size (raw_queue s) = 0" and "m_max_size (log_queue s) = 0"
  shows "\<exists>s'. listener_turn strerror k s = Some s'"
  using assms by (auto simp: listener_turn_def listener_perform_def pushes split: listener_effect.split)

lemma parser_progress:
  assumes "server_inv native strerror port printed greeting s"
  shows "parser_turn native s = None \<longleftrightarrow>
    parser_at s = P_done \<or> parser_at s = P_pop \<and> m_queue (raw_queue s) = [] \<and> \<not> parser_stop s"
  using queues_unbounded [OF assms] assms
  by (auto simp: parser_turn_def pushes tsq_pop_cases server_inv_def parser_link_def Let_def
      split: parser_pc.split list.split effect.split option.split prod.split)

lemma business_progress:
  assumes "server_inv native strerror port printed greeting s"
  shows "business_turn now s = None \<longleftrightarrow>
    business_at s = B_done \<or> business_at s = B_pop \<and> m_queue (parsed_queue s) = [] \<and> \<not> business_stop s"
  using queues_unbounded [OF assms]
  by (auto simp: business_turn_def pushes tsq_pop_cases
      split: business_pc.split list.split option.split prod.split)

lemma logger_progress:
  "logger_turn s = None \<longleftrightarrow>
     logger_at s = G_done \<or> logger_at s = G_pop \<and> m_queue (log_queue s) = [] \<and> \<not> logger_stop s"
  by (auto simp: logger_turn_def Let_def tsq_pop_cases
      split: logger_pc.split option.split prod.split)

lemma main_progress:
  "main_turn s = None \<longleftrightarrow>
     (case main_at s of M_wait \<Rightarrow> \<not> g_shutdown_requested s | M_join_listener \<Rightarrow> listener_at s \<noteq> L_done
      | M_join_parser \<Rightarrow> parser_at s \<noteq> P_done | M_join_business \<Rightarrow> business_at s \<noteq> B_done
      | M_join_logger \<Rightarrow> logger_at s \<noteq> G_done | M_done \<Rightarrow> True | _ \<Rightarrow> False)"
  by (simp add: main_turn_def split: main_pc.split)

text \<open>
  A step for which nothing has to happen on the network: \<open>epoll_wait\<close> reports at most the eventfd, \<open>accept\<close>
  and \<open>recv\<close> say that there is nothing.
\<close>

definition wake_only :: "server \<Rightarrow> kernel \<Rightarrow> bool" where
  "wake_only s k \<longleftrightarrow>
     (case for_wait k of
        Wait_error err \<Rightarrow> False
      | Events evs \<Rightarrow> list_all (\<lambda>ev. source_fd ev = sh_get (m_event_fd (the_listener s))) evs) \<and>
     list_all (\<lambda>ev. list_all (\<lambda>a. a_accept a = (- 1, EAGAIN)) (ev_accepts ev) \<and>
       list_all (\<lambda>a. a_recv a = (- 1, EAGAIN)) (ev_recvs ev)) (for_batch k)"

inductive silent_step :: "endian \<Rightarrow> (nat \<Rightarrow> string) \<Rightarrow> server \<Rightarrow> server \<Rightarrow> bool" for native strerror where
  listener: "wake_only s k \<Longrightarrow> listener_turn strerror k s = Some s' \<Longrightarrow> \<not> terminated s \<Longrightarrow> silent_step native strerror s s'"
| parser: "parser_turn native s = Some s' \<Longrightarrow> \<not> terminated s \<Longrightarrow> silent_step native strerror s s'"
| business: "business_turn now s = Some s' \<Longrightarrow> \<not> terminated s \<Longrightarrow> silent_step native strerror s s'"
| logger: "logger_turn s = Some s' \<Longrightarrow> \<not> terminated s \<Longrightarrow> silent_step native strerror s s'"
| main: "main_turn s = Some s' \<Longrightarrow> \<not> terminated s \<Longrightarrow> silent_step native strerror s s'"

lemma silent_step_server: "silent_step native strerror s s' \<Longrightarrow> server_step native strerror s s'"
  by (induction rule: silent_step.induct) (blast intro: server_step.intros)+

text \<open>
  The kernel's answers in a setup that succeeds, an event of the eventfd, and for the rest of a batch
  that there is nothing more.
\<close>

definition quiet_event :: "int \<times> u32 \<Rightarrow> event" where
  "quiet_event key = \<lparr>source_fd = fst key, ev_flags = snd key,
     ev_accepts = [\<lparr>a_accept = (- 1, EAGAIN), ac_getfl = (0, 0), ac_setfl = (0, 0), a_add_client = (0, 0), addr_str = []\<rparr>],
     ev_recvs = [\<lparr>a_recv = (- 1, EAGAIN), recv_bytes = []\<rparr>]\<rparr>"

lemma event_key_quiet [simp]: "event_key (quiet_event key) = key"
  by (simp add: event_key_def quiet_event_def)

definition waking_kernel :: "server \<Rightarrow> kernel" where
  "waking_kernel s =
     \<lparr>for_server = kernel_server, for_epoll = kernel_epoll,
      for_wait = Events [\<lparr>source_fd = sh_get (m_event_fd (the_listener s)), ev_flags = 1, ev_accepts = [], ev_recvs = []\<rparr>],
      for_batch = (case listener_at s of L_batch left \<Rightarrow> map quiet_event left | _ \<Rightarrow> [])\<rparr>"

lemma waking_kernel_wakes: "wake_only s (waking_kernel s)"
  by (cases "listener_at s") (simp_all add: wake_only_def waking_kernel_def list_all_iff quiet_event_def)

lemma quiet_event_ends: "fst (dispatch_event strerror l (quiet_event key)) \<in> {Next, Leave}"
  by (simp add: dispatch_event_def quiet_event_def accept_one_def Let_def split: prod.split)

lemma quiet_batch_ends: "fst (dispatch_events strerror l (map quiet_event left)) \<in> {Next, Leave}"
proof (induction left arbitrary: l)
  case (Cons key left)
  obtain r l1 out where one: "dispatch_event strerror l (quiet_event key) = (r, l1, out)" by (metis surj_pair)
  then have "r \<in> {Next, Leave}" using quiet_event_ends [of strerror l key] by simp
  then show ?case using one Cons.IH [of l1] by (auto split: prod.splits)
qed simp

lemma quiet_batch:
  assumes "listener_todo s = []" and "listener_at s = L_batch left"
  shows "\<exists>s'. listener_turn strerror (waking_kernel s) s = Some s' \<and> listener_at s' \<in> {L_check, L_return}"
proof -
  obtain r l out where d: "dispatch_events strerror (the_listener s) (map quiet_event left) = (r, l, out)"
    by (metis surj_pair)
  then have "r = Next \<or> r = Leave" using quiet_batch_ends [of strerror "the_listener s" left] by auto
  then show ?thesis using assms d by (auto simp: listener_turn_def waking_kernel_def comp_def)
qed

lemma listener_progress:
  assumes inv: "server_inv native strerror port printed greeting s"
    and at: "listener_at s \<noteq> L_done" "listener_at s \<noteq> L_crashed"
    and wait: "listener_at s = L_wait \<Longrightarrow> 0 < event_count s"
  shows "\<exists>s'. listener_turn strerror (waking_kernel s) s = Some s' \<and>
    (listener_at s \<noteq> L_start \<longrightarrow> listener_at s' \<notin> {L_start, L_crashed}) \<and> \<not> feeds s s'"
proof (cases "listener_todo s")
  case Nil
  show ?thesis
  proof (cases "\<exists>left. listener_at s = L_batch left")
    case True
    then show ?thesis using quiet_batch [OF Nil] by (fastforce simp: feeds_def)
  next
    case False
    then show ?thesis using Nil at wait
      by (cases "listener_at s")
        (simp_all add: listener_turn_def epoll_allows_def waking_kernel_def listener_body_def dispatch_event_def
          shutdown_waker_def feeds_def MAX_EPOLL_EVENTS_def split: prod.split)
  qed
next
  case (Cons e todo)
  obtain s' where turn: "listener_turn strerror (waking_kernel s) s = Some s'"
    using listener_performs [OF Cons] queues_unbounded [OF inv] by blast
  moreover have "listener_at s' = listener_at s" using listener_perform_turn [OF Cons turn] by simp
  ultimately show ?thesis using at(2) Cons by (auto simp: feeds_def)
qed

lemma server_progress:
  assumes inv: "server_inv native strerror port printed greeting s" and "g_shutdown_requested s"
    and "main_at s \<noteq> M_done" and "listener_at s \<noteq> L_crashed"
  shows "\<exists>s'. silent_step native strerror s s' \<and>
    (listener_at s \<noteq> L_start \<longrightarrow> listener_at s' \<notin> {L_start, L_crashed}) \<and> \<not> feeds s s'"
proof -
  have order: "flags_inv s" "joined_inv s" and wake: "wake_inv s" and up: "\<not> terminated s"
    using inv assms(4) by (simp_all add: server_inv_def order_inv_def parser_link_def terminated_def)
  have other: ?thesis if "silent_step native strerror s s'" "same_listener s s'" for s'
    using that assms(4) by (intro exI [of _ s']) (auto simp: same_listener_def feeds_def)
  consider (main) "main_turn s \<noteq> None" | (listener) "main_at s = M_join_listener" "listener_at s \<noteq> L_done"
    | (parser) "main_at s = M_join_parser" "parser_at s \<noteq> P_done"
    | (business) "main_at s = M_join_business" "business_at s \<noteq> B_done"
    | (logger) "main_at s = M_join_logger" "logger_at s \<noteq> G_done"
    using assms(2,3) main_progress [of s] by (cases "main_at s") (simp_all, blast+)
  then show ?thesis
  proof cases
    case main
    then obtain s' where "main_turn s = Some s'" by blast
    then show ?thesis using other main_turn_frame(1) silent_step.main up by blast
  next
    case listener
    then obtain s' where "listener_turn strerror (waking_kernel s) s = Some s'"
        "listener_at s \<noteq> L_start \<longrightarrow> listener_at s' \<notin> {L_start, L_crashed}" "\<not> feeds s s'"
      using listener_progress [OF inv _ assms(4)] wake by (auto simp: wake_inv_def)
    then show ?thesis using silent_step.listener [OF waking_kernel_wakes _ up] by blast
  next
    case parser
    then obtain s' where "parser_turn native s = Some s'"
      using parser_progress [OF inv] order by (fastforce simp: flags_inv_def)
    then show ?thesis using other parser_turn_frame(1) silent_step.parser up by blast
  next
    case business
    then obtain s' where "business_turn 0 s = Some s'"
      using business_progress [OF inv, of 0] order by (fastforce simp: flags_inv_def)
    then show ?thesis using other business_turn_frame(1) silent_step.business up by blast
  next
    case logger
    then obtain s' where "logger_turn s = Some s'"
      using logger_progress [of s] order by (fastforce simp: flags_inv_def)
    then show ?thesis using other logger_turn_frame(1) silent_step.logger up by blast
  qed
qed

section \<open>Runs\<close>

lemma reaches_exit:
  assumes "(server_step native strerror)\<^sup>*\<^sup>* (start_server port lg greeting) s"
    and "listener_stop s" and "listener_at s \<notin> {L_start, L_crashed}"
  shows "\<exists>s'. (server_step native strerror)\<^sup>*\<^sup>* s s' \<and> main_at s' = M_done"
proof -
  let ?start = "start_server port lg greeting"
  let ?P = "\<lambda>s. (server_step native strerror)\<^sup>*\<^sup>* ?start s \<and> listener_stop s \<and> listener_at s \<notin> {L_start, L_crashed}"
  let ?step = "\<lambda>s s'. server_step native strerror s s' \<and> listener_stop s \<and> \<not> feeds s s'"
  have "\<exists>s'. ?step s s' \<and> ?P s'" if P: "?P s" and "main_at s \<noteq> M_done" for s
  proof -
    have inv: "server_inv native strerror port (to_stdout lg) greeting s" using P server_reachable by blast
    then have "g_shutdown_requested s" using P by (auto simp: server_inv_def order_inv_def flags_inv_def)
    then obtain s' where "silent_step native strerror s s'" "listener_at s' \<notin> {L_start, L_crashed}" "\<not> feeds s s'"
      using server_progress [OF inv] P \<open>main_at s \<noteq> M_done\<close> by fastforce
    then show ?thesis
      using P silent_step_server stop_persists by (metis rtranclp.rtrancl_into_rtrancl)
  qed
  then obtain s' where "?step\<^sup>*\<^sup>* s s'" "main_at s' = M_done"
    using stopping.reaches [of ?P s "\<lambda>s. main_at s = M_done" native strerror] assms by blast
  then show ?thesis using rtranclp_mono [of ?step "server_step native strerror"] by blast
qed

lemma worker_step_server: "worker_step native s s' \<Longrightarrow> server_step native strerror s s'"
  by (induction rule: worker_step.induct) (blast intro: server_step.intros)+

lemma worker_step_frame: "worker_step native s s' \<Longrightarrow> same_listener s s' \<and> same_stops s s'"
  by (induction rule: worker_step.induct)
    (blast dest: parser_turn_frame(1,2) business_turn_frame(1,2) logger_turn_frame(1,2))+

text \<open>No thread can go on by itself, and the listener waits for the network.\<close>

definition idle :: "endian \<Rightarrow> server \<Rightarrow> bool" where
  "idle native s \<longleftrightarrow> listener_at s = L_wait \<and> listener_todo s = [] \<and> parser_turn native s = None \<and>
     (\<forall>now. business_turn now s = None) \<and> logger_turn s = None"

lemma workers_reach_idle:
  assumes "listener_at s = L_wait" and "listener_todo s = []" and inv: "server_inv native strerror port printed greeting s"
  shows "\<exists>s'. (worker_step native)\<^sup>*\<^sup>* s s' \<and> same_listener s s' \<and> same_stops s s' \<and> idle native s'"
proof -
  let ?P = "\<lambda>s'. same_listener s s' \<and> same_stops s s' \<and> server_inv native strerror port printed greeting s'"
  have "\<exists>s2. worker_step native s1 s2 \<and> ?P s2" if P: "?P s1" and busy: "\<not> idle native s1" for s1
  proof -
    have "listener_at s1 = L_wait" "listener_todo s1 = []" using P assms(1,2) by (simp_all add: same_listener_def)
    moreover from this have "\<not> terminated s1" using P by (simp add: terminated_def server_inv_def parser_link_def)
    ultimately obtain s2 where step: "worker_step native s1 s2"
      using busy unfolding idle_def by (auto intro: worker_step.intros simp: not_None_eq)
    have "same_listener s s2 \<and> same_stops s s2" using P worker_step_frame [OF step] by (simp add: frames)
    then show ?thesis using P step server_inv_step [OF worker_step_server [OF step]] by blast
  qed
  then show ?thesis
    using workers.reaches [of ?P s "idle native" native] inv by (auto simp: frames)
qed

lemma reaches_idle:
  assumes "listener_at s = L_wait" and "listener_todo s = []" and "server_inv native strerror port printed greeting s"
  shows "\<exists>s'. (server_step native strerror)\<^sup>*\<^sup>* s s' \<and> same_listener s s' \<and> same_stops s s' \<and> idle native s'"
  using workers_reach_idle [OF assms] worker_step_server
    rtranclp_mono [of "worker_step native" "server_step native strerror"]
  by blast

text \<open>The listener can perform what it has to do while the other threads stand still.\<close>

definition only_listener :: "server \<Rightarrow> server \<Rightarrow> bool" where
  "only_listener s s' \<longleftrightarrow> same_workers s s' \<and> same_stops s s' \<and>
     m_max_size (raw_queue s') = m_max_size (raw_queue s) \<and> m_max_size (log_queue s') = m_max_size (log_queue s)"

lemma only_listener_refl: "only_listener s s"
  by (simp add: only_listener_def frames)

lemma only_listener_trans: "only_listener s s' \<Longrightarrow> only_listener s' s'' \<Longrightarrow> only_listener s s''"
  by (simp add: only_listener_def frames)

lemma only_listener_turn: "listener_turn strerror k s = Some s' \<Longrightarrow> only_listener s s'"
  using listener_turn_frame(1,2) [of strerror k s s'] listener_act_frame(3,4) [of s strerror k s']
    listener_perform_turn [of s _ _ strerror k s']
  by (cases "listener_todo s") (simp_all add: only_listener_def)

definition performs :: "(nat \<Rightarrow> string) \<Rightarrow> server \<Rightarrow> server \<Rightarrow> bool" where
  "performs strerror s s' \<longleftrightarrow> listener_todo s \<noteq> [] \<and> parser_at s \<noteq> P_crashed \<and> (\<exists>k. listener_turn strerror k s = Some s')"

lemma listener_performs_all:
  assumes "m_max_size (raw_queue s) = 0" and "m_max_size (log_queue s) = 0" and "parser_at s \<noteq> P_crashed"
  shows "\<exists>s'. (performs strerror)\<^sup>*\<^sup>* s s' \<and> only_listener s s' \<and> listener_todo s' = [] \<and>
    heard s' = heard s @ listener_todo s \<and> the_listener s' = the_listener s \<and> listener_at s' = listener_at s \<and>
    waker_registered s' = waker_registered s"
  using assms
proof (induction "listener_todo s" arbitrary: s)
  case Nil
  then show ?case by (intro exI [of _ s]) (simp add: only_listener_refl)
next
  case (Cons e todo)
  obtain s1 where turn: "listener_turn strerror undefined s = Some s1"
    using listener_performs [OF Cons.hyps(2) [symmetric]] Cons.prems by blast
  have s1: "listener_todo s1 = todo" "heard s1 = heard s @ [e]" "the_listener s1 = the_listener s"
    "listener_at s1 = listener_at s" "waker_registered s1 = waker_registered s"
    using listener_perform_turn [OF Cons.hyps(2) [symmetric] turn] by simp_all
  have step: "performs strerror s s1" using turn Cons.hyps(2) Cons.prems(3) unfolding performs_def by (metis list.discI)
  have only: "only_listener s s1" using only_listener_turn [OF turn] .
  then have "m_max_size (raw_queue s1) = 0" "m_max_size (log_queue s1) = 0" "parser_at s1 \<noteq> P_crashed"
    using Cons.prems by (simp_all add: only_listener_def same_workers_def)
  from Cons.hyps(1) [OF s1(1) [symmetric] this] obtain s' where s':
    "(performs strerror)\<^sup>*\<^sup>* s1 s'" "only_listener s1 s'" "listener_todo s' = []"
    "heard s' = heard s1 @ listener_todo s1" "the_listener s' = the_listener s1" "listener_at s' = listener_at s1"
    "waker_registered s' = waker_registered s1" by blast
  then show ?case
    using s1 converse_rtranclp_into_rtranclp [of "performs strerror", OF _ s'(1)] step
      only_listener_trans [OF only s'(2)] Cons.hyps(2) by (intro exI [of _ s']) simp
qed

lemma listener_empties:
  assumes "m_max_size (raw_queue s) = 0" and "m_max_size (log_queue s) = 0" and "parser_at s \<noteq> P_crashed"
  shows "\<exists>s'. (server_step native strerror)\<^sup>*\<^sup>* s s' \<and> only_listener s s' \<and> listener_todo s' = [] \<and>
    heard s' = heard s @ listener_todo s \<and> the_listener s' = the_listener s \<and> listener_at s' = listener_at s \<and>
    waker_registered s' = waker_registered s"
proof -
  have "performs strerror \<le> server_step native strerror"
    using server_step.listener unfolding performs_def terminated_def by blast
  then show ?thesis
    using listener_performs_all [OF assms, of strerror] rtranclp_mono [of "performs strerror"] by blast
qed

text \<open>Answers of \<open>epoll_wait\<close> that report something, as much as fits.\<close>

definition reports :: "wait_answer \<Rightarrow> bool" where
  "reports w = (case w of Wait_error err \<Rightarrow> True | Events evs \<Rightarrow> evs \<noteq> [] \<and> length evs \<le> MAX_EPOLL_EVENTS)"

lemma dispatch_events_Next:
  "dispatch_events strerror l evs = (Next, l', out) \<Longrightarrow>
   list_all (\<lambda>ev. source_fd ev \<noteq> sh_get (m_event_fd l)) evs"
proof (induction evs arbitrary: l l' out)
  case (Cons ev evs)
  obtain r1 l1 out1 where one: "dispatch_event strerror l ev = (r1, l1, out1)"
    by (cases "dispatch_event strerror l ev") auto
  have "r1 = Next" using Cons.prems one by (auto split: dispatch.splits prod.splits)
  then have "source_fd ev \<noteq> sh_get (m_event_fd l)" using one by (auto simp: dispatch_event_def)
  then show ?case
    using Cons.prems Cons.IH [of l1] one dispatch_event_Leave(1) [OF one]
    by (auto split: dispatch.splits prod.splits)
qed simp

lemma reports_allowed:
  "reports w \<Longrightarrow> listener_body strerror (the_listener s) w = (Next, l, out) \<Longrightarrow> epoll_allows s w"
  using dispatch_events_Next [of strerror "the_listener s"]
  by (auto simp: epoll_allows_def reports_def listener_body_def list_all_iff split: wait_answer.splits prod.splits)

lemma listener_loops:
  assumes "listener_at s = L_check" and "listener_todo s = []" and "\<not> listener_stop s"
    and "m_max_size (raw_queue s) = 0 \<and> m_max_size (log_queue s) = 0" and "parser_at s \<noteq> P_crashed"
    and "list_all reports ws" and "completed strerror (the_listener s) ws = Some (l, out)"
  shows "\<exists>s'. (server_step native strerror)\<^sup>*\<^sup>* s s' \<and> only_listener s s' \<and> listener_todo s' = [] \<and>
    heard s' = heard s @ out \<and> the_listener s' = l \<and> listener_at s' = L_check"
  using assms
proof (induction ws arbitrary: s out)
  case Nil
  then show ?case by (intro exI [of _ s]) (simp add: only_listener_refl)
next
  case (Cons w ws)
  obtain l1 out1 out2 where body: "listener_body strerror (the_listener s) w = (Next, l1, out1)"
    and rest: "completed strerror l1 ws = Some (l, out2)" and out: "out = out1 @ out2"
    using Cons.prems(7) by (auto split: prod.splits dispatch.splits)
  let ?k = "(undefined :: kernel)\<lparr>for_wait := w\<rparr>" and ?s1 = "s\<lparr>listener_at := L_wait\<rparr>"
  let ?s2 = "?s1\<lparr>the_listener := l1, listener_todo := out1, listener_at := L_check\<rparr>"
  have "epoll_allows ?s1 w" using reports_allowed [of w strerror ?s1 l1 out1] Cons.prems(6) body by simp
  then have t: "listener_turn strerror ?k s = Some ?s1" "listener_turn strerror ?k ?s1 = Some ?s2"
    using Cons.prems(1-3) body by (simp_all add: listener_turn_def)
  have up: "\<not> terminated s" "\<not> terminated ?s1" using Cons.prems(1,5) by (simp_all add: terminated_def)
  have only: "only_listener s ?s2" by (simp add: only_listener_def frames)
  obtain s3 where s3: "(server_step native strerror)\<^sup>*\<^sup>* ?s2 s3" "only_listener ?s2 s3" "listener_todo s3 = []"
    "heard s3 = heard s @ out1" "the_listener s3 = l1" "listener_at s3 = L_check"
    using listener_empties [of ?s2 native strerror] Cons.prems(4,5) by auto
  have "\<not> listener_stop s3" "m_max_size (raw_queue s3) = 0" "m_max_size (log_queue s3) = 0" "parser_at s3 \<noteq> P_crashed"
    using s3(2) Cons.prems(3-5) by (simp_all add: only_listener_def same_stops_def same_workers_def)
  then obtain s' where s': "(server_step native strerror)\<^sup>*\<^sup>* s3 s'" "only_listener s3 s'" "listener_todo s' = []"
    "heard s' = heard s3 @ out2" "the_listener s' = l" "listener_at s' = L_check"
    using Cons.IH [of s3 out2] s3 rest Cons.prems(6) by auto
  have "(server_step native strerror)\<^sup>*\<^sup>* s s'"
    using t up s3(1) s'(1)
    by (meson server_step.listener converse_rtranclp_into_rtranclp rtranclp_trans)
  then show ?case
    using s' s3(4) out only_listener_trans [OF only only_listener_trans [OF s3(2) s'(2)]] by (intro exI [of _ s']) simp
qed

text \<open>
  A kernel in whose setup no call fails and whose next answers \<open>ws\<close> keep the loop going leads to a
  state in which the listener has performed everything and the other threads have not begun.
\<close>

lemma listener_reaches:
  assumes ready: "listener_setup strerror sa ea (NetworkListener_ctor port) = (None, l0, out0)"
    and "list_all reports ws" and "completed strerror l0 ws = Some (l, out1)"
  shows "\<exists>s. (server_step native strerror)\<^sup>*\<^sup>* (start_server port lg greeting) s \<and>
    only_listener (start_server port lg greeting) s \<and> listener_todo s = [] \<and> listener_at s = L_check \<and>
    heard s = out0 @ out1 \<and> the_listener s = l"
proof -
  let ?s = "start_server port lg greeting" and ?k = "(undefined :: kernel)\<lparr>for_server := sa, for_epoll := ea\<rparr>"
  let ?s1 = "?s\<lparr>the_listener := l0, listener_todo := out0, listener_at := L_register\<rparr>"
  have 1: "listener_turn strerror ?k ?s = Some ?s1"
    using ready by (simp add: listener_turn_def start_server_def)
  obtain s2 where s2: "(server_step native strerror)\<^sup>*\<^sup>* ?s1 s2" "only_listener ?s1 s2" "listener_todo s2 = []"
    "heard s2 = out0" "the_listener s2 = l0" "listener_at s2 = L_register"
    using listener_empties [of ?s1 native strerror] by (auto simp: start_server_def ThreadSafeQueue_ctor_def)
  let ?s3 = "s2\<lparr>listener_at := L_check, waker_registered := True\<rparr>"
  have run: "\<not> listener_stop s2" "m_max_size (raw_queue s2) = 0" "m_max_size (log_queue s2) = 0" "parser_at s2 \<noteq> P_crashed"
    using s2(2) by (simp_all add: only_listener_def frames start_server_def ThreadSafeQueue_ctor_def)
  have up: "\<not> terminated ?s" "\<not> terminated s2" using s2(6) run(4) by (simp_all add: terminated_def start_server_def)
  have 3: "listener_turn strerror ?k s2 = Some ?s3" using s2 run by (simp add: listener_turn_def)
  obtain s where s: "(server_step native strerror)\<^sup>*\<^sup>* ?s3 s" "only_listener ?s3 s" "listener_todo s = []"
    "heard s = out0 @ out1" "the_listener s = l" "listener_at s = L_check"
    using listener_loops [of ?s3 ws strerror l out1 native] s2 run assms(2,3) by auto
  have "server_step native strerror ?s ?s1" "server_step native strerror s2 ?s3"
    using server_step.listener [OF 1 up(1)] server_step.listener [OF 3 up(2)] by blast+
  then have "(server_step native strerror)\<^sup>*\<^sup>* ?s s"
    using s2(1) s(1) by (meson converse_rtranclp_into_rtranclp rtranclp_trans)
  moreover have "only_listener ?s s"
    using s(2) s2(2) by (simp add: only_listener_def frames start_server_def)
  ultimately show ?thesis using s by blast
qed

end
