(* ===== verification/Server_Properties.thy ===== *)
theory Server_Properties
  imports Pipeline_Reachable
begin

text \<open>
  What the whole program promises under every interleaving of its threads: the drone table follows
  the bytes that the clients sent, an idle server has processed and logged everything, the threads
  stay up until they are told to stop, a shutdown comes to its end unless a client feeds the listener
  for ever, and what is lost at exit and what is not.
\<close>

section \<open>From the invariants to the specification\<close>

text \<open>The effects that the stream specification prescribes for a sequence of chunks.\<close>

definition spec_effects :: "DataChunk list \<Rightarrow> effect list" where
  "spec_effects chunks = concat (map snd (snd (run_steps stream_step (Map.empty, 0) chunks)))"

definition spec_failures :: "DataChunk list \<Rightarrow> u64" where
  "spec_failures chunks = snd (fst (run_steps stream_step (Map.empty, 0) chunks))"

lemma chunks_out_take:
  assumes "server_inv native strerror port printed greeting s"
  shows "chunks_out s = take (length (chunks_out s)) (chunks_of (heard s))"
  using assms by (simp add: server_inv_def queues_inv_def)

lemma chunks_out_fit:
  assumes inv: "server_inv native strerror port printed greeting s"
  shows "list_all chunk_fits (chunks_out s)"
  using heard_fits [of strerror port s] inv by (simp add: server_inv_def queues_inv_def)

lemma parser_link_spec:
  assumes inv: "server_inv native strerror port printed greeting s"
  shows "performed s @ pending (parser_at s) = spec_effects (chunks_out s)"
    and "m_crc_failures (the_parser s) = spec_failures (chunks_out s)"
proof -
  have link: "the_parser s = after_chunks native (chunks_out s)"
    "performed s @ pending (parser_at s) =
       concat (map snd (snd (run_steps (parser_step native) initial_parser (chunks_out s))))"
    using inv by (simp_all add: server_inv_def parser_link_def after_chunks_def)
  have "run_steps stream_step (Map.empty, 0) (chunks_out s) =
      (parser_abs (after_chunks native (chunks_out s)),
       snd (run_steps (parser_step native) initial_parser (chunks_out s)))"
    using srv.run_abs [OF initial_parser_inv chunks_out_fit [OF inv], of native] by (simp add: after_chunks_def)
  then show "performed s @ pending (parser_at s) = spec_effects (chunks_out s)"
    "m_crc_failures (the_parser s) = spec_failures (chunks_out s)"
    using link by (simp_all add: spec_effects_def spec_failures_def parser_abs_def)
qed

lemma packets_out_spec:
  assumes inv: "server_inv native strerror port printed greeting s"
  shows "packets_of (spec_effects (chunks_out s)) =
    packets_out s @ m_queue (parsed_queue s) @ packets_of (pending (parser_at s))"
proof -
  have "packets_of (performed s) = packets_out s @ m_queue (parsed_queue s)"
    using inv by (simp add: server_inv_def queues_inv_def)
  then show ?thesis by (simp flip: parser_link_spec(1) [OF inv])
qed

lemma at_exit:
  assumes inv: "server_inv native strerror port printed greeting s" and "main_at s = M_done"
  shows "chunks_of (heard s) = chunks_out s @ m_queue (raw_queue s)"
    and "packets_of (spec_effects (chunks_out s)) = packets_out s @ m_queue (parsed_queue s)"
    and "listener_at s = L_done" and "listener_todo s = []" and "parser_at s = P_done"
    and "business_at s = B_done" and "m_queue (log_queue s) = []"
proof -
  show at: "parser_at s = P_done" "listener_at s = L_done" "business_at s = B_done"
    using inv assms(2) by (simp_all add: server_inv_def order_inv_def joined_inv_def)
  have "logger_at s = G_done" using inv assms(2) by (simp add: server_inv_def order_inv_def joined_inv_def)
  then show "listener_todo s = []" "m_queue (log_queue s) = []"
    using inv at by (simp_all add: server_inv_def order_inv_def points_inv_def)
  show "chunks_of (heard s) = chunks_out s @ m_queue (raw_queue s)"
    using inv by (simp add: server_inv_def queues_inv_def)
  show "packets_of (spec_effects (chunks_out s)) = packets_out s @ m_queue (parsed_queue s)"
    using packets_out_spec [OF inv] at by simp
qed

lemma nothing_processed:
  assumes inv: "server_inv native strerror port printed greeting s"
    and "chunks_out s = []" and "main_at s = M_done"
  shows "chunks_of (heard s) = m_queue (raw_queue s)"
    and "m_packets_processed (the_business s) = 0" and "m_drones (the_business s) = []"
proof -
  have "packets_out s = []" using at_exit(2) [OF inv assms(3)] assms(2) by (simp add: spec_effects_def)
  then have "map_of (m_drones (the_business s)) = Map.empty" "m_packets_processed (the_business s) = 0"
    using inv by (simp_all add: server_inv_def business_link_def latest_def)
  then show "m_packets_processed (the_business s) = 0" "m_drones (the_business s) = []" by simp_all
  show "chunks_of (heard s) = m_queue (raw_queue s)" using at_exit(1) [OF inv assms(3)] assms(2) by simp
qed

lemma at_idle:
  assumes inv: "server_inv native strerror port printed greeting s" and idle: "idle native s"
  shows "packets_out s = packets_of (spec_effects (chunks_of (heard s)))"
    and "m_crc_failures (the_parser s) = spec_failures (chunks_of (heard s))"
    and "m_queue (log_queue s) = []"
proof -
  have "\<not> 4 \<le> past (main_at s)"
    using inv idle by (auto simp: server_inv_def order_inv_def joined_inv_def idle_def)
  then have stops: "\<not> parser_stop s" "\<not> business_stop s" "\<not> logger_stop s"
    using inv by (auto simp: server_inv_def order_inv_def flags_inv_def)
  moreover have "points_inv s" using inv by (simp add: server_inv_def order_inv_def)
  ultimately have rest: "parser_at s = P_pop" "m_queue (raw_queue s) = []"
    "m_queue (parsed_queue s) = []" "m_queue (log_queue s) = []"
    using idle parser_progress [OF inv] business_progress [OF inv] logger_progress [of s]
    by (auto simp: idle_def points_inv_def)
  then have "chunks_out s = chunks_of (heard s)" using inv by (simp add: server_inv_def queues_inv_def)
  then show "packets_out s = packets_of (spec_effects (chunks_of (heard s)))"
    "m_crc_failures (the_parser s) = spec_failures (chunks_of (heard s))" "m_queue (log_queue s) = []"
    using packets_out_spec [OF inv] parser_link_spec(2) [OF inv] rest by simp_all
qed

lemma idle_table:
  assumes "(server_step native strerror)\<^sup>*\<^sup>* (start_server port lg greeting) s" and "idle native s"
  shows "map_of (m_drones (the_business s)) = latest (packets_of (spec_effects (chunks_of (heard s))))"
  using at_idle(1) [OF server_reachable [OF assms(1)] assms(2)] server_reachable [OF assms(1)]
  by (simp add: server_inv_def business_link_def)

section \<open>Shutdowns that take the shortest way\<close>

text \<open>A listener that is about to test its stop token returns without another event.\<close>

lemma quick_join:
  assumes at: "listener_at s = L_check" "listener_todo s = []" "main_at s = M_wait" "parser_at s \<noteq> P_crashed"
  shows "\<exists>s'. (server_step native strerror)\<^sup>*\<^sup>* s s' \<and> main_at s' = M_join_parser \<and> parser_stop s' \<and>
    listener_stop s' \<and> listener_at s' = L_done \<and> heard s' = heard s \<and> same_workers s s' \<and> logged s' = logged s \<and>
    m_max_size (log_queue s') = m_max_size (log_queue s)"
proof -
  let ?s1 = "signal_handler s"
  have "g_shutdown_requested s \<Longrightarrow> ?s1 = s" by (cases s) (simp add: signal_handler_def)
  moreover have "\<not> terminated s" using at by (simp add: terminated_def)
  ultimately have 1: "(server_step native strerror)\<^sup>*\<^sup>* s ?s1" by (metis server_step.sigint rtranclp.simps)
  let ?s2 = "?s1\<lparr>main_at := M_stop_listener, main_said := main_said s @ [sigint_message]\<rparr>"
  let ?s3 = "?s2\<lparr>main_at := M_wake, listener_stop := True\<rparr>"
  let ?s4 = "(if waker_registered s then shutdown_waker ?s3 else ?s3)\<lparr>main_at := M_join_listener\<rparr>"
  let ?s5 = "?s4\<lparr>listener_at := L_return\<rparr>"
  let ?s6 = "?s5\<lparr>listener_at := L_done, waker_registered := False\<rparr>"
  let ?s7 = "?s6\<lparr>main_at := M_join_parser, parser_stop := True\<rparr>"
  have m: "main_turn ?s1 = Some ?s2" "main_turn ?s2 = Some ?s3" "main_turn ?s3 = Some ?s4" "main_turn ?s6 = Some ?s7"
    using at by (simp_all add: main_turn_def signal_handler_def shutdown_waker_def)
  have l: "listener_turn strerror undefined ?s4 = Some ?s5" "listener_turn strerror undefined ?s5 = Some ?s6"
    using at by (simp_all add: listener_turn_def signal_handler_def shutdown_waker_def)
  have up: "\<not> terminated ?s1" "\<not> terminated ?s2" "\<not> terminated ?s3" "\<not> terminated ?s4" "\<not> terminated ?s5" "\<not> terminated ?s6"
    using at by (simp_all add: terminated_def signal_handler_def shutdown_waker_def)
  have "(server_step native strerror)\<^sup>*\<^sup>* s ?s4"
    using 1 server_step.main [OF m(1) up(1)] server_step.main [OF m(2) up(2)] server_step.main [OF m(3) up(3)]
    by (meson rtranclp.rtrancl_into_rtrancl)
  then have "(server_step native strerror)\<^sup>*\<^sup>* s ?s7"
    using server_step.listener [OF l(1) up(4)] server_step.listener [OF l(2) up(5)] server_step.main [OF m(4) up(6)]
    by (meson rtranclp.rtrancl_into_rtrancl)
  then show ?thesis
    by (intro exI [of _ ?s7]) (simp add: signal_handler_def shutdown_waker_def same_workers_def)
qed

text \<open>A parser thread that has returned stays so and takes no chunk; nor does a listener that has returned go on.\<close>

lemma done_threads_stay:
  assumes "(server_step native strerror)\<^sup>*\<^sup>* s s'" and "listener_at s = L_done" and "listener_todo s = []"
    and "parser_at s = P_done"
  shows "listener_at s' = L_done \<and> listener_todo s' = [] \<and> parser_at s' = P_done \<and>
    chunks_out s' = chunks_out s \<and> heard s' = heard s"
  using assms
proof (induction rule: rtranclp_induct)
  case (step s1 s2)
  from step(2) have "listener_at s1 = L_done \<Longrightarrow> listener_todo s1 = [] \<Longrightarrow> parser_at s1 = P_done \<Longrightarrow>
      same_listener s1 s2 \<and> parser_at s2 = parser_at s1 \<and> chunks_out s2 = chunks_out s1"
  proof cases
    case (listener k)
    then show "listener_at s1 = L_done \<Longrightarrow> listener_todo s1 = [] \<Longrightarrow> ?thesis" by (simp add: listener_turn_def)
  qed (use parser_turn_frame(4) business_turn_frame(1,5) logger_turn_frame(1,5) main_turn_frame(1,2) sigint_frame(1,2)
      in \<open>auto simp: same_workers_def\<close>)
  then show ?case using step by (simp add: same_listener_def)
qed simp

lemma parser_leaves_at_once:
  assumes "parser_at s = P_start" and "parser_stop s" and "m_max_size (log_queue s) = 0" and "listener_at s = L_done"
  shows "\<exists>s'. (server_step native strerror)\<^sup>*\<^sup>* s s' \<and> parser_at s' = P_done \<and> chunks_out s' = chunks_out s \<and>
    same_listener s s' \<and> same_stops s s'"
proof -
  let ?hello = "s\<lparr>parser_at := P_check, log_queue := (log_queue s)\<lparr>m_queue := m_queue (log_queue s) @ [parser_hello]\<rparr>,
      logged := logged s @ [(Parser, parser_hello)]\<rparr>"
  let ?exit = "?hello\<lparr>parser_at := P_exit\<rparr>"
  obtain s' where s': "parser_turn native ?exit = Some s'" "parser_at s' = P_done" "chunks_out s' = chunks_out s"
      "same_listener s s'" "same_stops s s'"
    using assms by (auto simp: parser_turn_def pushes frames)
  have p: "parser_turn native s = Some ?hello" "parser_turn native ?hello = Some ?exit"
    using assms by (simp_all add: parser_turn_def pushes)
  have up: "\<not> terminated s" "\<not> terminated ?hello" "\<not> terminated ?exit"
    using assms by (simp_all add: terminated_def)
  have "(server_step native strerror)\<^sup>*\<^sup>* s s'"
    using server_step.parser [OF p(1) up(1)] server_step.parser [OF p(2) up(2)] server_step.parser [OF s'(1) up(3)]
    by (meson converse_rtranclp_into_rtranclp rtranclp.rtrancl_refl)
  then show ?thesis using s' by blast
qed

text \<open>The same shutdown with a logger that has not begun when main says goodbye.\<close>

lemma logger_idle_step:
  assumes inv: "server_inv native strerror port printed greeting s"
    and at: "listener_at s = L_done" "past (main_at s) \<le> 7" "4 \<le> past (main_at s)" "main_at s \<noteq> M_join_logger"
  shows "\<exists>s'. server_step native strerror s s' \<and> listener_at s' = L_done \<and> heard s' = heard s \<and>
    past (main_at s') \<le> 7 \<and> 4 \<le> past (main_at s') \<and> written s' = written s \<and> logger_at s' = logger_at s"
proof -
  have flags: "flags_inv s" and up: "\<not> terminated s"
    using inv at(1) by (simp_all add: server_inv_def order_inv_def parser_link_def terminated_def)
  consider (main) "main_turn s \<noteq> None" | (parser) "main_at s = M_join_parser" "parser_at s \<noteq> P_done"
    | (business) "main_at s = M_join_business" "business_at s \<noteq> B_done"
    using at main_progress [of s] by (cases "main_at s") (simp_all, blast+)
  then show ?thesis
  proof cases
    case main
    then obtain s' where m: "main_turn s = Some s'" by blast
    then have "past (main_at s') \<le> 7" "4 \<le> past (main_at s')"
      using at by (cases "main_at s"; auto simp: main_turn_def split: if_splits)+
    then show ?thesis using m main_turn_frame(1,2) [OF m] at server_step.main [OF m up]
      by (intro exI [of _ s']) (simp add: frames)
  next
    case parser
    then obtain s' where p: "parser_turn native s = Some s'"
      using parser_progress [OF inv] flags by (fastforce simp: flags_inv_def)
    then show ?thesis using parser_turn_frame(1,2,6) [OF p] at server_step.parser [OF p up]
      by (intro exI [of _ s']) (simp add: frames)
  next
    case business
    then obtain s' where b: "business_turn 0 s = Some s'"
      using business_progress [OF inv, of 0] flags by (fastforce simp: flags_inv_def)
    then show ?thesis using business_turn_frame(1,2,6) [OF b] at server_step.business [OF b up]
      by (intro exI [of _ s']) (simp add: frames)
  qed
qed

lemma reaches_goodbye:
  assumes reach: "(server_step native strerror)\<^sup>*\<^sup>* (start_server port lg greeting) s"
    and at: "listener_at s = L_done" "main_at s = M_join_parser" "written s = []" "logger_at s = G_check"
  shows "\<exists>s'. (server_step native strerror)\<^sup>*\<^sup>* (start_server port lg greeting) s' \<and> main_at s' = M_join_logger \<and>
    heard s' = heard s \<and> written s' = [] \<and> logger_at s' = G_check"
proof -
  let ?P = "\<lambda>s'. (server_step native strerror)\<^sup>*\<^sup>* (start_server port lg greeting) s' \<and> listener_at s' = L_done \<and>
    heard s' = heard s \<and> past (main_at s') \<le> 7 \<and> 4 \<le> past (main_at s') \<and> written s' = [] \<and> logger_at s' = G_check"
  have "\<exists>s2. (server_step native strerror s1 s2 \<and> listener_stop s1 \<and> \<not> feeds s1 s2) \<and> ?P s2"
    if P: "?P s1" and "main_at s1 \<noteq> M_join_logger" for s1
  proof -
    have inv: "server_inv native strerror port (to_stdout lg) greeting s1" using P server_reachable by blast
    then have "listener_stop s1" using P by (auto simp: server_inv_def order_inv_def flags_inv_def)
    moreover have "\<not> feeds s1 s2" for s2 using P by (simp add: feeds_def)
    ultimately show ?thesis
      using logger_idle_step [OF inv] P \<open>main_at s1 \<noteq> M_join_logger\<close> by (metis rtranclp.rtrancl_into_rtrancl)
  qed
  then show ?thesis
    using stopping.reaches [of ?P s "\<lambda>s. main_at s = M_join_logger" native strerror] reach at by auto
qed

section \<open>A drone that connects and sends\<close>

text \<open>The kernel of the listener's sample again; its client sends what \<open>recv\<close> delivers in \<open>as\<close>.\<close>

definition drone_answers :: "recv_answer list \<Rightarrow> wait_answer list" where
  "drone_answers as =
     [Events [\<lparr>source_fd = 3, ev_flags = 1, ev_accepts = kernel_accepts, ev_recvs = []\<rparr>],
      Wait_error EINTR,
      Events [\<lparr>source_fd = 6, ev_flags = 1, ev_accepts = [],
         ev_recvs = as @ [\<lparr>a_recv = (- 1, EAGAIN), recv_bytes = []\<rparr>]\<rparr>]]"

lemma drone_completed:
  assumes "list_all delivers as"
  shows "\<exists>l0 out0 l out1. listener_setup strerror kernel_server kernel_epoll (NetworkListener_ctor port) = (None, l0, out0) \<and>
    completed strerror l0 (drone_answers as) = Some (l, out1) \<and>
    chunks_of (out0 @ out1) = map (\<lambda>a. \<lparr>client_id = 6, chunk_data = recv_bytes a\<rparr>) as \<and>
    shutdown_message \<notin> set (messages_of (out0 @ out1))"
proof -
  let ?again = "\<lparr>a_recv = (- 1, EAGAIN), recv_bytes = []\<rparr>"
  have "\<exists>b. handle_client_data strerror l fd (as @ [?again]) =
      (Alive, l\<lparr>m_recv_buf := b\<rparr>, map (\<lambda>a. Enqueue \<lparr>client_id = fd, chunk_data = recv_bytes a\<rparr>) as)"
    if "length (m_recv_buf l) = 4096" for l fd
    using relays [OF assms, of l strerror fd "[?again]"] that by (auto simp: RECV_BUF_SIZE_def)
  then obtain b where drained: "handle_client_data strerror l fd (as @ [?again]) =
      (Alive, l\<lparr>m_recv_buf := b l fd\<rparr>, map (\<lambda>a. Enqueue \<lparr>client_id = fd, chunk_data = recv_bytes a\<rparr>) as)"
    if "length (m_recv_buf l) = 4096" for l fd
    by metis
  have "chunks_of (map (\<lambda>a. Enqueue \<lparr>client_id = 6, chunk_data = recv_bytes a\<rparr>) as) =
      map (\<lambda>a. \<lparr>client_id = 6, chunk_data = recv_bytes a\<rparr>) as"
    "messages_of (map (\<lambda>a. Enqueue \<lparr>client_id = 6, chunk_data = recv_bytes a\<rparr>) as) = []"
    by (induction as) simp_all
  then show ?thesis
    using drained [unfolded EAGAIN_def]
    by (simp add: drone_answers_def listener_eval shutdown_message_def listening_message_def connected_message_def)
qed

lemma drone_state:
  assumes "list_all delivers as"
  shows "\<exists>s. (server_step native strerror)\<^sup>*\<^sup>* (start_server port lg greeting) s \<and>
    only_listener (start_server port lg greeting) s \<and> listener_todo s = [] \<and> listener_at s = L_check \<and>
    chunks_of (heard s) = map (\<lambda>a. \<lparr>client_id = 6, chunk_data = recv_bytes a\<rparr>) as \<and>
    shutdown_message \<notin> set (messages_of (heard s))"
proof -
  obtain l0 out0 l out1 where run:
    "listener_setup strerror kernel_server kernel_epoll (NetworkListener_ctor port) = (None, l0, out0)"
    "completed strerror l0 (drone_answers as) = Some (l, out1)"
    "chunks_of (out0 @ out1) = map (\<lambda>a. \<lparr>client_id = 6, chunk_data = recv_bytes a\<rparr>) as"
    "shutdown_message \<notin> set (messages_of (out0 @ out1))"
    using drone_completed [OF assms] by blast
  have "list_all reports (drone_answers as)" by (simp add: drone_answers_def reports_def MAX_EPOLL_EVENTS_def)
  from listener_reaches [OF run(1) this run(2), of native lg greeting] run(3,4) show ?thesis by metis
qed

lemma drone_idle:
  assumes "list_all delivers as"
  shows "\<exists>s. (server_step native strerror)\<^sup>*\<^sup>* (start_server port lg greeting) s \<and> main_at s = M_wait \<and> idle native s \<and>
    \<not> g_shutdown_requested s \<and> chunks_of (heard s) = map (\<lambda>a. \<lparr>client_id = 6, chunk_data = recv_bytes a\<rparr>) as"
proof -
  obtain s where s: "(server_step native strerror)\<^sup>*\<^sup>* (start_server port lg greeting) s"
    "only_listener (start_server port lg greeting) s" "listener_todo s = []" "listener_at s = L_check"
    "chunks_of (heard s) = map (\<lambda>a. \<lparr>client_id = 6, chunk_data = recv_bytes a\<rparr>) as"
    using drone_state [OF assms] by blast
  then have m: "main_at s = M_wait" "\<not> listener_stop s" "\<not> g_shutdown_requested s" "\<not> terminated s"
    by (simp_all add: only_listener_def frames start_server_def terminated_def)
  let ?s1 = "s\<lparr>listener_at := L_wait\<rparr>"
  have "listener_turn strerror undefined s = Some ?s1" using s m by (simp add: listener_turn_def)
  then have 1: "(server_step native strerror)\<^sup>*\<^sup>* (start_server port lg greeting) ?s1"
    using s(1) server_step.listener m(4) by (metis rtranclp.rtrancl_into_rtrancl)
  obtain s' where "(server_step native strerror)\<^sup>*\<^sup>* ?s1 s'" "same_listener ?s1 s'" "same_stops ?s1 s'" "idle native s'"
    using reaches_idle [OF _ _ server_reachable [OF 1]] s(3) by auto
  then show ?thesis using 1 m s(5) by (intro exI [of _ s']) (auto simp: frames intro: rtranclp_trans)
qed

text \<open>A client that sends the first two bytes of a header, and the states that its server reaches.\<close>

definition sample_recvs :: "recv_answer list" where
  "sample_recvs = [\<lparr>a_recv = (2, 0), recv_bytes = [0xAA, 0x55]\<rparr>]"

definition sample_start :: server where
  "sample_start = start_server 9000 AsyncLogger_ctor []"

lemma sample_delivers: "list_all delivers sample_recvs"
  by (simp add: sample_recvs_def delivers_def RECV_BUF_SIZE_def)

lemmas sample_idle = drone_idle [OF sample_delivers, of native strerror 9000 AsyncLogger_ctor "[]" for native strerror,
  folded sample_start_def]

lemma shutdown_runs:
  assumes "(server_step native strerror)\<^sup>*\<^sup>* (start_server port lg greeting) s"
    and only: "only_listener (start_server port lg greeting) s" and at: "listener_todo s = []" "listener_at s = L_check"
  shows "\<exists>s1. (server_step native strerror)\<^sup>*\<^sup>* (start_server port lg greeting) s1 \<and> main_at s1 = M_done \<and>
      heard s1 = heard s \<and> chunks_out s1 = []"
    and "\<exists>s2. (server_step native strerror)\<^sup>*\<^sup>* (start_server port lg greeting) s2 \<and> main_at s2 = M_join_logger \<and>
      heard s2 = heard s \<and> written s2 = [] \<and> logger_at s2 = G_check"
proof -
  let ?start = "start_server port lg greeting"
  have fresh: "main_at s = M_wait" "parser_at s = P_start" "parser_at s \<noteq> P_crashed" "chunks_out s = []" "written s = []" "logger_at s = G_check"
      "m_max_size (log_queue s) = 0"
    using only by (simp_all add: only_listener_def frames start_server_def ThreadSafeQueue_ctor_def)
  obtain s1 where s1: "(server_step native strerror)\<^sup>*\<^sup>* s s1" "main_at s1 = M_join_parser" "parser_stop s1"
      "listener_stop s1" "listener_at s1 = L_done" "heard s1 = heard s" "same_workers s s1" "m_max_size (log_queue s1) = 0"
    using quick_join [OF at(2,1) fresh(1,3), of native strerror] fresh(7) by auto
  have r1: "(server_step native strerror)\<^sup>*\<^sup>* ?start s1" using assms(1) s1(1) by (rule rtranclp_trans)
  show "\<exists>s2. (server_step native strerror)\<^sup>*\<^sup>* ?start s2 \<and> main_at s2 = M_join_logger \<and>
      heard s2 = heard s \<and> written s2 = [] \<and> logger_at s2 = G_check"
    using reaches_goodbye [OF r1 s1(5,2)] s1(6,7) fresh(5,6) by (simp add: same_workers_def)
  obtain s2 where s2: "(server_step native strerror)\<^sup>*\<^sup>* s1 s2" "parser_at s2 = P_done" "chunks_out s2 = []"
      "same_listener s1 s2" "same_stops s1 s2"
    using parser_leaves_at_once [of s1 native strerror] s1 fresh by (auto simp: same_workers_def)
  have r2: "(server_step native strerror)\<^sup>*\<^sup>* ?start s2" using r1 s2(1) by (rule rtranclp_trans)
  have at2: "listener_at s2 = L_done" "listener_stop s2" "listener_todo s2 = []"
    using s1(4,5) s2(4,5) server_reachable [OF r2]
    by (simp_all add: frames server_inv_def order_inv_def points_inv_def)
  then obtain s3 where s3: "(server_step native strerror)\<^sup>*\<^sup>* s2 s3" "main_at s3 = M_done"
    using reaches_exit [OF r2] by auto
  then show "\<exists>s1. (server_step native strerror)\<^sup>*\<^sup>* ?start s1 \<and> main_at s1 = M_done \<and>
      heard s1 = heard s \<and> chunks_out s1 = []"
    using done_threads_stay [OF s3(1) at2(1,3) s2(2)] s2(3,4) s1(6) r2
    by (intro exI [of _ s3]) (auto simp: same_listener_def intro: rtranclp_trans)
qed

lemma sample_exit:
  "\<exists>s. (server_step native strerror)\<^sup>*\<^sup>* sample_start s \<and> main_at s = M_done"
  using drone_state [OF sample_delivers, of native strerror 9000 AsyncLogger_ctor "[]"] shutdown_runs(1)
  unfolding sample_start_def by metis

section \<open>A client that never stops sending\<close>

text \<open>
  Main has requested the stop of the listener and waits for it, and the listener is in the receive loop
  of client 6.
\<close>

definition flooded :: "server \<Rightarrow> bool" where
  "flooded s \<longleftrightarrow> listener_stop s \<and> main_at s = M_join_listener \<and> parser_at s \<noteq> P_crashed \<and>
     m_max_size (raw_queue s) = 0 \<and> m_max_size (log_queue s) = 0 \<and> listener_at s = L_batch [(6, 1)] \<and>
     sh_get (m_event_fd (the_listener s)) = 5 \<and> sh_get (m_server_fd (the_listener s)) = 3 \<and>
     length (m_recv_buf (the_listener s)) = RECV_BUF_SIZE"

definition one_more_byte :: "event list" where
  "one_more_byte = [\<lparr>source_fd = 6, ev_flags = 1, ev_accepts = [], ev_recvs = [\<lparr>a_recv = (1, 0), recv_bytes = [0]\<rparr>]\<rparr>]"

lemma one_more_byte_read:
  assumes "sh_get (m_event_fd l) = 5" and "sh_get (m_server_fd l) = 3" and "length (m_recv_buf l) = RECV_BUF_SIZE"
  shows "\<exists>l' out. dispatch_events strerror l one_more_byte = (Busy, l', out) \<and> out \<noteq> [] \<and>
    unfinished strerror l one_more_byte = [(6, 1)] \<and> m_event_fd l' = m_event_fd l \<and> m_server_fd l' = m_server_fd l \<and>
    length (m_recv_buf l') = RECV_BUF_SIZE"
  using assms
  by (simp add: one_more_byte_def dispatch_event_def EPOLLIN_def EPOLLERR_def EPOLLHUP_def recv_into_def
      RECV_BUF_SIZE_def event_key_def Let_def)

lemma flooded_step:
  assumes s: "flooded s"
  shows "\<exists>s'. server_step native strerror s s' \<and> flooded s'"
proof -
  have up: "\<not> terminated s" using s by (simp add: flooded_def terminated_def)
  have "\<exists>k s'. listener_turn strerror k s = Some s' \<and> flooded s'"
  proof (cases "listener_todo s")
    case Nil
    obtain l out where l: "dispatch_events strerror (the_listener s) one_more_byte = (Busy, l, out)" "out \<noteq> []"
        "unfinished strerror (the_listener s) one_more_byte = [(6, 1)]" "m_event_fd l = m_event_fd (the_listener s)"
        "m_server_fd l = m_server_fd (the_listener s)" "length (m_recv_buf l) = RECV_BUF_SIZE"
      using one_more_byte_read [of "the_listener s" strerror] s by (auto simp: flooded_def)
    have "map event_key one_more_byte = [(6, 1)]" by (simp add: one_more_byte_def event_key_def)
    then show ?thesis
      using s Nil l
      by (intro exI [of _ "(undefined :: kernel)\<lparr>for_batch := one_more_byte\<rparr>"]) (simp add: listener_turn_def flooded_def)
  next
    case (Cons e todo)
    obtain s' where turn: "listener_turn strerror undefined s = Some s'"
      using listener_performs [OF Cons] s by (auto simp: flooded_def)
    have "flooded s'" using listener_perform_turn [OF Cons turn] s by (simp add: flooded_def)
    then show ?thesis using turn by blast
  qed
  then show ?thesis using server_step.listener [OF _ up] by blast
qed

lemma client_accepted:
  "\<exists>l0 out0 l out1. listener_setup strerror kernel_server kernel_epoll (NetworkListener_ctor port) = (None, l0, out0) \<and>
     completed strerror l0 [Events [\<lparr>source_fd = 3, ev_flags = 1, ev_accepts = kernel_accepts, ev_recvs = []\<rparr>]] = Some (l, out1) \<and>
     chunks_of (out0 @ out1) = [] \<and> l_clients l 6 = Some \<lparr>m_fd = 6\<rparr> \<and> sh_get (m_event_fd l) = 5 \<and>
     sh_get (m_server_fd l) = 3 \<and> length (m_recv_buf l) = RECV_BUF_SIZE \<and>
     audit (\<lambda>_. Free) (out0 @ out1) \<noteq> Kernel_broke"
  by (simp add: listener_eval MAX_EPOLL_EVENTS_def)

lemma batch_begun:
  assumes "listener_at s = L_check" and "listener_todo s = []" and "\<not> listener_stop s" and "parser_at s \<noteq> P_crashed"
    and l: "sh_get (m_event_fd (the_listener s)) = 5" "sh_get (m_server_fd (the_listener s)) = 3"
  shows "(server_step native strerror)\<^sup>*\<^sup>* s (s\<lparr>listener_at := L_batch [(6, 1)], listener_todo := [Polled [6]]\<rparr>)"
proof -
  let ?w = "Events [\<lparr>source_fd = 6, ev_flags = 1, ev_accepts = [], ev_recvs = []\<rparr>]"
  let ?k = "(undefined :: kernel)\<lparr>for_wait := ?w\<rparr>" and ?s1 = "s\<lparr>listener_at := L_wait\<rparr>"
  have "listener_turn strerror ?k s = Some ?s1" using assms(1-3) by (simp add: listener_turn_def)
  moreover have "listener_turn strerror ?k ?s1 = Some (s\<lparr>listener_at := L_batch [(6, 1)], listener_todo := [Polled [6]]\<rparr>)"
    using assms(2) l
    by (simp add: listener_turn_def epoll_allows_def listener_body_def dispatch_event_def EPOLLIN_def EPOLLERR_def
        EPOLLHUP_def MAX_EPOLL_EVENTS_def events_of_def event_key_def)
  moreover have "\<not> terminated s" "\<not> terminated ?s1" using assms(1,4) by (simp_all add: terminated_def)
  ultimately show ?thesis
    by (meson server_step.listener converse_rtranclp_into_rtranclp rtranclp.rtrancl_refl)
qed

text \<open>SIGINT and the main thread up to the join of the listener.\<close>

lemma stop_requested:
  assumes "main_at s = M_wait" and "\<not> g_shutdown_requested s" and "parser_at s \<noteq> P_crashed" and "listener_at s \<noteq> L_crashed"
  shows "\<exists>s'. (server_step native strerror)\<^sup>*\<^sup>* s s' \<and> main_at s' = M_join_listener \<and> listener_stop s' \<and>
    same_listener s s' \<and> same_workers s s' \<and> raw_queue s' = raw_queue s \<and> log_queue s' = log_queue s"
proof -
  let ?s1 = "signal_handler s"
  let ?s2 = "?s1\<lparr>main_at := M_stop_listener, main_said := main_said s @ [sigint_message]\<rparr>"
  let ?s3 = "?s2\<lparr>main_at := M_wake, listener_stop := True\<rparr>"
  let ?s4 = "(if waker_registered s then shutdown_waker ?s3 else ?s3)\<lparr>main_at := M_join_listener\<rparr>"
  have m: "main_turn ?s1 = Some ?s2" "main_turn ?s2 = Some ?s3" "main_turn ?s3 = Some ?s4"
    using assms(1) by (simp_all add: main_turn_def signal_handler_def shutdown_waker_def)
  have up: "\<not> terminated s" "\<not> terminated ?s1" "\<not> terminated ?s2" "\<not> terminated ?s3"
    using assms(3,4) by (simp_all add: terminated_def signal_handler_def)
  have "(server_step native strerror)\<^sup>*\<^sup>* s ?s4"
    using server_step.sigint [OF assms(2) up(1)] server_step.main [OF m(1) up(2)] server_step.main [OF m(2) up(3)]
      server_step.main [OF m(3) up(4)]
    by (meson converse_rtranclp_into_rtranclp rtranclp.rtrancl_refl)
  then show ?thesis by (intro exI [of _ ?s4]) (simp add: frames signal_handler_def shutdown_waker_def)
qed

lemma flooded_reached: "\<exists>s. (server_step native strerror)\<^sup>*\<^sup>* (start_server port lg greeting) s \<and> flooded s"
proof -
  let ?start = "start_server port lg greeting"
  obtain l0 out0 l out1 where l: "listener_setup strerror kernel_server kernel_epoll (NetworkListener_ctor port) = (None, l0, out0)"
      "completed strerror l0 [Events [\<lparr>source_fd = 3, ev_flags = 1, ev_accepts = kernel_accepts, ev_recvs = []\<rparr>]] = Some (l, out1)"
      "sh_get (m_event_fd l) = 5" "sh_get (m_server_fd l) = 3" "length (m_recv_buf l) = RECV_BUF_SIZE"
    using client_accepted [of strerror port] by blast
  have "list_all reports [Events [\<lparr>source_fd = 3, ev_flags = 1, ev_accepts = kernel_accepts, ev_recvs = []\<rparr>]]"
    by (simp add: reports_def MAX_EPOLL_EVENTS_def)
  then obtain s where s: "(server_step native strerror)\<^sup>*\<^sup>* ?start s" "only_listener ?start s" "listener_todo s = []"
      "listener_at s = L_check" "the_listener s = l"
    using listener_reaches [OF l(1) _ l(2), of native lg greeting] by blast
  have fresh: "main_at s = M_wait" "\<not> g_shutdown_requested s" "\<not> listener_stop s" "parser_at s \<noteq> P_crashed"
      "m_max_size (raw_queue s) = 0" "m_max_size (log_queue s) = 0"
    using s(2) by (simp_all add: only_listener_def frames start_server_def ThreadSafeQueue_ctor_def)
  let ?s1 = "s\<lparr>listener_at := L_batch [(6, 1)], listener_todo := [Polled [6]]\<rparr>"
  obtain s' where s': "(server_step native strerror)\<^sup>*\<^sup>* ?s1 s'" "main_at s' = M_join_listener" "listener_stop s'"
      "same_listener ?s1 s'" "same_workers ?s1 s'" "raw_queue s' = raw_queue s" "log_queue s' = log_queue s"
    using stop_requested [of ?s1 native strerror] fresh by auto
  have "(server_step native strerror)\<^sup>*\<^sup>* ?start s'"
    using s(1) batch_begun [OF s(4,3) fresh(3,4), of native strerror] s(5) l(3,4) s'(1) by (meson rtranclp_trans)
  moreover have "flooded s'" using s' fresh l(3-5) s(5) by (simp add: flooded_def frames)
  ultimately show ?thesis by blast
qed

section \<open>Why the process ends early\<close>

definition overrun :: cpp_error where
  "overrun = Undefined ''read past the receive buffer''"

lemma handle_client_data_overrun:
  "handle_client_data strerror l fd as = (Data_error e, l', out) \<Longrightarrow> e = overrun"
  by (induction as arbitrary: l out) (auto simp: Let_def overrun_def split: prod.splits if_splits)

lemma dispatch_events_overrun: "dispatch_events strerror l evs = (Raise e, l', out) \<Longrightarrow> e = overrun"
proof (induction evs arbitrary: l out)
  case (Cons ev evs)
  obtain r1 l1 out1 where one: "dispatch_event strerror l ev = (r1, l1, out1)" by (metis surj_pair)
  have "r1 = Raise e \<Longrightarrow> e = overrun"
    using one by (auto simp: dispatch_event_def split: if_splits prod.splits data_end.splits dest: handle_client_data_overrun)
  then show ?case using Cons one by (auto split: dispatch.splits prod.splits)
qed simp

lemma listener_loop_overrun:
  "listener_loop strerror l turns = (Listener_terminated e, l', out) \<Longrightarrow> e = overrun"
proof (induction turns arbitrary: l out)
  case (Cons turn turns)
  obtain stop w where turn: "turn = (stop, w)" by fastforce
  obtain r l1 out1 where body: "listener_body strerror l w = (r, l1, out1)" by (metis surj_pair)
  then have "r = Raise e \<Longrightarrow> e = overrun"
    by (auto simp: listener_body_def split: wait_answer.splits if_splits prod.splits dest: dispatch_events_overrun)
  then show ?case using Cons body by (auto simp: turn split: if_splits dispatch.splits prod.splits)
qed simp

lemma listener_run_terminated:
  assumes "listener_run strerror sa ea turns l = (Listener_terminated e, l', out)"
  shows "listener_setup strerror sa ea l = (Some e, l', out) \<or> e = overrun"
  using assms listener_loop_overrun
  by (auto simp: listener_run_def split: prod.splits option.splits)

section \<open>Properties\<close>

text \<open>
  C3: in every state that the program can reach, under any interleaving of its threads and whatever
  the kernel answers, the listener's thread has done what \<open>listener_run\<close> does for these answers, no
  exception escaped the parser's thread, and the drone table and the packet counter are those of the
  first \<open>n\<close> packets that the stream specification reads out of the first \<open>k\<close> chunks that the listener
  enqueued, for some \<open>n\<close> and \<open>k\<close>: no packet is invented, duplicated, changed or overtaken on the way
  through the three threads and two queues.
\<close>

theorem server_tracks_streams:
  assumes "(server_step native strerror)\<^sup>*\<^sup>* (start_server port lg greeting) s"
  shows "(heard s @ listener_todo s = [] \<or>
      (\<exists>sa ea turns r. listener_run strerror sa ea turns (NetworkListener_ctor port) =
         (r, the_listener s, heard s @ listener_todo s))) \<and>
    parser_at s \<noteq> P_crashed \<and>
    (\<exists>k n. n \<le> length (packets_of (spec_effects (take k (chunks_of (heard s))))) \<and>
       map_of (m_drones (the_business s)) =
         latest (take n (packets_of (spec_effects (take k (chunks_of (heard s)))))) \<and>
       m_packets_processed (the_business s) = of_nat n)"
proof (intro conjI)
  have inv: "server_inv native strerror port (to_stdout lg) greeting s" by (rule server_reachable [OF assms])
  then show "parser_at s \<noteq> P_crashed" by (simp add: server_inv_def parser_link_def)
  show "heard s @ listener_todo s = [] \<or>
      (\<exists>sa ea turns r. listener_run strerror sa ea turns (NetworkListener_ctor port) =
         (r, the_listener s, heard s @ listener_todo s))"
    using listener_link_ran [of strerror port s] inv by (simp add: server_inv_def listener_ran_def)
  let ?k = "length (chunks_out s)" and ?n = "length (packets_out s)"
  have k: "take ?k (chunks_of (heard s)) = chunks_out s" by (rule chunks_out_take [OF inv, symmetric])
  show "\<exists>k n. n \<le> length (packets_of (spec_effects (take k (chunks_of (heard s))))) \<and>
       map_of (m_drones (the_business s)) = latest (take n (packets_of (spec_effects (take k (chunks_of (heard s)))))) \<and>
       m_packets_processed (the_business s) = of_nat n"
    using inv packets_out_spec [OF inv]
    by (intro exI [of _ ?k] exI [of _ ?n]) (simp add: k server_inv_def business_link_def)
qed

theorem server_tracks_streams_witness:
  "\<exists>s. (server_step little (\<lambda>_. ''error''))\<^sup>*\<^sup>* sample_start s \<and> main_at s = M_done \<and> parser_at s \<noteq> P_crashed \<and>
     (\<exists>k n. map_of (m_drones (the_business s)) = latest (take n (packets_of (spec_effects (take k (chunks_of (heard s)))))))"
proof -
  obtain s where s: "(server_step little (\<lambda>_. ''error''))\<^sup>*\<^sup>* sample_start s" "main_at s = M_done"
    using sample_exit by blast
  from server_tracks_streams [OF s(1) [unfolded sample_start_def]] s show ?thesis by blast
qed

text \<open>
  C11: a server whose workers have nothing left to do and whose listener waits for the network has
  processed everything: the table is that of all packets in all chunks of the listener, the counter
  counts all of them, the failures are those of the specification, and everything that was logged
  has been written to stdout.
\<close>

theorem idle_server_is_complete:
  assumes "(server_step native strerror)\<^sup>*\<^sup>* (start_server port lg greeting) s" and "idle native s"
  shows "map_of (m_drones (the_business s)) = latest (packets_of (spec_effects (chunks_of (heard s)))) \<and>
    m_packets_processed (the_business s) = of_nat (length (packets_of (spec_effects (chunks_of (heard s))))) \<and>
    m_crc_failures (the_parser s) = spec_failures (chunks_of (heard s)) \<and>
    to_stdout (the_logger s) = to_stdout lg @ concat (map snd (logged s))"
  using at_idle [OF server_reachable [OF assms(1)] assms(2)] server_reachable [OF assms(1)]
  by (simp add: server_inv_def business_link_def queues_inv_def)

theorem idle_server_is_complete_witness:
  "\<exists>s. (server_step little (\<lambda>_. ''error''))\<^sup>*\<^sup>* sample_start s \<and> idle little s \<and>
     chunks_of (heard s) = [\<lparr>client_id = 6, chunk_data = [0xAA, 0x55]\<rparr>] \<and>
     map_of (m_drones (the_business s)) = latest (packets_of (spec_effects (chunks_of (heard s))))"
proof -
  obtain s where s: "(server_step little (\<lambda>_. ''error''))\<^sup>*\<^sup>* sample_start s" "idle little s"
      "chunks_of (heard s) = [\<lparr>client_id = 6, chunk_data = [0xAA, 0x55]\<rparr>]"
    using sample_idle [of little "\<lambda>_. ''error''"] by (auto simp: sample_recvs_def)
  from idle_server_is_complete [OF s(1) [unfolded sample_start_def] s(2)] s show ?thesis by blast
qed

text \<open>
  C6: no shutdown gets stuck, and only the network can make it go on for ever. After SIGINT, in every
  reachable state in which no exception has escaped the listener and main has not returned, some
  thread can take a step for which nothing has to happen on the network: no join waits for a thread
  that cannot finish, no thread sleeps on a queue after its stop request, a listener that sleeps in
  \<open>epoll_wait\<close> has been woken, however its registration of the callback raced with the request, and one in
  the middle of a batch finishes it when there is nothing more to read. And if a run never ends after
  main has requested the listener's stop, then from some moment on the listener is in the accept or
  receive loop of one event, and the kernel gives this loop another connection or more bytes of its
  client again and again: as soon as it has nothing more, the program ends.
\<close>

theorem every_run_completes_shutdown:
  assumes "(server_step native strerror)\<^sup>*\<^sup>* (start_server port lg greeting) s"
    and "g_shutdown_requested s" and "listener_at s \<noteq> L_crashed"
  shows "(main_at s = M_done \<or> (\<exists>s'. silent_step native strerror s s')) \<and>
    (listener_stop s \<longrightarrow> (\<forall>f. f 0 = s \<and> (\<forall>i. server_step native strerror (f i) (f (Suc i))) \<longrightarrow>
       (\<exists>n fd flags left. (\<forall>i. listener_at (f (n + i)) = L_batch ((fd, flags) # left)) \<and>
          (\<exists>\<^sub>\<infinity>i. feeds (f i) (f (Suc i))))))"
  using server_progress [OF server_reachable [OF assms(1)] assms(2) _ assms(3)] infinite_shutdown
  by blast

theorem every_run_completes_shutdown_witness:
  "\<exists>s. (server_step little (\<lambda>_. ''error''))\<^sup>*\<^sup>* sample_start s \<and> g_shutdown_requested s \<and> listener_at s = L_wait \<and>
     (\<exists>s'. silent_step little (\<lambda>_. ''error'') s s')"
proof -
  obtain s where s: "(server_step little (\<lambda>_. ''error''))\<^sup>*\<^sup>* sample_start s" "main_at s = M_wait" "idle little s"
    using sample_idle [of little "\<lambda>_. ''error''"] by blast
  have "\<not> terminated s" using s(3) server_reachable [OF s(1) [unfolded sample_start_def]]
    by (simp add: terminated_def idle_def server_inv_def parser_link_def)
  then have "\<not> g_shutdown_requested s \<Longrightarrow> server_step little (\<lambda>_. ''error'') s (signal_handler s)" by (rule sigint [rotated])
  moreover have "g_shutdown_requested s \<Longrightarrow> signal_handler s = s" by (cases s) (simp add: signal_handler_def)
  ultimately have r: "(server_step little (\<lambda>_. ''error''))\<^sup>*\<^sup>* sample_start (signal_handler s)"
    using s(1) by (metis rtranclp.rtrancl_into_rtrancl)
  have at: "g_shutdown_requested (signal_handler s)" "listener_at (signal_handler s) = L_wait"
      "main_at (signal_handler s) = M_wait" "listener_at (signal_handler s) \<noteq> L_crashed"
    using s(2,3) by (simp_all add: signal_handler_def idle_def)
  from every_run_completes_shutdown [OF r [unfolded sample_start_def] at(1,4)] r at show ?thesis by auto
qed

text \<open>
  C15: the program stays up. As long as no SIGINT has arrived, whatever the clients send and the
  kernel answers, the process ends only by an exception of the listener's setup, or if \<open>recv\<close> claimed
  more bytes than it was asked for. Unless this has happened, the parser, business and logger threads
  are in their loops, none of them has crashed or returned, main waits, and the listener has left its
  loop only if \<open>epoll_wait\<close> failed, which it has reported.
\<close>

theorem threads_stay_up:
  assumes "(server_step native strerror)\<^sup>*\<^sup>* (start_server port lg greeting) s" and "\<not> g_shutdown_requested s"
  shows "if terminated s
    then \<exists>sa ea e turns. listener_run strerror sa ea turns (NetworkListener_ctor port) =
        (Listener_terminated e, the_listener s, heard s) \<and>
      (listener_setup strerror sa ea (NetworkListener_ctor port) = (Some e, the_listener s, heard s) \<or>
       e = Undefined ''read past the receive buffer'')
    else main_at s = M_wait \<and> parser_at s \<notin> {P_exit, P_done, P_crashed} \<and> business_at s \<notin> {B_exit, B_done} \<and>
      logger_at s \<notin> {G_drain, G_done} \<and>
      (listener_at s \<in> {L_return, L_done} \<longrightarrow>
         (\<exists>err. err \<noteq> EINTR \<and> wait_error_message strerror err \<in> set (messages_of (heard s @ listener_todo s))))"
proof -
  have inv: "server_inv native strerror port (to_stdout lg) greeting s" by (rule server_reachable [OF assms(1)])
  show ?thesis
  proof (cases "terminated s")
    case True
    then have "listener_at s = L_crashed" "listener_todo s = []"
      using inv by (simp_all add: terminated_def server_inv_def parser_link_def)
    then have "listener_ran strerror port (\<lambda>r. r \<noteq> Listening \<and> r \<noteq> Listener_returned) (the_listener s) (heard s)"
      using inv by (simp add: server_inv_def listener_link_def)
    then obtain sa ea turns e where
      "listener_run strerror sa ea turns (NetworkListener_ctor port) = (Listener_terminated e, the_listener s, heard s)"
      unfolding listener_ran_def by (metis listener_end.exhaust)
    moreover from listener_run_terminated [OF this] have
      "listener_setup strerror sa ea (NetworkListener_ctor port) = (Some e, the_listener s, heard s) \<or>
       e = Undefined ''read past the receive buffer''"
      by (simp add: overrun_def)
    ultimately show ?thesis using True by (simp only: if_True) blast
  next
    case False
    have m: "main_at s = M_wait"
      using inv assms(2) by (cases "main_at s") (auto simp: server_inv_def order_inv_def flags_inv_def)
    then have "\<not> listener_stop s" "\<not> parser_stop s" "\<not> business_stop s" "\<not> logger_stop s"
      using inv by (simp_all add: server_inv_def order_inv_def flags_inv_def)
    moreover have "Message m \<in> set es \<Longrightarrow> m \<in> set (messages_of es)" for m es
      by (induction es rule: messages_of.induct) auto
    ultimately show ?thesis
      using inv m False by (auto simp: server_inv_def order_inv_def points_inv_def parser_link_def leave_inv_def)
  qed
qed

theorem threads_stay_up_witness:
  "\<exists>s. (server_step little (\<lambda>_. ''error''))\<^sup>*\<^sup>* sample_start s \<and> idle little s \<and> \<not> terminated s \<and>
     chunks_of (heard s) = [\<lparr>client_id = 6, chunk_data = [0xAA, 0x55]\<rparr>] \<and>
     parser_at s \<notin> {P_exit, P_done, P_crashed} \<and> business_at s \<notin> {B_exit, B_done} \<and> logger_at s \<notin> {G_drain, G_done}"
proof -
  obtain s where s: "(server_step little (\<lambda>_. ''error''))\<^sup>*\<^sup>* sample_start s" "idle little s" "\<not> g_shutdown_requested s"
      "chunks_of (heard s) = [\<lparr>client_id = 6, chunk_data = [0xAA, 0x55]\<rparr>]"
    using sample_idle [of little "\<lambda>_. ''error''"] by (auto simp: sample_recvs_def)
  have "\<not> terminated s" using s(2) server_reachable [OF s(1) [unfolded sample_start_def]]
    by (simp add: terminated_def idle_def server_inv_def parser_link_def)
  with threads_stay_up [OF s(1) [unfolded sample_start_def] s(3)] s show ?thesis by auto
qed

text \<open>
  C26: a client that never stops sending keeps the program from ending. The drain loop of the listener
  does not look at its stop token, so there is a run in which SIGINT has arrived, main has requested
  the listener's stop and woken it, and main waits for ever for a listener that reads on and on from one client.
\<close>

theorem flooding_client_blocks_shutdown:
  "\<exists>f. (server_step native strerror)\<^sup>*\<^sup>* (start_server port lg greeting) (f 0) \<and>
     (\<forall>i. server_step native strerror (f i) (f (Suc i)) \<and> listener_stop (f i) \<and>
        main_at (f i) = M_join_listener \<and> listener_at (f i) = L_batch [(6, EPOLLIN)])"
proof -
  obtain s where s: "(server_step native strerror)\<^sup>*\<^sup>* (start_server port lg greeting) s" "flooded s"
    using flooded_reached by blast
  have "\<exists>f. \<forall>i. (flooded (f i) \<and> (i = 0 \<longrightarrow> f i = s)) \<and> server_step native strerror (f i) (f (Suc i))"
  proof (rule dependent_nat_choice)
    show "\<exists>s'. flooded s' \<and> ((0 :: nat) = 0 \<longrightarrow> s' = s)" using s(2) by blast
    show "\<exists>s2. (flooded s2 \<and> (Suc i = 0 \<longrightarrow> s2 = s)) \<and> server_step native strerror s1 s2"
      if "flooded s1 \<and> (i = 0 \<longrightarrow> s1 = s)" for s1 i using flooded_step that by blast
  qed
  then obtain f where "f 0 = s" "\<And>i. flooded (f i)" "\<And>i. server_step native strerror (f i) (f (Suc i))" by blast
  then show ?thesis using s(1) by (intro exI [of _ f]) (simp add: flooded_def EPOLLIN_def)
qed

text \<open>
  C7: at exit no log line is lost. When the main thread has returned, the listener's thread has
  returned as \<open>listener_run\<close> does, the log queue is empty and stdout has received every message of every
  thread: all of the listener's, the parser's from its start message through the messages of the
  stream specification for the chunks it took to its shutdown message with the failure count, and the
  business logic's, with the alerts of the packets it processed in order and its summary last. Main
  itself has printed its greeting and farewell.
\<close>

theorem shutdown_loses_no_message:
  assumes "(server_step native strerror)\<^sup>*\<^sup>* (start_server port lg greeting) s"
    and "main_at s = M_done"
  shows "tsq_size (log_queue s) = 0 \<and>
    to_stdout (the_logger s) = to_stdout lg @ concat (map snd (logged s)) \<and>
    (\<exists>sa ea turns l. listener_run strerror sa ea turns (NetworkListener_ctor port) = (Listener_returned, l, heard s)) \<and>
    said Listener s = messages_of (heard s) \<and>
    said Parser s = parser_hello # logs_of (spec_effects (chunks_out s)) @
      [parser_goodbye (spec_failures (chunks_out s))] \<and>
    filter is_alert (said Business s) = concat (map check_alerts (packets_out s)) \<and>
    (\<exists>now earlier. said Business s = earlier @ [summary_message (the_business s) now]) \<and>
    main_said s = greeting @ [sigint_message, goodbye_message]"
proof -
  have inv: "server_inv native strerror port (to_stdout lg) greeting s" by (rule server_reachable [OF assms(1)])
  then have q: "queues_inv (to_stdout lg) s" and said: "said_inv s" and main: "main_prints greeting s"
    and link: "listener_link strerror port s"
    by (simp_all add: server_inv_def)
  note at = at_exit [OF inv assms(2)]
  have "\<exists>sa ea turns l. listener_run strerror sa ea turns (NetworkListener_ctor port) = (Listener_returned, l, heard s)"
    using link at(3,4) by (auto simp: listener_link_def listener_ran_def)
  then show ?thesis
    using said q at main assms(2) parser_link_spec [OF inv]
    by (simp add: said_inv_def parser_said_def business_said_def queues_inv_def tsq_size_def main_prints_def)
qed

theorem shutdown_loses_no_message_witness:
  "\<exists>s. (server_step little (\<lambda>_. ''error''))\<^sup>*\<^sup>* sample_start s \<and> main_at s = M_done \<and> tsq_size (log_queue s) = 0 \<and>
     to_stdout (the_logger s) = concat (map snd (logged s)) \<and> hd (said Parser s) = parser_hello"
proof -
  obtain s where s: "(server_step little (\<lambda>_. ''error''))\<^sup>*\<^sup>* sample_start s" "main_at s = M_done"
    using sample_exit by blast
  from shutdown_loses_no_message [OF s(1) [unfolded sample_start_def] s(2)] s show ?thesis
    by (auto simp: AsyncLogger_ctor_def)
qed

text \<open>
  C16: at exit every byte and every packet is accounted for. When the main thread has returned, the
  chunks of the listener are those the parser took followed by those still in the raw queue, the
  packets in the chunks it took are those the business logic processed followed by those still in the
  parsed queue, and the table and the counter are those of the packets processed.
\<close>

theorem exit_accounts_for_data:
  assumes "(server_step native strerror)\<^sup>*\<^sup>* (start_server port lg greeting) s"
    and "main_at s = M_done"
  shows "chunks_of (heard s) = chunks_out s @ m_queue (raw_queue s) \<and>
    packets_of (spec_effects (chunks_out s)) = packets_out s @ m_queue (parsed_queue s) \<and>
    map_of (m_drones (the_business s)) = latest (packets_out s) \<and>
    m_packets_processed (the_business s) = of_nat (length (packets_out s))"
  using at_exit(1,2) [OF server_reachable [OF assms(1)] assms(2)] server_reachable [OF assms(1)]
  by (simp add: server_inv_def business_link_def)

theorem exit_accounts_for_data_witness:
  "\<exists>s. (server_step little (\<lambda>_. ''error''))\<^sup>*\<^sup>* sample_start s \<and> main_at s = M_done \<and>
     chunks_of (heard s) = chunks_out s @ m_queue (raw_queue s) \<and>
     packets_of (spec_effects (chunks_out s)) = packets_out s @ m_queue (parsed_queue s)"
proof -
  obtain s where s: "(server_step little (\<lambda>_. ''error''))\<^sup>*\<^sup>* sample_start s" "main_at s = M_done"
    using sample_exit by blast
  from exit_accounts_for_data [OF s(1) [unfolded sample_start_def] s(2)] s show ?thesis by blast
qed

text \<open>
  C39: the shutdown drains the log queue but not the two data queues. Whatever the listener received
  in any number of turns, there is a run to a regular exit in which none of its chunks is parsed: all of
  them are still in the raw queue, no packet was counted and the drone table is empty. In this run the
  listener says nothing after those turns: a stop request that it finds at its test of the stop token
  goes without the shutdown message.
\<close>

theorem shutdown_may_discard_chunks:
  assumes "listener_setup strerror sa ea (NetworkListener_ctor port) = (None, l0, out0)"
    and "list_all reports ws" and "completed strerror l0 ws = Some (l, out1)"
  shows "\<exists>s. (server_step native strerror)\<^sup>*\<^sup>* (start_server port lg greeting) s \<and> main_at s = M_done \<and>
    m_queue (raw_queue s) = chunks_of (out0 @ out1) \<and> said Listener s = messages_of (out0 @ out1) \<and>
    m_packets_processed (the_business s) = 0 \<and> m_drones (the_business s) = []"
proof -
  obtain s where "(server_step native strerror)\<^sup>*\<^sup>* (start_server port lg greeting) s"
    "only_listener (start_server port lg greeting) s" "listener_todo s = []" "listener_at s = L_check"
    and h: "heard s = out0 @ out1"
    using listener_reaches [OF assms] by blast
  from shutdown_runs(1) [OF this(1-4)] obtain s1 where
    s1: "(server_step native strerror)\<^sup>*\<^sup>* (start_server port lg greeting) s1" "main_at s1 = M_done"
      "heard s1 = out0 @ out1" "chunks_out s1 = []"
    unfolding h by blast
  have inv: "server_inv native strerror port (to_stdout lg) greeting s1" by (rule server_reachable [OF s1(1)])
  then have "said Listener s1 = messages_of (heard s1)" by (simp add: server_inv_def said_inv_def)
  then show ?thesis
    using s1 nothing_processed [OF inv s1(4,2)] by (intro exI [of _ s1]) (simp add: s1(3))
qed

theorem shutdown_may_discard_chunks_witness:
  "\<exists>s. (server_step little (\<lambda>_. ''error''))\<^sup>*\<^sup>* sample_start s \<and> main_at s = M_done \<and>
     m_queue (raw_queue s) = [\<lparr>client_id = 6, chunk_data = [0xAA, 0x55]\<rparr>] \<and>
     shutdown_message \<notin> set (said Listener s) \<and> m_packets_processed (the_business s) = 0"
proof -
  obtain l0 out0 l out1 where run:
    "listener_setup (\<lambda>_. ''error'') kernel_server kernel_epoll (NetworkListener_ctor 9000) = (None, l0, out0)"
    "completed (\<lambda>_. ''error'') l0 (drone_answers sample_recvs) = Some (l, out1)"
    "chunks_of (out0 @ out1) = [\<lparr>client_id = 6, chunk_data = [0xAA, 0x55]\<rparr>]"
    "shutdown_message \<notin> set (messages_of (out0 @ out1))"
    using drone_completed [OF sample_delivers, of "\<lambda>_. ''error''" 9000] by (auto simp: sample_recvs_def)
  have "list_all reports (drone_answers sample_recvs)" by (simp add: drone_answers_def reports_def MAX_EPOLL_EVENTS_def)
  from shutdown_may_discard_chunks [OF run(1) this run(2), of little AsyncLogger_ctor "[]"] run(3,4) show ?thesis
    unfolding sample_start_def by metis
qed

text \<open>
  C40: the farewell \<open>All threads joined\<close> can come before the logger thread is joined, and before it has
  written a single line: there is a run in which main has printed it while every message of the
  other threads, their shutdown messages included, is still in the log queue.
\<close>

theorem goodbye_precedes_logger:
  "\<exists>s. (server_step native strerror)\<^sup>*\<^sup>* sample_start s \<and> main_said s = [sigint_message, goodbye_message] \<and>
     logger_at s = G_check \<and> to_stdout (the_logger s) = [] \<and>
     m_queue (log_queue s) = map snd (logged s) \<and> parser_hello \<in> set (m_queue (log_queue s))"
proof -
  obtain s where s: "(server_step native strerror)\<^sup>*\<^sup>* (start_server 9000 AsyncLogger_ctor []) s"
      "main_at s = M_join_logger" "written s = []" "logger_at s = G_check"
    using drone_state [OF sample_delivers, of native strerror 9000 AsyncLogger_ctor "[]"] shutdown_runs(2) by metis
  have inv: "server_inv native strerror 9000 (to_stdout AsyncLogger_ctor) [] s" by (rule server_reachable [OF s(1)])
  then have q: "queues_inv (to_stdout AsyncLogger_ctor) s" and main: "main_prints [] s"
    and "parser_said s" and "parser_at s = P_done"
    using s(2) by (simp_all add: server_inv_def order_inv_def joined_inv_def said_inv_def)
  then have "parser_hello \<in> set (said Parser s)" by (simp add: parser_said_def)
  then have "parser_hello \<in> set (map snd (logged s))" by (auto simp: said_def)
  moreover have "m_queue (log_queue s) = map snd (logged s)" "to_stdout (the_logger s) = []"
    using q s(3) by (simp_all add: queues_inv_def AsyncLogger_ctor_def)
  moreover have "main_said s = [sigint_message, goodbye_message]"
    using main s(2) by (simp add: main_prints_def)
  ultimately show ?thesis using s unfolding sample_start_def by (intro exI [of _ s]) simp
qed

end
