(* ===== verification/Edge_Triggered.thy ===== *)
theory Edge_Triggered
  imports Listener_Protocol Parser_Properties
begin

text \<open>
  The client sockets are registered with \<open>EPOLLET\<close> (\<open>handle_accept\<close>): the kernel reports a socket when
  something arrives, and not again for what is left unread. This theory states what the manual pages of
  \<open>epoll\<close> and \<open>recv\<close> say of one connection, and shows that the drain loop of \<open>handle_client_data\<close> is what
  this needs: whenever the listener goes to sleep, nothing is left on a socket without a report to
  come, and the chunks of the connection are the bytes the client sent, in order.
\<close>

section \<open>One connection in the kernel\<close>

text \<open>
  \<open>unread\<close> is the receive buffer, \<open>ended\<close> says that the client has shut down its side, \<open>announced\<close> that the
  socket is on the list of ready descriptors. \<open>arrived\<close> records all bytes that ever came in.
\<close>

record connection =
  unread :: "byte list"
  ended :: bool
  announced :: bool
  arrived :: "byte list"

text \<open>What the client does, at any moment. Every arrival puts the socket on the ready list.\<close>

inductive arrival :: "connection \<Rightarrow> connection \<Rightarrow> bool" where
  bytes: "\<not> ended c \<Longrightarrow> arrival c (c\<lparr>unread := unread c @ bs, arrived := arrived c @ bs, announced := True\<rparr>)"
| hangup: "arrival c (c\<lparr>ended := True, announced := True\<rparr>)"

text \<open>
  The answers of \<open>recv\<close> on the socket up to some moment, or until the first that gives no bytes, with
  arrivals in between: some bytes from the front of the buffer, \<open>EAGAIN\<close> when there is nothing to read,
  0 at the end of the stream, or an error.
\<close>

inductive recv_calls :: "connection \<Rightarrow> recv_answer list \<Rightarrow> connection \<Rightarrow> bool" where
  so_far: "recv_calls c [] c"
| arrives: "arrival c c1 \<Longrightarrow> recv_calls c1 as c' \<Longrightarrow> recv_calls c as c'"
| data: "unread c = bs @ rest \<Longrightarrow> bs \<noteq> [] \<Longrightarrow> length bs \<le> RECV_BUF_SIZE \<Longrightarrow>
    recv_calls (c\<lparr>unread := rest\<rparr>) as c' \<Longrightarrow>
    recv_calls c (\<lparr>a_recv = (int (length bs), e), recv_bytes = bs\<rparr> # as) c'"
| would_block: "unread c = [] \<Longrightarrow> \<not> ended c \<Longrightarrow> recv_calls c [\<lparr>a_recv = (- 1, EAGAIN), recv_bytes = bs\<rparr>] c"
| end_of_stream: "unread c = [] \<Longrightarrow> ended c \<Longrightarrow> recv_calls c [\<lparr>a_recv = (0, e), recv_bytes = bs\<rparr>] c"
| fails: "err \<noteq> EAGAIN \<Longrightarrow> recv_calls c [\<lparr>a_recv = (- 1, err), recv_bytes = bs\<rparr>] c"

text \<open>A batch of events, seen from the connection with descriptor \<open>fd\<close>.\<close>

inductive batch :: "int \<Rightarrow> connection \<Rightarrow> event list \<Rightarrow> connection \<Rightarrow> bool" for fd where
  over: "batch fd c [] c"
| arrives: "arrival c c1 \<Longrightarrow> batch fd c1 evs c' \<Longrightarrow> batch fd c evs c'"
| other: "source_fd ev \<noteq> fd \<Longrightarrow> batch fd c evs c' \<Longrightarrow> batch fd c (ev # evs) c'"
| ready: "source_fd ev = fd \<Longrightarrow> ev_flags ev AND EPOLLIN \<noteq> 0 \<Longrightarrow> recv_calls c (ev_recvs ev) c1 \<Longrightarrow>
    batch fd c1 evs c' \<Longrightarrow> batch fd c (ev # evs) c'"
| broken: "source_fd ev = fd \<Longrightarrow> ev_flags ev AND (EPOLLERR OR EPOLLHUP) \<noteq> 0 \<Longrightarrow>
    batch fd c evs c' \<Longrightarrow> batch fd c (ev # evs) c'"

text \<open>
  The answers of \<open>epoll_wait\<close>. A socket is reported only when it is on the ready list, from which the
  report removes it.
\<close>

inductive waits :: "int \<Rightarrow> connection \<Rightarrow> wait_answer list \<Rightarrow> connection \<Rightarrow> bool" for fd where
  over: "waits fd c [] c"
| arrives: "arrival c c1 \<Longrightarrow> waits fd c1 ws c' \<Longrightarrow> waits fd c ws c'"
| interrupted: "waits fd c ws c' \<Longrightarrow> waits fd c (Wait_error err # ws) c'"
| reported: "fd \<in> set (map source_fd evs) \<Longrightarrow> announced c \<Longrightarrow> batch fd (c\<lparr>announced := False\<rparr>) evs c1 \<Longrightarrow>
    waits fd c1 ws c' \<Longrightarrow> waits fd c (Events evs # ws) c'"
| unreported: "fd \<notin> set (map source_fd evs) \<Longrightarrow> batch fd c evs c1 \<Longrightarrow>
    waits fd c1 ws c' \<Longrightarrow> waits fd c (Events evs # ws) c'"

section \<open>What the listener keeps\<close>

text \<open>Nothing waits on the socket without a report to come.\<close>

definition no_lost_edge :: "connection \<Rightarrow> bool" where
  "no_lost_edge c \<longleftrightarrow> (unread c \<noteq> [] \<or> ended c \<longrightarrow> announced c)"

text \<open>\<open>got\<close> has been read from the socket so far.\<close>

definition accounts :: "byte list \<Rightarrow> connection \<Rightarrow> bool" where
  "accounts got c \<longleftrightarrow> arrived c = got @ unread c"

lemma arrival_keeps:
  "arrival c c' \<Longrightarrow> no_lost_edge c'" "arrival c c' \<Longrightarrow> accounts got c \<Longrightarrow> accounts got c'"
  by (auto simp: arrival.simps no_lost_edge_def accounts_def)

text \<open>The accept loop asks for edge-triggered reports of every client that it registers.\<close>

lemma clients_edge_triggered:
  assumes "handle_accept strerror l as = (left, l', out)" and "Epoll_add fd flags \<in> set out"
  shows "flags AND EPOLLET \<noteq> 0 \<and> flags AND EPOLLIN \<noteq> 0"
  using assms
proof (induction as arbitrary: l left l' out)
  case (Cons a as)
  have "flags = EPOLLIN OR EPOLLET" if "accept_one strerror l a = (again, l1, out1)" "Epoll_add fd flags \<in> set out1" for again l1 out1
    using that by (auto simp: accept_one_def emplace_client_def set_nonblocking_def Let_def
        split: if_splits option.splits prod.splits)
  then show ?case
    using Cons by (fastforce simp: EPOLLIN_def EPOLLET_def Let_def split: prod.splits if_splits)
qed simp

text \<open>The descriptors of the listener itself and its buffer.\<close>

definition same_fds :: "NetworkListener \<Rightarrow> NetworkListener \<Rightarrow> bool" where
  "same_fds l l' \<longleftrightarrow> m_event_fd l' = m_event_fd l \<and> m_server_fd l' = m_server_fd l \<and>
     length (m_recv_buf l') = length (m_recv_buf l)"

lemma same_fds_trans: "same_fds l l1 \<Longrightarrow> same_fds l1 l2 \<Longrightarrow> same_fds l l2"
  by (simp add: same_fds_def)

lemma set_nonblocking_chunks: "set_nonblocking strerror fd g s = (r, out) \<Longrightarrow> chunks_of out = []"
  by (auto simp: set_nonblocking_def Let_def split: if_splits)

lemma chunks_of_Close [simp]: "chunks_of (map Close_fd fds) = []"
  by (induction fds) simp_all

lemma accept_one_frame:
  "accept_one strerror l a = (again, l', out) \<Longrightarrow> same_fds l l' \<and> chunks_of out = []"
  by (auto simp: accept_one_def emplace_client_def same_fds_def Let_def dest!: set_nonblocking_chunks
      split: if_splits option.splits prod.splits)

lemma handle_accept_frame:
  "handle_accept strerror l as = (left, l', out) \<Longrightarrow> same_fds l l' \<and> chunks_of out = []"
proof (induction as arbitrary: l left l' out)
  case (Cons a as)
  then show ?case
    by (auto simp: Let_def dest!: accept_one_frame split: prod.splits if_splits) (meson same_fds_trans)
qed (simp add: same_fds_def)

lemma disconnect_client_frame:
  "disconnect_client l fd = (l', out) \<Longrightarrow>
   same_fds l l' \<and> chunks_of out = [\<lparr>client_id = fd, chunk_data = []\<rparr>]"
  by (auto simp: disconnect_client_def same_fds_def split: option.splits)

lemma handle_client_data_frame:
  "handle_client_data strerror l fd as = (r, l', out) \<Longrightarrow>
   same_fds l l' \<and> list_all (\<lambda>c. client_id c = fd) (chunks_of out)"
proof (induction as arbitrary: l r l' out)
  case (Cons a as)
  then show ?case by (fastforce simp: Let_def same_fds_def split: prod.splits if_splits)
qed (simp add: same_fds_def)

lemma dispatch_event_frame:
  "dispatch_event strerror l ev = (r, l', out) \<Longrightarrow>
   same_fds l l' \<and> list_all (\<lambda>c. client_id c = source_fd ev) (chunks_of out)"
  by (auto simp: dispatch_event_def same_fds_def split: if_splits prod.splits data_end.splits
      dest!: handle_accept_frame handle_client_data_frame disconnect_client_frame)

section \<open>The drain loop\<close>

lemma stream_of_append [simp]: "stream_of fd (cs @ cs') = stream_of fd cs @ stream_of fd cs'"
  by (simp add: stream_of_def)

lemma stream_of_others: "list_all (\<lambda>c. client_id c = fd') cs \<Longrightarrow> fd' \<noteq> fd \<Longrightarrow> stream_of fd cs = []"
  by (induction cs) (simp_all add: stream_of_def)

lemma drain_loop:
  assumes "recv_calls c as c'" and "length (m_recv_buf l) = RECV_BUF_SIZE" and "accounts got c"
    and "handle_client_data strerror l fd as = (r, l', out)"
  shows "(r = Alive \<and> no_lost_edge c' \<or> r = Gone \<or> r = Still_reading) \<and> accounts (got @ stream_of fd (chunks_of out)) c'"
  using assms
proof (induction arbitrary: l got r l' out rule: recv_calls.induct)
  case (arrives c c1 as c')
  then show ?case using arrival_keeps(2) by blast
next
  case (data c bs rest as c' e)
  let ?l = "l\<lparr>m_recv_buf := recv_into (m_recv_buf l) bs\<rparr>"
  obtain r1 l1 out1 where one: "handle_client_data strerror ?l fd as = (r1, l1, out1)" by (metis surj_pair)
  have "accounts (got @ bs) (c\<lparr>unread := rest\<rparr>)" using data.prems(2) data.hyps(1) by (simp add: accounts_def)
  moreover have "r = r1" "out = Enqueue \<lparr>client_id = fd, chunk_data = bs\<rparr> # out1"
    using data.prems(1,3) data.hyps(2,3) one by (auto simp: Let_def take_recv_into)
  ultimately show ?case
    using data.IH [of ?l "got @ bs" r1 l1 out1] one data.prems(1) by (simp add: stream_of_def)
qed (auto simp: Let_def no_lost_edge_def EAGAIN_def EWOULDBLOCK_def stream_of_def split: if_splits)

text \<open>The connection was not given up in the trace.\<close>

definition still_open :: "int \<Rightarrow> listener_effect list \<Rightarrow> bool" where
  "still_open fd out \<longleftrightarrow> \<lparr>client_id = fd, chunk_data = []\<rparr> \<notin> set (chunks_of out)"

lemma still_open_append [simp]: "still_open fd (out @ out') \<longleftrightarrow> still_open fd out \<and> still_open fd out'"
  by (auto simp: still_open_def)

text \<open>An event of the connection that did not end it was answered by draining it.\<close>

lemma own_event:
  assumes "dispatch_event strerror l ev = (Next, l', out)" and "source_fd ev = fd" and "still_open fd out"
    and "fd \<noteq> sh_get (m_event_fd l)" and "fd \<noteq> sh_get (m_server_fd l)"
    and "ev_flags ev AND EPOLLIN \<noteq> 0 \<or> ev_flags ev AND (EPOLLERR OR EPOLLHUP) \<noteq> 0"
  shows "ev_flags ev AND (EPOLLERR OR EPOLLHUP) = 0 \<and>
    handle_client_data strerror l fd (ev_recvs ev) = (Alive, l', out)"
  using assms
  by (auto simp: dispatch_event_def still_open_def split: if_splits prod.splits data_end.splits
      dest: disconnect_client_frame)

lemma dispatch_events_ConsE:
  assumes "dispatch_events strerror l (ev # evs) = (Next, l', out)"
  obtains l1 out1 out2 where "dispatch_event strerror l ev = (Next, l1, out1)"
    "dispatch_events strerror l1 evs = (Next, l', out2)" "out = out1 @ out2"
  using assms by (auto split: prod.splits dispatch.splits)

definition watches :: "int \<Rightarrow> NetworkListener \<Rightarrow> bool" where
  "watches fd l \<longleftrightarrow> fd \<noteq> sh_get (m_event_fd l) \<and> fd \<noteq> sh_get (m_server_fd l) \<and>
     length (m_recv_buf l) = RECV_BUF_SIZE"

lemma watches_same: "watches fd l \<Longrightarrow> same_fds l l' \<Longrightarrow> watches fd l'"
  by (simp add: watches_def same_fds_def)

lemma batch_keeps:
  assumes "batch fd c evs c'" and "dispatch_events strerror l evs = (Next, l', out)" and "watches fd l"
    and "still_open fd out" and "accounts got c" and "no_lost_edge c \<or> fd \<in> set (map source_fd evs)"
  shows "accounts (got @ stream_of fd (chunks_of out)) c' \<and> no_lost_edge c' \<and> same_fds l l'"
  using assms
proof (induction arbitrary: l out got rule: batch.induct)
  case (over c)
  then show ?case by (simp add: stream_of_def same_fds_def)
next
  case (arrives c c1 evs c')
  then show ?case using arrival_keeps by blast
next
  case (other ev c evs c')
  from other.prems(1) obtain l1 out1 out2 where ev: "dispatch_event strerror l ev = (Next, l1, out1)"
    "dispatch_events strerror l1 evs = (Next, l', out2)" "out = out1 @ out2"
    by (rule dispatch_events_ConsE)
  note frame = dispatch_event_frame [OF ev(1)]
  show ?case
    using other.IH [OF ev(2) watches_same [OF other.prems(2)], of got] frame other.hyps(1) other.prems ev(3)
      stream_of_others [of "source_fd ev" "chunks_of out1" fd] same_fds_trans
    by auto
next
  case (ready ev c c1 evs c')
  from ready.prems(1) obtain l1 out1 out2 where ev: "dispatch_event strerror l ev = (Next, l1, out1)"
    "dispatch_events strerror l1 evs = (Next, l', out2)" "out = out1 @ out2"
    by (rule dispatch_events_ConsE)
  have "handle_client_data strerror l fd (ev_recvs ev) = (Alive, l1, out1)"
    using own_event [OF ev(1) ready.hyps(1)] ready.hyps(2) ready.prems(2,3) ev(3) by (simp add: watches_def)
  then have "no_lost_edge c1 \<and> accounts (got @ stream_of fd (chunks_of out1)) c1"
    using drain_loop [OF ready.hyps(3) _ ready.prems(4), of l strerror fd Alive l1 out1] ready.prems(2) by (auto simp: watches_def)
  then show ?case
    using ready.IH [OF ev(2) watches_same [OF ready.prems(2)], of "got @ stream_of fd (chunks_of out1)"] dispatch_event_frame [OF ev(1)] ready.prems(3) ev(3)
      same_fds_trans
    by auto
next
  case (broken ev c evs c')
  from broken.prems(1) obtain l1 out1 out2 where ev: "dispatch_event strerror l ev = (Next, l1, out1)"
    "out = out1 @ out2"
    by (rule dispatch_events_ConsE)
  then show ?case
    using own_event [OF ev(1) broken.hyps(1)] broken.hyps(2) broken.prems(2,3) by (simp add: watches_def)
qed

lemma completed_Cons:
  assumes "completed strerror l (w # ws) = Some (l', out)"
  obtains l1 out1 out2 where "listener_body strerror l w = (Next, l1, out1)"
    "completed strerror l1 ws = Some (l', out2)" "out = out1 @ out2"
  using assms by (auto split: prod.splits dispatch.splits)

lemma listener_body_Events:
  assumes "listener_body strerror l (Events evs) = (Next, l', out)"
  obtains out' where "dispatch_events strerror l evs = (Next, l', out')" "out = Polled (map source_fd evs) # out'"
  using assms by (auto simp: listener_body_def split: prod.splits)

lemma events_keep:
  assumes "listener_body strerror l (Events evs) = (Next, l', out)" and "batch fd c evs c'" and "watches fd l"
    and "still_open fd out" and "accounts got c" and "no_lost_edge c \<or> fd \<in> set (map source_fd evs)"
  shows "accounts (got @ stream_of fd (chunks_of out)) c' \<and> no_lost_edge c' \<and> watches fd l'"
proof -
  obtain out' where "dispatch_events strerror l evs = (Next, l', out')" "out = Polled (map source_fd evs) # out'"
    using assms(1) by (rule listener_body_Events)
  then show ?thesis
    using batch_keeps [OF assms(2), of strerror l l' out' got] assms(3-6) watches_same
    by (auto simp: still_open_def)
qed

lemma waits_keep:
  assumes "waits fd c ws c'" and "completed strerror l ws = Some (l', out)" and "watches fd l"
    and "still_open fd out" and "accounts got c" and "no_lost_edge c"
  shows "accounts (got @ stream_of fd (chunks_of out)) c' \<and> no_lost_edge c'"
  using assms
proof (induction arbitrary: l out got rule: waits.induct)
  case (over c)
  then show ?case by (simp add: stream_of_def)
next
  case (arrives c c1 ws c')
  then show ?case using arrival_keeps by blast
next
  case (interrupted c ws c' err)
  from interrupted.prems(1) obtain l1 out1 out2 where w: "listener_body strerror l (Wait_error err) = (Next, l1, out1)"
    "completed strerror l1 ws = Some (l', out2)" "out = out1 @ out2"
    by (rule completed_Cons)
  then have "l1 = l" "out1 = []" by (auto simp: listener_body_def split: if_splits)
  then show ?case using interrupted.IH [of l out2 got] interrupted.prems w by simp
next
  case (reported evs c c1 ws c')
  from reported.prems(1) obtain l1 out1 out2 where w: "listener_body strerror l (Events evs) = (Next, l1, out1)"
    "completed strerror l1 ws = Some (l', out2)" "out = out1 @ out2"
    by (rule completed_Cons)
  have "accounts got (c\<lparr>announced := False\<rparr>)" using reported.prems(4) by (simp add: accounts_def)
  then show ?case
    using events_keep [OF w(1) reported.hyps(3) reported.prems(2), of got] reported.hyps(1) reported.prems(3)
      reported.IH [OF w(2), of "got @ stream_of fd (chunks_of out1)"] w(3) by auto
next
  case (unreported evs c c1 ws c')
  from unreported.prems(1) obtain l1 out1 out2 where w: "listener_body strerror l (Events evs) = (Next, l1, out1)"
    "completed strerror l1 ws = Some (l', out2)" "out = out1 @ out2"
    by (rule completed_Cons)
  then show ?case
    using events_keep [OF w(1) unreported.hyps(2) unreported.prems(2), of got] unreported.prems(3-5)
      unreported.IH [OF w(2), of "got @ stream_of fd (chunks_of out1)"] by auto
qed

section \<open>Property\<close>

text \<open>
  C12: no data is left on an edge-triggered socket. From the moment a client is registered, whatever
  arrives and whenever it does, between the calls of the drain loop too: as long as the listener
  has not given up the connection, every time it is about to wait for events the chunks it has
  enqueued for the client are the bytes that arrived, in order, except for a rest that is still unread;
  and if there is such a rest, or the client has hung up, the kernel has a report for the socket
  to make. So when there is none, every byte has been enqueued.
\<close>

theorem edge_triggered_reads_everything:
  assumes "listening l" and "l_clients l fd = Some h" and "completed strerror l ws = Some (l', out)"
    and "waits fd c ws c'" and "still_open fd out" and "arrived c = unread c" and "no_lost_edge c"
  shows "arrived c' = stream_of fd (chunks_of out) @ unread c' \<and>
    (unread c' \<noteq> [] \<or> ended c' \<longrightarrow> announced c') \<and>
    (\<not> announced c' \<longrightarrow> stream_of fd (chunks_of out) = arrived c')"
proof -
  have "watches fd l" using assms(1,2) by (auto simp: watches_def listening_def sh_get_def)
  then have "accounts (stream_of fd (chunks_of out)) c' \<and> no_lost_edge c'"
    using waits_keep [OF assms(4,3) _ assms(5), of "[]"] assms(6,7) by (simp add: accounts_def)
  then show ?thesis by (auto simp: accounts_def no_lost_edge_def)
qed

text \<open>A client whose second byte arrives while the first is being read.\<close>

definition one_client :: NetworkListener where
  "one_client = (NetworkListener_ctor 9000)\<lparr>m_server_fd := \<lparr>m_fd = 3\<rparr>, m_epoll_fd := \<lparr>m_fd = 4\<rparr>,
     m_event_fd := \<lparr>m_fd = 5\<rparr>, l_clients := [6 \<mapsto> \<lparr>m_fd = 6\<rparr>]\<rparr>"

definition late_byte :: "recv_answer list" where
  "late_byte = [\<lparr>a_recv = (1, 0), recv_bytes = [0xAA]\<rparr>, \<lparr>a_recv = (1, 0), recv_bytes = [0x55]\<rparr>,
     \<lparr>a_recv = (- 1, EAGAIN), recv_bytes = []\<rparr>]"

lemma recv_one: "recv_into (a # replicate 4095 0) [b] = b # replicate 4095 0"
  by (simp add: recv_into_def)

lemma one_client_completes:
  "\<exists>l'. completed strerror one_client [Events [\<lparr>source_fd = 6, ev_flags = 1, ev_accepts = [], ev_recvs = late_byte\<rparr>]] =
     Some (l', [Polled [6], Enqueue \<lparr>client_id = 6, chunk_data = [0xAA]\<rparr>, Enqueue \<lparr>client_id = 6, chunk_data = [0x55]\<rparr>])"
proof -
  have "replicate 4096 0 = (0 :: byte) # replicate 4095 0" by (simp flip: replicate_Suc)
  then show ?thesis by (simp add: one_client_def late_byte_def listener_eval recv_one)
qed

lemma late_byte_answers:
  "recv_calls \<lparr>unread = [0xAA], ended = False, announced = False, arrived = [0xAA]\<rparr> late_byte
     \<lparr>unread = [], ended = False, announced = True, arrived = [0xAA, 0x55]\<rparr>"
  unfolding late_byte_def
  using recv_calls.data [where bs = "[0xAA]" and rest = "[]" and e = 0]
    recv_calls.data [where bs = "[0x55]" and rest = "[]" and e = 0]
    recv_calls.arrives [OF arrival.bytes [where bs = "[0x55]"]] recv_calls.would_block
  by (simp add: RECV_BUF_SIZE_def)

theorem edge_triggered_reads_everything_witness:
  "\<exists>l' out (c' :: connection). completed (\<lambda>_. ''error'') one_client
       [Events [\<lparr>source_fd = 6, ev_flags = 1, ev_accepts = [], ev_recvs = late_byte\<rparr>]] = Some (l', out) \<and>
     arrived c' = [0xAA, 0x55] \<and> stream_of 6 (chunks_of out) @ unread c' = arrived c'"
proof -
  let ?ev = "\<lparr>source_fd = 6, ev_flags = 1, ev_accepts = [], ev_recvs = late_byte\<rparr>"
  let ?c = "\<lparr>unread = [0xAA], ended = False, announced = True, arrived = [0xAA]\<rparr>"
  let ?c' = "\<lparr>unread = [], ended = False, announced = True, arrived = [0xAA, 0x55]\<rparr>"
  let ?out = "[Polled [6], Enqueue \<lparr>client_id = 6, chunk_data = [0xAA]\<rparr>, Enqueue \<lparr>client_id = 6, chunk_data = [0x55]\<rparr>]"
  obtain l' where run: "completed (\<lambda>_. ''error'') one_client [Events [?ev]] = Some (l', ?out)"
    using one_client_completes by blast
  have "batch 6 (?c\<lparr>announced := False\<rparr>) [?ev] ?c'"
    using batch.ready [of ?ev 6 _ ?c' "[]" ?c', OF _ _ _ batch.over] late_byte_answers by (simp add: EPOLLIN_def)
  then have "waits 6 ?c [Events [?ev]] ?c'"
    by (intro waits.reported [OF _ _ _ waits.over]) simp_all
  moreover have "listening one_client" "l_clients one_client 6 = Some \<lparr>m_fd = 6\<rparr>"
    by (simp_all add: listening_def one_client_def NetworkListener_ctor_def RECV_BUF_SIZE_def)
  moreover have "still_open 6 ?out" by (simp add: still_open_def)
  ultimately have "arrived ?c' = stream_of 6 (chunks_of ?out) @ unread ?c'"
    using edge_triggered_reads_everything [OF _ _ run, of 6 "\<lparr>m_fd = 6\<rparr>" ?c ?c'] by (simp add: no_lost_edge_def)
  then show ?thesis using run by (intro exI [of _ l'] exI [of _ ?out] exI [of _ ?c']) simp
qed

end
