(* ===== verification/Live_Connection.thy ===== *)
theory Live_Connection
  imports Server_Properties Edge_Triggered
begin

text \<open>
  The running program together with one of its clients: the steps of \<open>Pipeline\<close>, with the answers that
  concern the client's socket given by the connection of \<open>Edge_Triggered\<close>, and the client sending at
  any moment. What the client has sent, what the kernel still holds and what the listener has pushed to
  the raw queue add up in every state of every interleaving.
\<close>

section \<open>The program and a client\<close>

text \<open>Of the events after the one whose loop is running, the kernel has not been asked for data.\<close>

fun asked_so_far :: "(nat \<Rightarrow> string) \<Rightarrow> NetworkListener \<Rightarrow> event list \<Rightarrow> bool" where
  "asked_so_far strerror l [] = True"
| "asked_so_far strerror l (ev # evs) =
     (case dispatch_event strerror l ev of
        (Next, l', out) \<Rightarrow> asked_so_far strerror l' evs
      | (Busy, l', out) \<Rightarrow> list_all (\<lambda>ev. ev_recvs ev = []) evs
      | _ \<Rightarrow> True)"

inductive live_step :: "endian \<Rightarrow> (nat \<Rightarrow> string) \<Rightarrow> int \<Rightarrow> server \<times> connection \<Rightarrow> server \<times> connection \<Rightarrow> bool"
  for native strerror fd where
  awaits: "listener_todo s = [] \<Longrightarrow> listener_at s = L_wait \<Longrightarrow> listener_turn strerror k s = Some s' \<Longrightarrow> \<not> terminated s \<Longrightarrow>
     asked_so_far strerror (the_listener s) (events_of (for_wait k)) \<Longrightarrow> waits fd c [for_wait k] c' \<Longrightarrow>
     live_step native strerror fd (s, c) (s', c')"
| goes_on: "listener_todo s = [] \<Longrightarrow> listener_at s = L_batch left \<Longrightarrow> listener_turn strerror k s = Some s' \<Longrightarrow> \<not> terminated s \<Longrightarrow>
     asked_so_far strerror (the_listener s) (for_batch k) \<Longrightarrow> batch fd c (for_batch k) c' \<Longrightarrow>
     live_step native strerror fd (s, c) (s', c')"
| listener: "listener_todo s \<noteq> [] \<or> listener_at s \<in> {L_start, L_register, L_check, L_return} \<Longrightarrow>
     listener_turn strerror k s = Some s' \<Longrightarrow> \<not> terminated s \<Longrightarrow> live_step native strerror fd (s, c) (s', c)"
| worker: "worker_step native s s' \<Longrightarrow> live_step native strerror fd (s, c) (s', c)"
| main: "main_turn s = Some s' \<Longrightarrow> \<not> terminated s \<Longrightarrow> live_step native strerror fd (s, c) (s', c)"
| sigint: "\<not> g_shutdown_requested s \<Longrightarrow> \<not> terminated s \<Longrightarrow> live_step native strerror fd (s, c) (signal_handler s, c)"
| client: "arrival c c' \<Longrightarrow> live_step native strerror fd (s, c) (s, c')"

lemma live_step_server:
  "live_step native strerror fd x y \<Longrightarrow> fst y = fst x \<or> server_step native strerror (fst x) (fst y)"
  by (induction rule: live_step.induct) (auto intro: server_step.intros worker_step_server)

lemma live_run_server:
  "(live_step native strerror fd)\<^sup>*\<^sup>* x y \<Longrightarrow> (server_step native strerror)\<^sup>*\<^sup>* (fst x) (fst y)"
  by (induction rule: rtranclp_induct) (auto dest!: live_step_server)

section \<open>The bytes of the client\<close>

text \<open>
  The effects of the listener, performed or about to be, beyond the first \<open>n\<close>; and what holds of them
  and the connection when the client was registered after the effects \<open>es\<close>.
\<close>

definition since :: "nat \<Rightarrow> server \<Rightarrow> listener_effect list" where
  "since n s = drop n (heard s @ listener_todo s)"

definition live_inv :: "int \<Rightarrow> listener_effect list \<Rightarrow> server \<times> connection \<Rightarrow> bool" where
  "live_inv fd es x \<longleftrightarrow>
     (case x of (s, c) \<Rightarrow>
        heard s @ listener_todo s = es @ since (length es) s \<and> listener_at s \<notin> {L_start, L_register} \<and>
        (looping (listener_at s) \<longrightarrow> still_open fd (since (length es) s) \<longrightarrow>
           watches fd (the_listener s) \<and> (no_lost_edge c \<or> fd \<in> set (taken (listener_at s))) \<and>
           accounts (stream_of fd (chunks_of (since (length es) s))) c))"

lemma live_inv_same: "live_inv fd es (s, c) \<Longrightarrow> same_listener s s' \<Longrightarrow> live_inv fd es (s', c)"
  by (simp add: live_inv_def since_def same_listener_def)

lemma dispatch_events_frame: "dispatch_events strerror l evs = (r, l', out) \<Longrightarrow> same_fds l l'"
proof (induction evs arbitrary: l r l' out)
  case (Cons ev evs)
  obtain r1 l1 out1 where "dispatch_event strerror l ev = (r1, l1, out1)" by (metis surj_pair)
  then show ?case
    using Cons.prems Cons.IH [of l1] dispatch_event_frame [of strerror l ev r1 l1 out1] same_fds_trans
    by (auto split: dispatch.splits prod.splits)
qed (simp add: same_fds_def)

lemma listener_body_frame: "listener_body strerror l w = (r, l', out) \<Longrightarrow> same_fds l l'"
  by (auto simp: listener_body_def same_fds_def split: wait_answer.splits if_splits prod.splits
      dest!: dispatch_events_frame)

text \<open>A batch that has come to the end, or to the loop of one of its events.\<close>

lemma recv_calls_none: "recv_calls c as c' \<Longrightarrow> as = [] \<Longrightarrow> accounts got c \<Longrightarrow> accounts got c'"
  by (induction rule: recv_calls.induct) (auto intro: arrival_keeps(2))

lemma batch_unasked:
  "batch fd c evs c' \<Longrightarrow> list_all (\<lambda>ev. ev_recvs ev = []) evs \<Longrightarrow> accounts got c \<Longrightarrow> accounts got c'"
  by (induction rule: batch.induct) (auto intro: arrival_keeps(2) recv_calls_none)

lemma no_lost_edge_unasked:
  "batch fd c evs c' \<Longrightarrow> fd \<notin> set (map source_fd evs) \<Longrightarrow> no_lost_edge c \<Longrightarrow> no_lost_edge c'"
  by (induction rule: batch.induct) (auto intro: arrival_keeps(1))

lemma dispatch_events_BusyE:
  assumes "dispatch_events strerror l (ev # evs) = (Busy, l', out)"
  obtains (busy) "dispatch_event strerror l ev = (Busy, l', out)"
  | (later) l1 out1 out2 where "dispatch_event strerror l ev = (Next, l1, out1)"
      "dispatch_events strerror l1 evs = (Busy, l', out2)" "out = out1 @ out2"
  using assms by (auto split: prod.splits dispatch.splits)

lemma own_event_busy:
  assumes "dispatch_event strerror l ev = (Busy, l', out)" and "source_fd ev \<noteq> sh_get (m_server_fd l)"
  shows "handle_client_data strerror l (source_fd ev) (ev_recvs ev) = (Still_reading, l', out)"
  using assms by (auto simp: dispatch_event_def split: if_splits prod.splits data_end.splits)

lemma busy_head:
  assumes "dispatch_event strerror l ev = (Busy, l', out)" and "watches fd l"
    and "source_fd ev = fd \<Longrightarrow> recv_calls c (ev_recvs ev) c1" and "source_fd ev \<noteq> fd \<Longrightarrow> c1 = c"
    and "batch fd c1 evs c'" and "list_all (\<lambda>ev. ev_recvs ev = []) evs" and "accounts got c"
    and "no_lost_edge c \<or> fd \<in> set (map source_fd (ev # evs))"
  shows "accounts (got @ stream_of fd (chunks_of out)) c' \<and>
    (no_lost_edge c' \<or> fd \<in> fst ` set (unfinished strerror l (ev # evs)))"
proof -
  have left: "fst ` set (unfinished strerror l (ev # evs)) = set (map source_fd (ev # evs))"
    using assms(1) by (auto simp: event_key_def image_iff)
  have "accounts (got @ stream_of fd (chunks_of out)) c1"
  proof (cases "source_fd ev = fd")
    case True
    then have "handle_client_data strerror l fd (ev_recvs ev) = (Still_reading, l', out)"
      using own_event_busy [OF assms(1)] assms(2) by (simp add: watches_def)
    then show ?thesis using drain_loop [OF assms(3) [OF True] _ assms(7)] assms(2) by (auto simp: watches_def)
  next
    case False
    then show ?thesis
      using dispatch_event_frame [OF assms(1)] stream_of_others [of "source_fd ev" "chunks_of out" fd] assms(4,7) by simp
  qed
  then have "accounts (got @ stream_of fd (chunks_of out)) c'" by (rule batch_unasked [OF assms(5,6)])
  moreover have "no_lost_edge c'" if "fd \<notin> set (map source_fd (ev # evs))"
    using that assms(4,8) no_lost_edge_unasked [OF assms(5)] by auto
  ultimately show ?thesis unfolding left by blast
qed

lemma batch_so_far:
  assumes "batch fd c evs c'" and "dispatch_events strerror l evs = (Busy, l', out)" and "watches fd l"
    and "still_open fd out" and "accounts got c" and "no_lost_edge c \<or> fd \<in> set (map source_fd evs)"
    and "asked_so_far strerror l evs"
  shows "accounts (got @ stream_of fd (chunks_of out)) c' \<and>
    (no_lost_edge c' \<or> fd \<in> fst ` set (unfinished strerror l evs))"
  using assms
proof (induction arbitrary: l out got rule: batch.induct)
  case (over c)
  then show ?case by simp
next
  case (arrives c c1 evs c')
  then show ?case using arrival_keeps by blast
next
  case (other ev c evs c')
  from other.prems(1) show ?case
  proof (cases rule: dispatch_events_BusyE)
    case busy
    then show ?thesis using busy_head [OF busy other.prems(2) _ _ other.hyps(2)] other.hyps(1) other.prems by simp
  next
    case (later l1 out1 out2)
    note frame = dispatch_event_frame [OF later(1)]
    show ?thesis
      using other.IH [OF later(2) watches_same [OF other.prems(2)], of got] frame other.hyps(1) other.prems later
        stream_of_others [of "source_fd ev" "chunks_of out1" fd]
      by auto
  qed
next
  case (ready ev c c1 evs c')
  from ready.prems(1) show ?case
  proof (cases rule: dispatch_events_BusyE)
    case busy
    then show ?thesis using busy_head [OF busy ready.prems(2) _ _ ready.hyps(4)] ready.hyps(1,3) ready.prems by simp
  next
    case (later l1 out1 out2)
    have "handle_client_data strerror l fd (ev_recvs ev) = (Alive, l1, out1)"
      using own_event [OF later(1) ready.hyps(1)] ready.hyps(2) ready.prems(2,3) later(3) by (simp add: watches_def)
    then have "no_lost_edge c1 \<and> accounts (got @ stream_of fd (chunks_of out1)) c1"
      using drain_loop [OF ready.hyps(3) _ ready.prems(4), of l strerror fd Alive l1 out1] ready.prems(2) by (auto simp: watches_def)
    then show ?thesis
      using ready.IH [OF later(2) watches_same [OF ready.prems(2)], of "got @ stream_of fd (chunks_of out1)"]
        dispatch_event_frame [OF later(1)] ready.prems later by auto
  qed
next
  case (broken ev c evs c')
  from broken.prems(1) show ?case
  proof (cases rule: dispatch_events_BusyE)
    case busy
    then show ?thesis using broken.hyps(1,2) broken.prems(2)
      by (auto simp: dispatch_event_def watches_def split: if_splits prod.splits)
  next
    case (later l1 out1 out2)
    then show ?thesis
      using own_event [OF later(1) broken.hyps(1)] broken.hyps(2) broken.prems(2,3) by (simp add: watches_def)
  qed
qed

text \<open>The same with what \<open>epoll_wait\<close> reported.\<close>

lemma waits_nothing: "waits fd c ws c' \<Longrightarrow> ws = [] \<Longrightarrow> accounts got c \<Longrightarrow> accounts got c' \<and> (no_lost_edge c \<longrightarrow> no_lost_edge c')"
  by (induction rule: waits.induct) (auto intro: arrival_keeps)

lemma waits_so_far:
  assumes "waits fd c ws c'" and "ws = [Events evs]" and "dispatch_events strerror l evs = (Busy, l', out)"
    and "watches fd l" and "still_open fd out" and "accounts got c" and "no_lost_edge c" and "asked_so_far strerror l evs"
  shows "accounts (got @ stream_of fd (chunks_of out)) c' \<and>
    (no_lost_edge c' \<or> fd \<in> fst ` set (unfinished strerror l evs))"
  using assms
proof (induction rule: waits.induct)
  case (arrives c c1 ws c')
  then show ?case using arrival_keeps by blast
next
  case (reported evs' c c1 ws c')
  have "accounts got (c\<lparr>announced := False\<rparr>)" using reported.prems(5) by (simp add: accounts_def)
  then have "accounts (got @ stream_of fd (chunks_of out)) c1 \<and> (no_lost_edge c1 \<or> fd \<in> fst ` set (unfinished strerror l evs))"
    using batch_so_far [OF reported.hyps(3), of strerror l l' out got] reported.prems reported.hyps(1) by simp
  then show ?case using waits_nothing [OF reported.hyps(4)] reported.prems(1) by blast
next
  case (unreported evs' c c1 ws c')
  then have "accounts (got @ stream_of fd (chunks_of out)) c1 \<and> (no_lost_edge c1 \<or> fd \<in> fst ` set (unfinished strerror l evs))"
    using batch_so_far [OF unreported.hyps(2), of strerror l l' out got] by simp
  then show ?case using waits_nothing [OF unreported.hyps(3)] unreported.prems(1) by blast
qed simp_all

text \<open>A turn of the event loop, from \<open>epoll_wait\<close> or from the middle of a batch.\<close>

lemma live_inv_turn:
  assumes inv: "live_inv fd es (s, c)" and "listener_todo s = []" and "looping (listener_at s)"
    and s': "heard s' = heard s" "listener_todo s' = out" "the_listener s' = l" "listener_at s' = after_dispatch r left"
    and frame: "same_fds (the_listener s) l"
    and keeps: "\<lbrakk>watches fd (the_listener s); no_lost_edge c \<or> fd \<in> set (taken (listener_at s)); still_open fd out;
        accounts (stream_of fd (chunks_of (since (length es) s))) c; r = Next \<or> r = Busy\<rbrakk> \<Longrightarrow>
      accounts (stream_of fd (chunks_of (since (length es) s)) @ stream_of fd (chunks_of out)) c' \<and>
      (no_lost_edge c' \<or> r = Busy \<and> fd \<in> fst ` set left)"
  shows "live_inv fd es (s', c')"
proof -
  obtain fs where fs: "heard s = es @ fs" using inv assms(2) by (auto simp: live_inv_def)
  then have split: "since (length es) s' = since (length es) s @ out" "heard s' @ listener_todo s' = es @ since (length es) s'"
    by (simp_all add: since_def s' assms(2))
  have at: "listener_at s' \<notin> {L_start, L_register}" using after_dispatch_simps(5) [of r left] s'(4) by auto
  have "watches fd l \<and> (no_lost_edge c' \<or> fd \<in> set (taken (listener_at s'))) \<and>
      accounts (stream_of fd (chunks_of (since (length es) s'))) c'"
    if open': "looping (listener_at s')" "still_open fd (since (length es) s')"
  proof -
    have r: "r = Next \<or> r = Busy" using open'(1) s'(4) by (cases r) simp_all
    have so: "still_open fd (since (length es) s)" "still_open fd out" using open'(2) by (simp_all add: split(1))
    then have w: "watches fd (the_listener s)" "no_lost_edge c \<or> fd \<in> set (taken (listener_at s))"
        "accounts (stream_of fd (chunks_of (since (length es) s))) c"
      using inv assms(3) by (simp_all add: live_inv_def)
    note keeps [OF w(1,2) so(2) w(3) r]
    with r watches_same [OF w(1) frame] show ?thesis by (elim disjE) (simp_all add: split(1) s'(4))
  qed
  then show ?thesis using at split(2) s'(3) by (simp add: live_inv_def)
qed

lemma live_inv_awaits:
  assumes inv: "live_inv fd es (s, c)" and at: "listener_todo s = []" "listener_at s = L_wait"
    and turn: "listener_turn strerror k s = Some s'" and c: "waits fd c [for_wait k] c'"
    and asked: "asked_so_far strerror (the_listener s) (events_of (for_wait k))"
  shows "live_inv fd es (s', c')"
proof -
  obtain r l out where body: "listener_body strerror (the_listener s) (for_wait k) = (r, l, out)"
    by (metis surj_pair)
  let ?left = "unfinished strerror (the_listener s) (events_of (for_wait k))"
  have s': "heard s' = heard s" "listener_todo s' = out" "the_listener s' = l" "listener_at s' = after_dispatch r ?left"
    using turn at body by (auto simp: listener_turn_def split: if_splits)
  show ?thesis
  proof (rule live_inv_turn [OF inv at(1) _ s' listener_body_frame [OF body]])
    let ?got = "stream_of fd (chunks_of (since (length es) s))"
    assume w: "watches fd (the_listener s)" and "no_lost_edge c \<or> fd \<in> set (taken (listener_at s))"
      and o: "still_open fd out" and a: "accounts ?got c" and "r = Next \<or> r = Busy"
    then have e: "no_lost_edge c" using at(2) by simp
    from \<open>r = Next \<or> r = Busy\<close> show "accounts (?got @ stream_of fd (chunks_of out)) c' \<and>
        (no_lost_edge c' \<or> r = Busy \<and> fd \<in> fst ` set ?left)"
    proof
      assume "r = Next"
      then have "completed strerror (the_listener s) [for_wait k] = Some (l, out)" using body by simp
      then show ?thesis using waits_keep [OF c _ w o a e] by blast
    next
      assume r: "r = Busy"
      then obtain evs out' where "for_wait k = Events evs" "dispatch_events strerror (the_listener s) evs = (Busy, l, out')"
          "out = Polled (map source_fd evs) # out'"
        using body by (auto simp: listener_body_def split: wait_answer.splits if_splits prod.splits)
      then show ?thesis
        using waits_so_far [OF c _ _ w _ a e, of evs strerror l out'] o asked r by (simp add: events_of_def still_open_def)
    qed
  qed (simp add: at(2))
qed

lemma live_inv_goes_on:
  assumes inv: "live_inv fd es (s, c)" and at: "listener_todo s = []" "listener_at s = L_batch left"
    and turn: "listener_turn strerror k s = Some s'" and c: "batch fd c (for_batch k) c'"
    and asked: "asked_so_far strerror (the_listener s) (for_batch k)"
  shows "live_inv fd es (s', c')"
proof -
  obtain r l out where d: "dispatch_events strerror (the_listener s) (for_batch k) = (r, l, out)" by (metis surj_pair)
  let ?left = "unfinished strerror (the_listener s) (for_batch k)"
  have s': "heard s' = heard s" "listener_todo s' = out" "the_listener s' = l" "listener_at s' = after_dispatch r ?left"
    and key: "map event_key (for_batch k) = left"
    using turn at d by (auto simp: listener_turn_def split: if_splits)
  have "set (taken (listener_at s)) = set (map source_fd (for_batch k))"
    using at(2) by (auto simp: event_key_def image_iff simp flip: key)
  note taken = this
  show ?thesis
  proof (rule live_inv_turn [OF inv at(1) _ s' dispatch_events_frame [OF d]])
    let ?got = "stream_of fd (chunks_of (since (length es) s))"
    assume w: "watches fd (the_listener s)" and "no_lost_edge c \<or> fd \<in> set (taken (listener_at s))"
      and o: "still_open fd out" and a: "accounts ?got c" and r: "r = Next \<or> r = Busy"
    then have e: "no_lost_edge c \<or> fd \<in> set (map source_fd (for_batch k))" by (simp add: taken)
    from r show "accounts (?got @ stream_of fd (chunks_of out)) c' \<and> (no_lost_edge c' \<or> r = Busy \<and> fd \<in> fst ` set ?left)"
      using batch_keeps [OF c _ w o a e, of strerror l] batch_so_far [OF c _ w o a e asked, of l] d by blast
  qed (simp add: at(2))
qed

text \<open>The other steps of the listener.\<close>

lemma live_inv_listener:
  assumes inv: "live_inv fd es (s, c)"
    and "listener_todo s \<noteq> [] \<or> listener_at s \<in> {L_start, L_register, L_check, L_return}"
    and turn: "listener_turn strerror k s = Some s'"
  shows "live_inv fd es (s', c)"
proof (cases "listener_todo s")
  case Nil
  then have "listener_at s \<in> {L_check, L_return}" using inv assms(2) by (auto simp: live_inv_def)
  then have "heard s' = heard s" "listener_todo s' = []" "the_listener s' = the_listener s"
    "listener_at s' \<in> {L_wait, L_return, L_done}" "listener_at s' = L_wait \<Longrightarrow> listener_at s = L_check"
    using turn Nil by (auto simp: listener_turn_def split: if_splits)
  then show ?thesis using inv Nil by (auto simp: live_inv_def since_def)
next
  case (Cons e todo)
  have s': "heard s' @ listener_todo s' = heard s @ listener_todo s" "the_listener s' = the_listener s"
    "listener_at s' = listener_at s"
    using listener_perform_turn [OF Cons turn] Cons by simp_all
  then have "since (length es) s' = since (length es) s" by (simp only: since_def)
  then show ?thesis using inv s'(2,3) unfolding live_inv_def prod.case s'(1) by simp
qed

lemma live_inv_step: "live_step native strerror fd x y \<Longrightarrow> live_inv fd es x \<Longrightarrow> live_inv fd es y"
proof (induction rule: live_step.induct)
  case (client c c' s)
  then show ?case using arrival_keeps [OF client(1)] by (auto simp: live_inv_def)
next
  case (worker s s' c)
  then show ?case using worker_step_frame live_inv_same by blast
qed (blast intro: live_inv_awaits live_inv_goes_on live_inv_listener live_inv_same main_turn_frame(1) sigint_frame(1))+

lemma live_run_inv: "(live_step native strerror fd)\<^sup>*\<^sup>* x y \<Longrightarrow> live_inv fd es x \<Longrightarrow> live_inv fd es y"
  by (induction rule: rtranclp_induct) (auto intro: live_inv_step)

text \<open>As long as the kernel keeps the protocol, the listener's descriptors are what it takes them for.\<close>

lemma alive_listening:
  assumes "listener_alive strerror port l es" and "audit (\<lambda>_. Free) es \<noteq> Kernel_broke"
  shows "listening l"
proof -
  obtain sa ea l0 out0 ws out1 where ready: "listener_setup strerror sa ea (NetworkListener_ctor port) = (None, l0, out0)"
    and ws: "completed strerror l0 ws = Some (l, out1)" and es: "es = out0 @ out1"
    using assms(1) unfolding listener_alive_def by blast
  have "audit (\<lambda>_. Free) out0 \<noteq> Kernel_broke" using assms(2) by (auto simp: es audit_append)
  then have l0: "listening l0" "audit (\<lambda>_. Free) out0 = Fine (fd_states l0)"
    using listener_setup_good [OF ready] by auto
  have "listener_loop strerror l0 (map (Pair False) ws) = (Listening, l, out1)"
    using completed_loop [OF ws, of "[]"] by simp
  from listener_loop_good [OF this l0(1)] assms(2) l0(2) show ?thesis
    by (auto simp: es audit_append good_part_def)
qed

section \<open>Runs\<close>

lemma performs_live: "(performs strerror)\<^sup>*\<^sup>* s s' \<Longrightarrow> (live_step native strerror fd)\<^sup>*\<^sup>* (s, c) (s', c)"
proof (induction rule: rtranclp_induct)
  case (step s1 s2)
  then have "live_step native strerror fd (s1, c) (s2, c)"
    unfolding performs_def by (metis live_step.listener terminated_def)
  with step.IH show ?case by (rule rtranclp.rtrancl_into_rtrancl)
qed simp

lemma workers_live: "(worker_step native)\<^sup>*\<^sup>* s s' \<Longrightarrow> (live_step native strerror fd)\<^sup>*\<^sup>* (s, c) (s', c)"
proof (induction rule: rtranclp_induct)
  case (step s1 s2)
  then have "live_step native strerror fd (s1, c) (s2, c)" by (blast intro: live_step.worker)
  with step.IH show ?case by (rule rtranclp.rtrancl_into_rtrancl)
qed simp

lemma asked_all: "dispatch_events strerror l evs = (Next, l', out) \<Longrightarrow> asked_so_far strerror l evs"
  by (induction evs arbitrary: l out) (auto split: prod.splits dispatch.splits)

lemma live_reaches_idle:
  assumes at: "listener_at s0 = L_check" "listener_todo s0 = []" "\<not> listener_stop s0"
    and inv: "server_inv native strerror port printed greeting s0"
    and body: "listener_body strerror (the_listener s0) w = (Next, l, out)" and "reports w"
    and c: "waits fd c [w] c'"
  shows "\<exists>s. (live_step native strerror fd)\<^sup>*\<^sup>* (s0, c) (s, c') \<and> idle native s \<and> heard s = heard s0 @ out"
proof -
  let ?k = "(undefined :: kernel)\<lparr>for_wait := w\<rparr>" and ?s1 = "s0\<lparr>listener_at := L_wait\<rparr>"
  let ?s2 = "?s1\<lparr>the_listener := l, listener_todo := out, listener_at := L_check\<rparr>"
  have q: "m_max_size (raw_queue s0) = 0" "m_max_size (log_queue s0) = 0" "parser_at s0 \<noteq> P_crashed"
    using inv by (simp_all add: server_inv_def queues_inv_def parser_link_def)
  have "epoll_allows ?s1 w" using reports_allowed [OF assms(6), of strerror ?s1 l out] body by simp
  then have t: "listener_turn strerror ?k s0 = Some ?s1" "listener_turn strerror ?k ?s1 = Some ?s2"
    using at body by (simp_all add: listener_turn_def)
  have asked: "asked_so_far strerror (the_listener s0) (events_of w)"
    using body by (auto simp: listener_body_def events_of_def split: wait_answer.splits prod.splits intro: asked_all)
  have 1: "live_step native strerror fd (s0, c) (?s1, c)"
    using t(1) at q(3) by (intro live_step.listener) (auto simp: terminated_def)
  have 2: "live_step native strerror fd (?s1, c) (?s2, c')"
    using t(2) at c q(3) asked by (intro live_step.awaits) (auto simp: terminated_def)
  obtain s3 where s3: "(performs strerror)\<^sup>*\<^sup>* ?s2 s3" "only_listener ?s2 s3" "listener_todo s3 = []"
    "heard s3 = heard s0 @ out" "listener_at s3 = L_check"
    using listener_performs_all [of ?s2 strerror] q by auto
  then have "listener_turn strerror ?k s3 = Some (s3\<lparr>listener_at := L_wait\<rparr>)"
    using at(3) by (simp add: listener_turn_def only_listener_def same_stops_def)
  moreover have "\<not> terminated s3" using s3(2,5) q(3) by (simp add: terminated_def only_listener_def same_workers_def)
  ultimately have 4: "live_step native strerror fd (s3, c') (s3\<lparr>listener_at := L_wait\<rparr>, c')"
    using s3(3,5) by (intro live_step.listener) auto
  have run: "(live_step native strerror fd)\<^sup>*\<^sup>* (s0, c) (s3\<lparr>listener_at := L_wait\<rparr>, c')"
    using 1 2 performs_live [OF s3(1)] 4 by (meson converse_rtranclp_into_rtranclp rtranclp.rtrancl_into_rtrancl rtranclp_trans)
  then have "(server_step native strerror)\<^sup>*\<^sup>* s0 (s3\<lparr>listener_at := L_wait\<rparr>)" using live_run_server by fastforce
  then have "server_inv native strerror port printed greeting (s3\<lparr>listener_at := L_wait\<rparr>)"
    using inv by (induction rule: rtranclp_induct) (auto intro: server_inv_step)
  then obtain s where s: "(worker_step native)\<^sup>*\<^sup>* (s3\<lparr>listener_at := L_wait\<rparr>) s"
    "same_listener (s3\<lparr>listener_at := L_wait\<rparr>) s" "idle native s"
    using workers_reach_idle [of "s3\<lparr>listener_at := L_wait\<rparr>" native strerror port printed greeting] s3(3) by auto
  have "(live_step native strerror fd)\<^sup>*\<^sup>* (s0, c) (s, c')"
    using run workers_live [OF s(1)] by (meson rtranclp_trans)
  then show ?thesis using s s3(4) by (intro exI [of _ s]) (simp add: same_listener_def)
qed

end
