(* ===== verification/Spec2Isabelle.thy ===== *)
theory Spec2Isabelle
  imports Live_Connection
begin

text \<open>
  \<^bold>\<open>Counter-drone streaming parser\<close>: a TCP server in C++20 that reads telemetry packets of drones
  from many connections, checks and decodes them, keeps the last record of every drone, raises alerts
  and logs. This development models its sources (\<open>src/src/*.cpp\<close>, \<open>src/include/*.h\<close>) and, of the load
  test \<open>src/tests/drone_load_test.py\<close>, the functions that build packets. It proves what the parts
  promise one another and what the whole program does under every interleaving of its threads.

  \<^bold>\<open>The program.\<close> Five threads and three queues (\<open>main.cpp\<close>). The listener (\<open>NetworkListener\<close>) runs an
  epoll loop and pushes every \<open>recv\<close> as a \<open>DataChunk\<close> to the raw queue; an empty chunk announces a
  disconnect. The parser (\<open>StreamingParser\<close>) keeps a ring buffer and a three-state machine per client,
  finds frames (\<open>0xAA55\<close>, length, payload, CRC-16) and pushes decoded \<open>Telemetry\<close> to the parsed queue.
  The business logic (\<open>BusinessLogic\<close>) keeps the drone table and the counters. All three push messages
  to the log queue, which the logger (\<open>AsyncLogger\<close>) writes. Main waits for SIGINT and then stops and
  joins the threads in the order of the data flow.

  \<^bold>\<open>Theories\<close>, in the order of their imports.

  \<^item> \<open>Prelude\<close>: machine types, \<open>size_t\<close> arithmetic with its wrap-around, exceptions as values
    (\<open>cpp_error\<close>, \<open>res\<close>; undefined behaviour is an error of its own, so that its absence is part of what
    is proved), bounds-checked \<open>memcpy\<close>; the locales \<open>functional_refinement\<close> (a step function and its
    specification), \<open>simulation\<close> (two step relations) and \<open>decreasing_system\<close> (a step relation that comes to rest).
  \<^item> \<open>Ring_Buffer\<close> (\<open>ringBuffer.h/.cpp\<close>): every member function with its two \<open>memcpy\<close> segments and
    exceptions. Refinement to a bounded list; the interface \<open>byte_fifo\<close> for the parser.
  \<^item> \<open>Byte_Order\<close>, \<open>Crc16\<close>, \<open>Telemetry_Packet\<close> (\<open>streamingParser.cpp\<close>, \<open>telemetry.h\<close>, the packet builder of
    the load test): \<open>from_big_endian\<close> on both kinds of host, \<open>compute_crc16\<close> and its equality with the
    catalogue's CRC-16/MODBUS, \<open>deserialize_payload\<close> with every bounds check, round trip and safety.
  \<^item> \<open>Streaming_Parser\<close> (\<open>streamingParser.h/.cpp\<close>): \<open>ClientState\<close>, one definition per case of
    \<open>process_client\<close>, the loop with its termination proof, the body of the loop of \<open>run\<close> with its
    handlers, \<open>run\<close>. \<open>Stream_Spec\<close> is the wire protocol on plain byte lists (\<open>frame_step\<close>, \<open>scan\<close>);
    \<open>Parser_Refinement\<close> shows that the state machine computes the scan; \<open>Parser_Properties\<close> concludes:
    the thread implements the stream specification, streams are isolated, framing is sound and complete,
    the parser resynchronises, damaged payloads are rejected wherever they stand, buffers stay bounded.
  \<^item> \<open>Thread_Safe_Queue\<close> (\<open>threadSafeQueue.h\<close>): the critical sections of \<open>push\<close>, \<open>pop\<close> and \<open>size\<close>; the
    interface \<open>fifo_channel\<close>; the monitor with its two condition variables, \<open>notify_one\<close>, stop tokens and
    spurious wake-ups as the step relation \<open>mstep\<close> over any number of threads. FIFO order, no stranded
    consumers or producers, stop requests (which notify all waiters of a condition variable) unblock,
    and a lost wake-up of bounded queues.
    \<open>Queue_Refinement\<close>: in the way the program uses its queues (unbounded, one consumer each) the monitor
    and a channel with atomic operations simulate one another.
  \<^item> \<open>Socket_Handle\<close>, \<open>Network_Listener\<close>, \<open>Listener_Protocol\<close> (\<open>listener.h/.cpp\<close>): the owning handle, the
    whole listener, and an automaton that audits its use of descriptors: it never closes a descriptor it
    does not hold, leaks none, and reports every disconnect to the parser. \<open>Edge_Triggered\<close>: one connection
    in the kernel, and that the drain loop leaves nothing on an edge-triggered socket unannounced.
  \<^item> \<open>Ieee_Double\<close>, \<open>Business_Logic\<close> (\<open>businessLogic.h/.cpp\<close>): binary64 values as bit patterns with the
    comparison, division, conversion and formatting that the code uses; table, alerts, reports.
  \<^item> \<open>Async_Logger\<close> (\<open>asyncLogger.h/.cpp\<close>), \<open>Command_Line\<close> (the argument loop of \<open>main\<close>).
  \<^item> \<open>Pipeline\<close> (\<open>main.cpp\<close> and the \<open>run\<close> functions): the running program as the step relation
    \<open>server_step\<close> over the record \<open>server\<close>: the five threads, the handler of SIGINT, the stop flags and
    the eventfd. \<open>Pipeline_Invariants\<close> proves what every step keeps: queues and history agree, each
    thread has done what its own theory says (\<open>listener_link\<close>, \<open>parser_link\<close>, \<open>business_link\<close>), stop
    flags and joins follow the order of the shutdown, a stopped listener is always woken.
    \<open>Pipeline_Reachable\<close> collects them into \<open>server_inv\<close>, and gives the progress and termination
    arguments (interpretations of \<open>decreasing_system\<close>). \<open>Server_Properties\<close> concludes: the table
    follows the streams, an idle server has processed everything, the threads stay up until SIGINT,
    a shutdown never gets stuck and goes on for ever only if a client feeds a loop of the listener for
    ever (which is possible), no message is lost, and what is left in the data queues at exit.
  \<^item> \<open>Live_Connection\<close>: the program and a client in parallel (\<open>live_step\<close>): what the client sent is what the
    listener enqueued and what the kernel still holds, in every interleaving, in the middle of a batch too.
  \<^item> This theory: the path of a packet through all components, from the sender to the table, and from the
    bytes that arrive at a socket to the table.

  \<^bold>\<open>How code is modelled.\<close> A class is a record, a member function a function on it that returns the
  new object with its effects in order (messages, queue pushes, system calls), an exception a value.
  Code outside the sources is a parameter: the answers of the kernel (return value and \<open>errno\<close> of every
  call, the events of \<open>epoll_wait\<close>, the bytes of \<open>recv\<close>) are lists given to the listener, the file system
  and \<open>strerror\<close> are functions, the clock is an argument. A list of answers that ends while the code would
  go on gives the result \<open>Listening\<close>, \<open>Still_reading\<close> or \<open>Running\<close>, so that finite prefixes of endless
  runs are covered and nothing is claimed to return that does not. No fuel is used: \<open>process_client\<close>,
  the drain of the logger and the scan terminate on every input by a measure (for \<open>process_client\<close> three
  times the number of buffered bytes plus the rank of the state).

  \<^bold>\<open>Concurrency.\<close> The queue is proved correct as a monitor on its own; its critical sections are then the
  atomic steps of the program, which \<open>queue_calls_are_atomic\<close> justifies. A step of \<open>server_step\<close> is one access to shared state by one thread, with
  the thread's computation since its previous access; the stop flags are read where the code reads the
  stop token. The kernel answers the listener anew in every step (\<open>record kernel\<close>); what is assumed of it is
  that \<open>epoll_wait\<close> with an infinite timeout reports between 1 and 64 events, and the eventfd only while
  its counter is positive (\<open>epoll_allows\<close>). \<open>request_stop\<close> is two steps, setting the stop state and
  calling the registered callback, so that its race with the registration in the listener is covered.
  A batch of events is handled in as many steps as the kernel likes: whenever the answers to \<open>accept\<close> and
  \<open>recv\<close> leave a loop running, the listener is at \<open>L_batch\<close> with the events that are not done, and goes on
  with further answers; the pushes it makes are separate steps (\<open>dispatch_events_resume\<close> shows that the
  cuts make no difference to what the batch computes). SIGINT may come at any moment; main's poll of the
  flag is a step that is enabled once the flag is set. An exception that escapes a thread ends the
  process: no step is possible in a \<open>terminated\<close> state. Before a stop request a server may run for ever,
  as long as the network feeds it. From the request on every step decreases a lexicographic measure
  along the data flow (\<open>work_left\<close>) except one (\<open>feeds\<close>), with which the kernel gives the running accept or
  receive loop another connection or more bytes: these loops do not look at the stop token.

  \<^bold>\<open>Not modelled.\<close> Allocation failure other than the size limit of a vector; failure of writes to
  stdout and to the log file; time: the length of the sleep between two polls and of anything else, and
  the 64-bit limit of the clock's count (time points are integers); the drone profiles, sockets and
  statistics of the load test; the build files and scripts.
\<close>

section \<open>From a drone to the table\<close>

text \<open>The packets that the stream specification reads, with the client whose chunk completed them.\<close>

fun packet_sources :: "streams \<Rightarrow> DataChunk list \<Rightarrow> (int \<times> Telemetry) list" where
  "packet_sources st [] = []"
| "packet_sources st (c # cs) =
     (case stream_step st c of (st', r) \<Rightarrow> map (Pair (client_id c)) (packets_of (snd r)) @ packet_sources st' cs)"

declare stream_step.simps [simp del]

lemma packet_sources_append:
  "packet_sources st (cs @ cs') = packet_sources st cs @ packet_sources (fst (run_steps stream_step st cs)) cs'"
  by (induction cs arbitrary: st) (simp_all add: split_def Let_def)

lemma packet_sources_all:
  "map snd (packet_sources st cs) = packets_of (concat (map snd (snd (run_steps stream_step st cs))))"
  by (induction cs arbitrary: st) (simp_all add: split_def Let_def comp_def)

lemma packet_sources_own:
  "map snd (filter (\<lambda>x. fst x = fd) (packet_sources st cs)) =
   packets_of (effects_of fd cs (snd (run_steps stream_step st cs)))"
  by (induction cs arbitrary: st) (simp_all add: effects_of_def split_def Let_def comp_def filter_map)

lemma packet_sources_disconnect:
  "list_all (\<lambda>c. client_id c = fd \<longrightarrow> chunk_data c = []) cs \<Longrightarrow>
   filter (\<lambda>x. fst x = fd) (packet_sources st cs) = []"
proof (induction cs arbitrary: st)
  case (Cons c cs)
  have "client_id c = fd \<Longrightarrow> packets_of (snd (snd (stream_step st c))) = []"
    using Cons.prems by (cases st) (simp add: stream_step.simps Let_def)
  then show ?case using Cons by (cases "client_id c = fd") (simp_all add: split_def filter_map comp_def)
qed simp

lemma packet_sources_client: "(fd, t) \<in> set (packet_sources st cs) \<Longrightarrow> \<exists>c\<in>set cs. client_id c = fd"
proof (induction cs arbitrary: st)
  case (Cons c cs)
  obtain st' r where "stream_step st c = (st', r)" by (metis surj_pair)
  then show ?case using Cons.prems Cons.IH [of st'] by auto
qed simp

text \<open>No connection with this descriptor is open after the chunks.\<close>

definition closed_after :: "int \<Rightarrow> DataChunk list \<Rightarrow> bool" where
  "closed_after fd cs \<longleftrightarrow> (let own = filter (\<lambda>c. client_id c = fd) cs in own = [] \<or> chunk_data (last own) = [])"

lemma closed_after_tail:
  "closed_after fd cs \<Longrightarrow> tail_of fd (fst (fst (run_steps stream_step (Map.empty, n) cs))) = []"
proof (induction cs rule: rev_induct)
  case Nil
  then show ?case by (simp add: tail_of_def)
next
  case (snoc c cs)
  obtain tails m where st: "fst (run_steps stream_step (Map.empty, n) cs) = (tails, m)" by fastforce
  show ?case
  proof (cases "client_id c = fd")
    case True
    then show ?thesis using snoc.prems
      by (simp add: run_steps_snoc st closed_after_def stream_step.simps Let_def tail_of_def)
  next
    case False
    then have "closed_after fd cs" using snoc.prems by (simp add: closed_after_def)
    then show ?thesis
      using snoc.IH stream_step_other [of tails m c "fst (fst (stream_step (tails, m) c))" _ _ fd] False
      by (simp add: run_steps_snoc st) (metis prod.collapse)
  qed
qed

lemma latest_eq:
  "latest ps d = (let own = filter (\<lambda>t. drone_id t = d) ps in if own = [] then None else Some (last own))"
  by (induction ps rule: rev_induct) (auto simp: latest_def Let_def)

lemma latest_session:
  assumes "filter (\<lambda>t. drone_id t = d) all = ps @ filter (\<lambda>t. drone_id t = d) ts" and "d \<in> drone_id ` set ts"
  shows "latest all d = Some (last (filter (\<lambda>t. drone_id t = d) ts))"
proof -
  have "filter (\<lambda>t. drone_id t = d) ts \<noteq> []" using assms(2) by (auto simp: filter_empty_conv)
  then show ?thesis by (simp add: latest_eq assms(1))
qed

lemma packets_of_Parsed: "packets_of (map Parsed ts) = ts"
  by (induction ts) simp_all

text \<open>What a client sends over one connection, as far as it concerns drone \<open>d\<close>.\<close>

lemma session_packets:
  assumes "closed_after fd earlier" and "keeps_open fd session"
    and "list_all (\<lambda>c. client_id c = fd \<longrightarrow> chunk_data c = []) later"
    and "list_all sendable ts" and "stream_of fd session = concat (map (\<lambda>t. the (build_packet t False)) ts)"
    and only: "\<And>fd' t. (fd', t) \<in> set (packet_sources (Map.empty, 0) (earlier @ session @ later)) \<Longrightarrow>
      drone_id t = d \<Longrightarrow> fd' = fd"
  shows "\<exists>ps. filter (\<lambda>t. drone_id t = d) (packets_of (spec_effects (earlier @ session @ later))) =
    ps @ filter (\<lambda>t. drone_id t = d) ts"
proof -
  let ?d = "\<lambda>x. drone_id (snd x) = d" and ?all = "packet_sources (Map.empty, 0) (earlier @ session @ later)"
  obtain st st' where st: "fst (run_steps stream_step (Map.empty, 0) earlier) = st"
    "fst (run_steps stream_step st session) = st'" by blast
  then have "tail_of fd (fst st) = []" using closed_after_tail [OF assms(1), of 0] by simp
  then have "effects_of fd session (snd (run_steps stream_step st session)) = map Parsed ts"
    using streams_one_client [OF assms(2), of "fst st" "snd st"] scan_packets [OF assms(4), of "[]"]
    by (simp add: assms(5) comp_def frame_step_def)
  then have "map snd (filter (\<lambda>x. fst x = fd) (packet_sources st session)) = ts"
    using packets_of_Parsed [of ts] by (simp add: packet_sources_own)
  then have own: "map snd (filter ?d (filter (\<lambda>x. fst x = fd) (packet_sources st session))) =
      filter (\<lambda>t. drone_id t = d) ts"
    by (auto simp: filter_map comp_def)
  have "?all = packet_sources (Map.empty, 0) earlier @ packet_sources st session @ packet_sources st' later"
    by (simp add: packet_sources_append st)
  moreover have "filter ?d ?all = filter ?d (filter (\<lambda>x. fst x = fd) ?all)"
    using only by (auto intro!: filter_cong)
  ultimately have "filter ?d ?all = filter ?d (filter (\<lambda>x. fst x = fd) (packet_sources (Map.empty, 0) earlier)) @
      filter ?d (filter (\<lambda>x. fst x = fd) (packet_sources st session))"
    using packet_sources_disconnect [OF assms(3), of st'] by simp
  then have "map snd (filter ?d ?all) =
      map snd (filter ?d (filter (\<lambda>x. fst x = fd) (packet_sources (Map.empty, 0) earlier))) @
      filter (\<lambda>t. drone_id t = d) ts"
    using own by (simp only: map_append)
  moreover have "map snd (filter ?d ?all) =
      filter (\<lambda>t. drone_id t = d) (packets_of (spec_effects (earlier @ session @ later)))"
    by (simp add: spec_effects_def filter_map comp_def flip: packet_sources_all)
  ultimately show ?thesis by metis
qed

section \<open>Properties\<close>

text \<open>
  C2: from the sender to the table. A drone connects with a descriptor that no open connection has
  and sends the packets that \<open>build_packet\<close> makes of \<open>ts\<close>; the kernel delivers the bytes in pieces of
  any size, interleaved with the traffic of any other clients, and the connection stays open or is
  closed afterwards. Once the threads have nothing left to do, whatever their schedule was, the
  business logic has for every drone that \<open>ts\<close> reports, and nobody else does, the last record of \<open>ts\<close>
  about it, unchanged.
\<close>

theorem drone_reaches_table:
  assumes "(server_step native strerror)\<^sup>*\<^sup>* (start_server port lg greeting) s" and "idle native s"
    and chunks: "chunks_of (heard s) = earlier @ session @ later"
    and "closed_after fd earlier" and "keeps_open fd session"
    and "list_all (\<lambda>c. client_id c = fd \<longrightarrow> chunk_data c = []) later"
    and "list_all sendable ts" and "stream_of fd session = concat (map (\<lambda>t. the (build_packet t False)) ts)"
    and "\<And>fd' t. (fd', t) \<in> set (packet_sources (Map.empty, 0) (earlier @ session @ later)) \<Longrightarrow>
      drone_id t = d \<Longrightarrow> fd' = fd"
    and "d \<in> drone_id ` set ts"
  shows "map_of (m_drones (the_business s)) d = Some (last (filter (\<lambda>t. drone_id t = d) ts))"
proof -
  have "map_of (m_drones (the_business s)) = latest (packets_of (spec_effects (earlier @ session @ later)))"
    using idle_table [OF assms(1,2)] by (simp add: chunks)
  moreover obtain ps where "filter (\<lambda>t. drone_id t = d) (packets_of (spec_effects (earlier @ session @ later))) =
      ps @ filter (\<lambda>t. drone_id t = d) ts"
    using session_packets [OF assms(4-8), of d] assms(9) by blast
  ultimately show ?thesis using latest_session assms(10) by metis
qed

theorem drone_reaches_table_witness:
  "\<exists>s. (server_step little (\<lambda>_. ''error''))\<^sup>*\<^sup>* sample_start s \<and> idle little s \<and>
     map_of (m_drones (the_business s)) ''D1'' = Some sample"
proof -
  let ?bs = "the (build_packet sample False)"
  let ?as = "[\<lparr>a_recv = (7, 0), recv_bytes = take 7 ?bs\<rparr>, \<lparr>a_recv = (43, 0), recv_bytes = drop 7 ?bs\<rparr>]"
  let ?cs = "map (\<lambda>a. \<lparr>client_id = 6, chunk_data = recv_bytes a\<rparr>) ?as"
  have len: "length ?bs = 50" using length_build_packet [OF sample_sendable] by (simp add: sample_def)
  then have "list_all delivers ?as" by (auto simp: delivers_def RECV_BUF_SIZE_def)
  then obtain s where s: "(server_step little (\<lambda>_. ''error''))\<^sup>*\<^sup>* (start_server 9000 AsyncLogger_ctor []) s"
      "idle little s" "chunks_of (heard s) = [] @ ?cs @ []"
    using drone_idle [of ?as little "\<lambda>_. ''error''" 9000 AsyncLogger_ctor "[]"] by auto
  have "map_of (m_drones (the_business s)) ''D1'' = Some (last (filter (\<lambda>t. drone_id t = ''D1'') [sample]))"
  proof (rule drone_reaches_table [OF s])
    show "closed_after 6 []" by (simp add: closed_after_def)
    show "keeps_open 6 ?cs" using len by (auto simp: keeps_open_def)
    show "stream_of 6 ?cs = concat (map (\<lambda>t. the (build_packet t False)) [sample])" by (simp add: stream_of_def)
    show "fd' = 6" if "(fd', t) \<in> set (packet_sources (Map.empty, 0) ([] @ ?cs @ []))" for fd' t
      using packet_sources_client [OF that] by auto
  qed (simp_all add: sample_sendable, simp add: sample_def)
  then show ?thesis using s unfolding sample_start_def by (auto simp: sample_def)
qed

text \<open>
  C1: from the socket to the table. A client is connected with a descriptor that was not in use, and the
  program runs on together with it, in any interleaving and with the client's bytes arriving at any
  moment, also while the listener is reading. Whenever the threads have nothing left to do, the kernel
  has nothing to report for the socket and the connection was not given up, then if what the client
  has sent are packets of \<open>build_packet\<close>, the business logic has for every drone that they report, and
  nobody else does, the last record.
\<close>

theorem drone_bytes_reach_table:
  assumes start: "(server_step native strerror)\<^sup>*\<^sup>* (start_server port lg greeting) s0"
    and "audit (\<lambda>_. Free) (heard s0) \<noteq> Kernel_broke"
    and at: "listener_at s0 = L_check" "listener_todo s0 = []" and "l_clients (the_listener s0) fd = Some h"
    and "closed_after fd (chunks_of (heard s0))" and "arrived c0 = unread c0" and "no_lost_edge c0"
    and run: "(live_step native strerror fd)\<^sup>*\<^sup>* (s0, c0) (s, c)"
    and "idle native s" and "\<not> announced c" and "still_open fd (since (length (heard s0)) s)"
    and "list_all sendable ts" and "arrived c = concat (map (\<lambda>t. the (build_packet t False)) ts)"
    and "\<And>fd' t. (fd', t) \<in> set (packet_sources (Map.empty, 0) (chunks_of (heard s))) \<Longrightarrow>
      drone_id t = d \<Longrightarrow> fd' = fd"
    and "d \<in> drone_id ` set ts"
  shows "map_of (m_drones (the_business s)) d = Some (last (filter (\<lambda>t. drone_id t = d) ts))"
proof -
  have "listener_alive strerror port (the_listener s0) (heard s0)"
    using server_reachable [OF start] at by (simp add: server_inv_def listener_link_def)
  then have "listening (the_listener s0)" using alive_listening assms(2) by blast
  then have "watches fd (the_listener s0)" using assms(5) by (auto simp: watches_def listening_def sh_get_def)
  then have "live_inv fd (heard s0) (s0, c0)"
    using at assms(7,8) by (simp add: live_inv_def since_def still_open_def accounts_def stream_of_def)
  then have inv: "live_inv fd (heard s0) (s, c)" by (rule live_run_inv [OF run])
  let ?new = "chunks_of (since (length (heard s0)) s)"
  have "no_lost_edge c" "accounts (stream_of fd ?new) c" and h: "heard s = heard s0 @ since (length (heard s0)) s"
    using inv assms(10,12) by (simp_all add: live_inv_def idle_def)
  then have stream: "stream_of fd ?new = concat (map (\<lambda>t. the (build_packet t False)) ts)"
    using assms(11,14) by (simp add: no_lost_edge_def accounts_def)
  have chunks: "chunks_of (heard s) = chunks_of (heard s0) @ ?new @ []" by (subst h) simp
  have "keeps_open fd ?new"
    using assms(12) by (auto simp: keeps_open_def still_open_def list_all_iff)
      (metis (full_types) DataChunk.surjective old.unit.exhaust)
  then obtain ps where "filter (\<lambda>t. drone_id t = d) (packets_of (spec_effects (chunks_of (heard s)))) =
      ps @ filter (\<lambda>t. drone_id t = d) ts"
    using session_packets [OF assms(6) _ _ assms(13) stream, of "[]" d] assms(15) unfolding chunks by auto
  moreover have "map_of (m_drones (the_business s)) = latest (packets_of (spec_effects (chunks_of (heard s))))"
    using idle_table [OF _ assms(10)] start live_run_server [OF run] by (metis fst_conv rtranclp_trans)
  ultimately show ?thesis using latest_session assms(16) by metis
qed

text \<open>A client whose packet arrives, is read in one piece and processed.\<close>

definition packet_arrives :: wait_answer where
  "packet_arrives = Events [\<lparr>source_fd = 6, ev_flags = 1, ev_accepts = [], ev_recvs =
     [\<lparr>a_recv = (50, 0), recv_bytes = the (build_packet sample False)\<rparr>, \<lparr>a_recv = (- 1, EAGAIN), recv_bytes = []\<rparr>]\<rparr>]"

lemma length_sample_packet: "length (the (build_packet sample False)) = 50"
  using length_build_packet [OF sample_sendable] by (simp add: sample_def)

lemma sample_packet_nonempty: "the (build_packet sample False) \<noteq> []"
  using length_sample_packet by (metis list.size(3) zero_neq_numeral)

lemma packet_read:
  assumes "sh_get (m_event_fd l) = 5" and "sh_get (m_server_fd l) = 3" and "length (m_recv_buf l) = RECV_BUF_SIZE"
  shows "\<exists>l'. listener_body strerror l packet_arrives = (Next, l',
    [Polled [6], Enqueue \<lparr>client_id = 6, chunk_data = the (build_packet sample False)\<rparr>])"
proof -
  let ?a = "\<lparr>a_recv = (50, 0), recv_bytes = the (build_packet sample False)\<rparr>"
    and ?again = "\<lparr>a_recv = (- 1, EAGAIN), recv_bytes = []\<rparr>"
  have "list_all delivers [?a]" by (simp add: delivers_def RECV_BUF_SIZE_def length_sample_packet sample_packet_nonempty)
  then have "\<exists>b. handle_client_data strerror l 6 [?a, ?again] =
      (Alive, l\<lparr>m_recv_buf := b\<rparr>, [Enqueue \<lparr>client_id = 6, chunk_data = recv_bytes ?a\<rparr>])"
    using relays [of "[?a]" l strerror 6 "[?again]"] assms(3) by auto
  then show ?thesis
    using assms(1,2) by (auto simp: packet_arrives_def listener_body_def dispatch_event_def EPOLLIN_def EPOLLERR_def EPOLLHUP_def
        simp del: handle_client_data.simps)
qed

lemma packet_arrives_answers:
  "waits 6 \<lparr>unread = [], ended = False, announced = False, arrived = []\<rparr> [packet_arrives]
     \<lparr>unread = [], ended = False, announced = False, arrived = the (build_packet sample False)\<rparr>"
proof -
  let ?bs = "the (build_packet sample False)"
  let ?c = "\<lambda>bs n. \<lparr>unread = bs, ended = False, announced = n, arrived = ?bs\<rparr>"
  have "recv_calls (?c [] False) [\<lparr>a_recv = (- 1, EAGAIN), recv_bytes = []\<rparr>] (?c [] False)"
    by (rule recv_calls.would_block) simp_all
  then have "recv_calls (?c ?bs False) [\<lparr>a_recv = (int (length ?bs), 0), recv_bytes = ?bs\<rparr>,
      \<lparr>a_recv = (- 1, EAGAIN), recv_bytes = []\<rparr>] (?c [] False)"
    by (intro recv_calls.data [where rest = "[]"]) (simp_all add: RECV_BUF_SIZE_def length_sample_packet sample_packet_nonempty)
  then have "waits 6 (?c ?bs True) [packet_arrives] (?c [] False)"
    unfolding packet_arrives_def
    by (intro waits.reported [OF _ _ batch.ready [OF _ _ _ batch.over] waits.over])
      (simp_all add: length_sample_packet EPOLLIN_def)
  then show ?thesis
    using waits.arrives [OF arrival.bytes [of "\<lparr>unread = [], ended = False, announced = False, arrived = []\<rparr>" ?bs]] by simp
qed

theorem drone_bytes_reach_table_witness:
  "\<exists>s0 s c. (server_step little (\<lambda>_. ''error''))\<^sup>*\<^sup>* sample_start s0 \<and>
     (live_step little (\<lambda>_. ''error'') 6)\<^sup>*\<^sup>* (s0, \<lparr>unread = [], ended = False, announced = False, arrived = []\<rparr>) (s, c) \<and>
     map_of (m_drones (the_business s)) ''D1'' = Some sample"
proof -
  let ?bs = "the (build_packet sample False)" and ?err = "\<lambda>_ :: nat. ''error''"
  let ?none = "\<lparr>unread = [], ended = False, announced = False, arrived = []\<rparr>"
  let ?c = "\<lparr>unread = [], ended = False, announced = False, arrived = ?bs\<rparr>"
  let ?out = "[Polled [6], Enqueue \<lparr>client_id = 6, chunk_data = ?bs\<rparr>]"
  obtain l0 out0 l out1 where l: "listener_setup ?err kernel_server kernel_epoll (NetworkListener_ctor 9000) = (None, l0, out0)"
      "completed ?err l0 [Events [\<lparr>source_fd = 3, ev_flags = 1, ev_accepts = kernel_accepts, ev_recvs = []\<rparr>]] = Some (l, out1)"
      "chunks_of (out0 @ out1) = []" "l_clients l 6 = Some \<lparr>m_fd = 6\<rparr>" "sh_get (m_event_fd l) = 5"
      "sh_get (m_server_fd l) = 3" "length (m_recv_buf l) = RECV_BUF_SIZE" "audit (\<lambda>_. Free) (out0 @ out1) \<noteq> Kernel_broke"
    using client_accepted [of ?err 9000] by blast
  have "list_all reports [Events [\<lparr>source_fd = 3, ev_flags = 1, ev_accepts = kernel_accepts, ev_recvs = []\<rparr>]]"
    by (simp add: reports_def MAX_EPOLL_EVENTS_def)
  then obtain s0 where s0: "(server_step little ?err)\<^sup>*\<^sup>* (start_server 9000 AsyncLogger_ctor []) s0"
      "only_listener (start_server 9000 AsyncLogger_ctor []) s0" "listener_todo s0 = []" "listener_at s0 = L_check"
      "heard s0 = out0 @ out1" "the_listener s0 = l"
    using listener_reaches [OF l(1) _ l(2), of little AsyncLogger_ctor "[]"] by blast
  obtain l' where body: "listener_body ?err (the_listener s0) packet_arrives = (Next, l', ?out)"
    using packet_read [OF l(5-7)] s0(6) by blast
  have q: "\<not> listener_stop s0" using s0(2) by (simp add: only_listener_def frames start_server_def)
  have "reports packet_arrives" by (simp add: packet_arrives_def reports_def MAX_EPOLL_EVENTS_def)
  then obtain s where s: "(live_step little ?err 6)\<^sup>*\<^sup>* (s0, ?none) (s, ?c)" "idle little s" "heard s = heard s0 @ ?out"
    using live_reaches_idle [OF s0(4,3) q server_reachable [OF s0(1)] body _ packet_arrives_answers] by blast
  have todo: "listener_todo s = []" using s(2) by (simp add: idle_def)
  have chunks: "chunks_of (heard s) = [\<lparr>client_id = 6, chunk_data = ?bs\<rparr>]" using s(3) l(3) s0(5) by simp
  have "map_of (m_drones (the_business s)) ''D1'' = Some (last (filter (\<lambda>t. drone_id t = ''D1'') [sample]))"
  proof (rule drone_bytes_reach_table [OF s0(1) _ s0(4,3) _ _ _ _ s(1,2)])
    show "audit (\<lambda>_. Free) (heard s0) \<noteq> Kernel_broke" using l(8) s0(5) by simp
    show "l_clients (the_listener s0) 6 = Some \<lparr>m_fd = 6\<rparr>" using l(4) s0(6) by simp
    show "closed_after 6 (chunks_of (heard s0))" using l(3) s0(5) by (simp add: closed_after_def)
    show "still_open 6 (since (length (heard s0)) s)"
      using s(3) sample_packet_nonempty by (auto simp: since_def todo still_open_def)
    show "fd' = 6" if "(fd', t) \<in> set (packet_sources (Map.empty, 0) (chunks_of (heard s)))" for fd' t
      using packet_sources_client [OF that] chunks by auto
    show "''D1'' \<in> drone_id ` set [sample]" by (simp add: sample_def)
  qed (simp_all add: no_lost_edge_def sample_sendable)
  then show ?thesis using s0(1) s(1) unfolding sample_start_def by (auto simp: sample_def)
qed

end
